(* ===== verification/Prelude.thy ===== *)
theory Prelude
  imports Main "HOL-Library.Word"
begin

text \<open>
  Shared vocabulary of the xv6 development: the machine integer types of
  \<^verbatim>\<open>src/types.h\<close>, the constants of \<^verbatim>\<open>src/param.h\<close>, the sleep channels, the outcome
  type of kernel code with its sequencing operator, and the generic lemmas on
  lists, words and outcomes that the component theories use.
\<close>

unbundle bit_operations_syntax

section \<open>Machine types and constants\<close>

type_synonym u8 = "8 word"
type_synonym u16 = "16 word"
type_synonym u32 = "32 word"

text \<open>Kernel pointers are addresses; the null pointer is 0.  Pointer arithmetic that
  leaves the address space is undefined in C and is not given a meaning here.\<close>

type_synonym addr = nat

abbreviation (input) NPROC :: nat where "NPROC \<equiv> 64"
abbreviation (input) PAGE :: nat where "PAGE \<equiv> 4096"
abbreviation (input) KSTACKSIZE :: nat where "KSTACKSIZE \<equiv> 4096"
abbreviation (input) NOFILE :: nat where "NOFILE \<equiv> 16"
abbreviation (input) NFILE :: nat where "NFILE \<equiv> 100"
abbreviation (input) NBUF :: nat where "NBUF \<equiv> 10"
abbreviation (input) NINODE :: nat where "NINODE \<equiv> 50"
abbreviation (input) NDEV :: nat where "NDEV \<equiv> 10"

section \<open>Outcomes of kernel code\<close>

text \<open>
  A sleep channel is the address of a kernel object.  Different objects have
  different addresses, so channels are a datatype with one constructor per kind of
  object the kernel sleeps on.
\<close>

datatype chan =
    ChPipeRead addr | ChPipeWrite addr
  | ChBuf nat | ChInode nat | ChProc nat | ChTicks | ChInput

text \<open>
  Kernel code started in a state
  \<^item> returns a value in a new state (\<open>Ok\<close>);
  \<^item> calls \<^verbatim>\<open>panic\<close> with a message (\<open>Panic\<close>);
  \<^item> gives up the processor inside \<^verbatim>\<open>sleep\<close>: \<open>Sleep c k s\<close> is the state in which the
    process is asleep on channel \<open>c\<close>, with \<open>k\<close> the progress counter of the loop around
    the call (the loop is entered again from there after a wakeup);
  \<^item> never returns on its own (\<open>Hang\<close>): it spins on a lock another processor holds, or
    follows a cyclic list.
\<close>

datatype ('a, 's) res = Ok 'a 's | Panic string | Sleep chan nat 's | Hang

fun bindr :: "('a, 's) res \<Rightarrow> ('a \<Rightarrow> 's \<Rightarrow> ('b, 's) res) \<Rightarrow> ('b, 's) res" where
  "bindr (Ok x s) f = f x s"
| "bindr (Panic m) f = Panic m"
| "bindr (Sleep c k s) f = Sleep c k s"
| "bindr Hang f = Hang"

lemma bindr_eq_Ok_iff:
  "bindr m f = Ok y t \<longleftrightarrow> (\<exists>x s. m = Ok x s \<and> f x s = Ok y t)"
  by (cases m) auto

lemma bindr_OkE:
  assumes "bindr m f = Ok y t"
  obtains x s where "m = Ok x s" and "f x s = Ok y t"
  using assms by (auto simp: bindr_eq_Ok_iff)

lemma bindr_assoc: "bindr (bindr m f) g = bindr m (\<lambda>x s. bindr (f x s) g)"
  by (cases m) auto

lemma bindr_cong [fundef_cong]:
  assumes "m = m'" and "\<And>x s. m' = Ok x s \<Longrightarrow> f x s = f' x s"
  shows "bindr m f = bindr m' f'"
  using assms by (cases m') auto

lemma map_res_Ok: "map_res f g r = Ok y t \<longleftrightarrow> (\<exists>x s. r = Ok x s \<and> y = f x \<and> t = g s)"
  by (cases r) auto

text \<open>The value and the final state of a run that returned.\<close>

fun returns :: "('a, 's) res \<Rightarrow> bool" where
  "returns (Ok x s) = True"
| "returns _ = False"

lemma returns_iff: "returns r \<longleftrightarrow> (\<exists>x s. r = Ok x s)"
  by (cases r) auto

section \<open>Generic lemmas\<close>

text \<open>The index of the first element that satisfies a predicate: the scan
  \<^verbatim>\<open>for(p = tab; p < tab+N; p++) if(P(p)) ...\<close> of the kernel's tables.\<close>

fun first_index :: "('a \<Rightarrow> bool) \<Rightarrow> 'a list \<Rightarrow> nat option" where
  "first_index P [] = None"
| "first_index P (x # xs) = (if P x then Some 0 else map_option Suc (first_index P xs))"

lemma first_index_None_iff: "first_index P xs = None \<longleftrightarrow> (\<forall>x \<in> set xs. \<not> P x)"
  by (induction xs) auto

lemma first_index_Some_iff:
  "first_index P xs = Some i \<longleftrightarrow> i < length xs \<and> P (xs ! i) \<and> (\<forall>j < i. \<not> P (xs ! j))"
proof (induction xs arbitrary: i)
  case Nil
  then show ?case by simp
next
  case (Cons x xs)
  show ?case
    by (cases i) (auto simp: Cons.IH less_Suc_eq_0_disj)
qed

lemma first_index_SomeD:
  assumes "first_index P xs = Some i"
  shows "i < length xs" and "P (xs ! i)"
  using assms by (auto simp: first_index_Some_iff)

lemma first_index_map: "first_index P (map f xs) = first_index (\<lambda>x. P (f x)) xs"
  by (induction xs) auto

lemma first_index_map_cong:
  "map f xs = map f ys \<Longrightarrow> first_index (\<lambda>x. P (f x)) xs = first_index (\<lambda>x. P (f x)) ys"
  by (metis first_index_map)

lemma unat_eq_iff: "(a :: 'a::len word) = b \<longleftrightarrow> unat a = unat b"
  by (simp add: word_eq_iff_unsigned)

end
