(* ===== verification/Spinlock.thy ===== *)
theory Spinlock
  imports Prelude
begin

text \<open>
  Spin locks and interrupt nesting, \<^verbatim>\<open>src/spinlock.c\<close> and \<^verbatim>\<open>src/spinlock.h\<close>.
  The record \<open>mach\<close> is the part of the machine that every later component extends:
  the lock table, the per-processor data of \<^verbatim>\<open>struct cpu\<close> that the lock code uses,
  and the registers it reads.  The first part gives the functions of the file as
  seen by the processor that runs them; the second part is a step relation in which
  several processors interleave the single memory accesses of \<^verbatim>\<open>acquire\<close> and
  \<^verbatim>\<open>release\<close> on one lock.
\<close>

section \<open>State\<close>

text \<open>The locks of the kernel, one name per \<^verbatim>\<open>struct spinlock\<close> object.\<close>

datatype lockid =
    KmemLock | PtableLock | BcacheLock | IdeLock | IcacheLock | FtableLock
  | TicksLock | ConsLock | InputLock | PipeLock addr

record spinlock =
  locked :: u32
  lname :: string
  lcpu :: u32
  pcs :: "u32 list"

text \<open>The fields of \<^verbatim>\<open>struct cpu\<close> that \<^verbatim>\<open>pushcli\<close> and \<^verbatim>\<open>popcli\<close> keep.\<close>

record cpu =
  ncli :: int
  intena :: u32

text \<open>
  \<open>lapic_id\<close> is the identification register of the local APIC of the running
  processor (\<open>None\<close> when there is no APIC), \<open>eflags\<close> its flag register,
  \<open>stack\<close> the words of memory the frame pointer chain runs through and
  \<open>frame\<close> the address of the first argument of the running function.
\<close>

record mach =
  locks :: "lockid \<Rightarrow> spinlock"
  cpus :: "nat \<Rightarrow> cpu"
  lapic_id :: "u32 option"
  eflags :: u32
  stack :: "u32 \<Rightarrow> u32"
  frame :: u32

definition FL_IF :: u32 where
  "FL_IF = 0x200"

section \<open>Operations\<close>

text \<open>\<^verbatim>\<open>cpu()\<close> of \<^verbatim>\<open>src/lapic.c\<close>, without the warning it prints.\<close>

definition cpu_id :: "('z) mach_scheme \<Rightarrow> u32" where
  "cpu_id s = (case lapic_id s of Some r \<Rightarrow> drop_bit 24 r | None \<Rightarrow> 0)"

text \<open>The per-processor pointer \<^verbatim>\<open>c\<close>.\<close>

definition this_cpu :: "('z) mach_scheme \<Rightarrow> cpu" where
  "this_cpu s = cpus s (unat (cpu_id s))"

definition set_cpu :: "cpu \<Rightarrow> ('z) mach_scheme \<Rightarrow> ('z) mach_scheme" where
  "set_cpu c s = s\<lparr>cpus := (cpus s)(unat (cpu_id s) := c)\<rparr>"

definition set_lock :: "lockid \<Rightarrow> spinlock \<Rightarrow> ('z) mach_scheme \<Rightarrow> ('z) mach_scheme" where
  "set_lock l k s = s\<lparr>locks := (locks s)(l := k)\<rparr>"

definition initlock :: "lockid \<Rightarrow> string \<Rightarrow> ('z) mach_scheme \<Rightarrow> ('z) mach_scheme" where
  "initlock l nm s = set_lock l ((locks s l)\<lparr>lname := nm, locked := 0, lcpu := 0xffffffff\<rparr>) s"

definition cli :: "('z) mach_scheme \<Rightarrow> ('z) mach_scheme" where
  "cli s = s\<lparr>eflags := eflags s AND NOT FL_IF\<rparr>"

definition sti :: "('z) mach_scheme \<Rightarrow> ('z) mach_scheme" where
  "sti s = s\<lparr>eflags := eflags s OR FL_IF\<rparr>"

definition pushcli :: "('z) mach_scheme \<Rightarrow> ('z) mach_scheme" where
  "pushcli s =
     (let fl = eflags s; s = cli s; c = this_cpu s in
      if ncli c = 0 then set_cpu (c\<lparr>ncli := ncli c + 1, intena := fl AND FL_IF\<rparr>) s
      else set_cpu (c\<lparr>ncli := ncli c + 1\<rparr>) s)"

definition popcli :: "('z) mach_scheme \<Rightarrow> (unit, ('z) mach_scheme) res" where
  "popcli s =
     (if eflags s AND FL_IF \<noteq> 0 then Panic ''popcli - interruptible''
      else let c = this_cpu s; s = set_cpu (c\<lparr>ncli := ncli c - 1\<rparr>) s; c = this_cpu s in
        if ncli c < 0 then Panic ''popcli''
        else if ncli c = 0 \<and> intena c \<noteq> 0 then Ok () (sti s)
        else Ok () s)"

definition holding_by :: "spinlock \<Rightarrow> u32 \<Rightarrow> bool" where
  "holding_by k i \<longleftrightarrow> locked k \<noteq> 0 \<and> lcpu k = i + 10"

definition holding :: "lockid \<Rightarrow> ('z) mach_scheme \<Rightarrow> bool" where
  "holding l s \<longleftrightarrow> holding_by (locks s l) (cpu_id s)"

text \<open>
  \<^verbatim>\<open>getcallerpcs\<close> follows the chain of saved frame pointers: ten entries at most,
  stopping at a null or all-ones frame pointer, the rest filled with zeros.
\<close>

fun callerpcs :: "(u32 \<Rightarrow> u32) \<Rightarrow> nat \<Rightarrow> u32 \<Rightarrow> u32 list" where
  "callerpcs m 0 ebp = []"
| "callerpcs m (Suc n) ebp =
     (if ebp = 0 \<or> ebp = 0xffffffff then replicate (Suc n) 0
      else m (ebp + 4) # callerpcs m n (m ebp))"

definition getcallerpcs :: "(u32 \<Rightarrow> u32) \<Rightarrow> u32 \<Rightarrow> u32 list" where
  "getcallerpcs m v = callerpcs m 10 (v - 8)"

text \<open>
  \<^verbatim>\<open>acquire\<close> as its processor sees it: when another processor holds the lock the
  exchange loop does not end before that processor releases it.
\<close>

definition acquire :: "lockid \<Rightarrow> ('z) mach_scheme \<Rightarrow> (unit, ('z) mach_scheme) res" where
  "acquire l s =
     (let s = pushcli s in
      if holding l s then Panic ''acquire''
      else if locked (locks s l) = 1 then Hang
      else Ok () (set_lock l ((locks s l)\<lparr>locked := 1, lcpu := cpu_id s + 10,
                                 pcs := getcallerpcs (stack s) (frame s)\<rparr>) s))"

definition release :: "lockid \<Rightarrow> ('z) mach_scheme \<Rightarrow> (unit, ('z) mach_scheme) res" where
  "release l s =
     (if \<not> holding l s then Panic ''release''
      else popcli (set_lock l ((locks s l)\<lparr>pcs := (pcs (locks s l))[0 := 0],
                                 lcpu := 0xffffffff, locked := 0\<rparr>) s))"

section \<open>Interrupt nesting\<close>

text \<open>The flag register and the nesting count agree: interrupts are off inside a
  \<^verbatim>\<open>pushcli\<close> section.\<close>

definition cpu_ok :: "('z) mach_scheme \<Rightarrow> bool" where
  "cpu_ok s \<longleftrightarrow> 0 \<le> ncli (this_cpu s) \<and>
     (0 < ncli (this_cpu s) \<longrightarrow> eflags s AND FL_IF = 0)"

lemma cpu_id_simps [simp]:
  "cpu_id (s\<lparr>locks := a\<rparr>) = cpu_id s"
  "cpu_id (s\<lparr>cpus := b\<rparr>) = cpu_id s"
  "cpu_id (s\<lparr>eflags := e\<rparr>) = cpu_id s"
  "cpu_id (mach.more_update f s) = cpu_id s"
  by (simp_all add: cpu_id_def)

lemma this_cpu_eflags [simp]: "this_cpu (s\<lparr>eflags := e\<rparr>) = this_cpu s"
  by (simp add: this_cpu_def)

lemma mach_setters [simp]:
  "cpu_id (set_cpu c s) = cpu_id s" "cpu_id (set_lock l k s) = cpu_id s"
  "cpu_id (cli s) = cpu_id s" "cpu_id (sti s) = cpu_id s"
  "this_cpu (set_cpu c s) = c" "this_cpu (set_lock l k s) = this_cpu s"
  "this_cpu (cli s) = this_cpu s" "this_cpu (sti s) = this_cpu s"
  "eflags (set_cpu c s) = eflags s" "eflags (set_lock l k s) = eflags s"
  "locks (set_cpu c s) = locks s" "locks (cli s) = locks s" "locks (sti s) = locks s"
  "locks (set_lock l k s) = (locks s)(l := k)"
  "set_cpu c (set_cpu c' s) = set_cpu c s"
  "set_lock l k (set_lock l k' s) = set_lock l k s"
  "stack (set_cpu c s) = stack s" "frame (set_cpu c s) = frame s"
  "mach.more (set_cpu c s) = mach.more s" "mach.more (set_lock l k s) = mach.more s"
  "mach.more (cli s) = mach.more s" "mach.more (sti s) = mach.more s"
  by (simp_all add: set_cpu_def set_lock_def cli_def sti_def this_cpu_def cpu_id_def)


lemma eflags_cli [simp]: "eflags (cli s) AND FL_IF = 0"
  by (simp add: cli_def FL_IF_def ac_simps)

lemma bit_FL_IF: "bit FL_IF n \<longleftrightarrow> n = 9"
proof -
  have eq: "FL_IF = 2 ^ 9" by (simp add: FL_IF_def)
  show ?thesis by (simp only: eq bit_exp_iff possible_bit_word) auto
qed

lemma flag_restored:
  fixes w :: u32
  assumes "w AND FL_IF \<noteq> 0"
  shows "(w AND NOT FL_IF) OR FL_IF = w"
proof -
  have "bit w 9"
  proof (rule ccontr)
    assume "\<not> bit w 9"
    then have "w AND FL_IF = 0"
      by (intro bit_word_eqI) (auto simp: bit_FL_IF bit_and_iff)
    with assms show False by simp
  qed
  then show ?thesis
    by (intro bit_word_eqI) (auto simp: bit_FL_IF bit_and_iff bit_or_iff bit_not_iff)
qed

lemma flag_clear:
  fixes w :: u32
  assumes "w AND FL_IF = 0"
  shows "w AND NOT FL_IF = w"
proof -
  have "(w AND FL_IF) OR (w AND NOT FL_IF) = w"
    by (intro bit_word_eqI) (auto simp: bit_and_iff bit_or_iff bit_not_iff)
  with assms show ?thesis by simp
qed

text \<open>The state after a successful \<^verbatim>\<open>acquire\<close>, after a successful \<^verbatim>\<open>release\<close>, and
  after a whole critical section.\<close>

definition lock_st :: "lockid \<Rightarrow> ('z) mach_scheme \<Rightarrow> ('z) mach_scheme" where
  "lock_st l s = set_lock l ((locks s l)\<lparr>locked := 1, lcpu := cpu_id s + 10,
                   pcs := getcallerpcs (stack s) (frame s)\<rparr>) (pushcli s)"

definition unlock :: "lockid \<Rightarrow> ('z) mach_scheme \<Rightarrow> ('z) mach_scheme" where
  "unlock l s =
     (let k = (locks s l)\<lparr>pcs := (pcs (locks s l))[0 := 0], lcpu := 0xffffffff, locked := 0\<rparr>;
          c = this_cpu s; s = set_cpu (c\<lparr>ncli := ncli c - 1\<rparr>) (set_lock l k s)
      in if ncli c = 1 \<and> intena c \<noteq> 0 then sti s else s)"

definition through :: "lockid \<Rightarrow> ('z) mach_scheme \<Rightarrow> ('z) mach_scheme" where
  "through l s = unlock l (lock_st l s)"

definition held :: "lockid \<Rightarrow> ('z) mach_scheme \<Rightarrow> bool" where
  "held l s \<longleftrightarrow> holding l s \<and> 0 < ncli (this_cpu s) \<and> eflags s AND FL_IF = 0"

definition is_free :: "lockid \<Rightarrow> ('z) mach_scheme \<Rightarrow> bool" where
  "is_free l s \<longleftrightarrow> locked (locks s l) = 0 \<and> cpu_ok s"

lemmas mach_unfold = through_def unlock_def lock_st_def pushcli_def set_lock_def set_cpu_def
  cli_def sti_def this_cpu_def cpu_id_def

lemma pushcli_simps [simp]:
  "cpu_id (pushcli s) = cpu_id s" "locks (pushcli s) = locks s"
  "stack (pushcli s) = stack s" "frame (pushcli s) = frame s"
  "mach.more (pushcli s) = mach.more s"
  "eflags (pushcli s) = eflags s AND NOT FL_IF"
  "ncli (this_cpu (pushcli s)) = ncli (this_cpu s) + 1"
  by (simp_all add: pushcli_def Let_def cli_def set_cpu_def this_cpu_def)

lemma intena_pushcli [simp]:
  "intena (this_cpu (pushcli s)) =
     (if ncli (this_cpu s) = 0 then eflags s AND FL_IF else intena (this_cpu s))"
  by (simp add: pushcli_def Let_def)

lemma acquire_free: "is_free l s \<Longrightarrow> acquire l s = Ok () (lock_st l s)"
  by (simp add: acquire_def is_free_def holding_def holding_by_def lock_st_def Let_def)

lemma release_held: "held l s \<Longrightarrow> release l s = Ok () (unlock l s)"
  by (auto simp: release_def held_def popcli_def unlock_def Let_def)

lemma mask_clear: "((w :: u32) AND NOT m) AND m = 0"
  by (intro bit_word_eqI) (auto simp: bit_and_iff bit_not_iff)

lemma held_lock_st: "is_free l s \<Longrightarrow> held l (lock_st l s)"
  by (auto simp: held_def holding_def holding_by_def lock_st_def is_free_def cpu_ok_def mask_clear)

text \<open>A lock held before another one is taken stays held; a held lock cannot be
  taken again.\<close>

lemma held_lock_st_other: "held l s \<Longrightarrow> l \<noteq> l' \<Longrightarrow> held l (lock_st l' s)"
  by (auto simp: held_def holding_def holding_by_def lock_st_def mask_clear)

lemma acquire_held: "held l s \<Longrightarrow> acquire l s = Panic ''acquire''"
  by (simp add: acquire_def held_def holding_def holding_by_def Let_def)

lemma is_free_lock_st_other: "is_free l s \<Longrightarrow> l \<noteq> l' \<Longrightarrow> is_free l (lock_st l' s)"
  by (auto simp: is_free_def cpu_ok_def lock_st_def mask_clear)

lemma eflags_unlock:
  "eflags (unlock l s) =
     (if ncli (this_cpu s) = 1 \<and> intena (this_cpu s) \<noteq> 0 then eflags s OR FL_IF else eflags s)"
  by (simp add: unlock_def Let_def sti_def)

lemma this_cpu_lock_st [simp]: "this_cpu (lock_st l s) = this_cpu (pushcli s)"
  by (simp add: lock_st_def)

lemma unlock_simps [simp]:
  "ncli (this_cpu (unlock l s)) = ncli (this_cpu s) - 1"
  "intena (this_cpu (unlock l s)) = intena (this_cpu s)"
  "cpu_id (unlock l s) = cpu_id s"
  "mach.more (unlock l s) = mach.more s"
  "locked (locks (unlock l s) l') = (if l' = l then 0 else locked (locks s l'))"
  "lcpu (locks (unlock l s) l') = (if l' = l then 0xffffffff else lcpu (locks s l'))"
  by (simp_all add: unlock_def Let_def)

lemma lock_st_simps [simp]:
  "ncli (this_cpu (lock_st l s)) = ncli (this_cpu s) + 1"
  "cpu_id (lock_st l s) = cpu_id s"
  "mach.more (lock_st l s) = mach.more s"
  "eflags (lock_st l s) = eflags s AND NOT FL_IF"
  "locked (locks (lock_st l s) l') = (if l' = l then 1 else locked (locks s l'))"
  "lcpu (locks (lock_st l s) l') = (if l' = l then cpu_id s + 10 else lcpu (locks s l'))"
  by (simp_all add: lock_st_def)

text \<open>A critical section leaves the interrupt flag, the nesting count and every other
  lock as they were.\<close>

lemma eflags_through: "cpu_ok s \<Longrightarrow> eflags (through l s) = eflags s"
  by (auto simp: through_def eflags_unlock cpu_ok_def flag_restored flag_clear lock_st_def)

lemma ncli_through [simp]: "ncli (this_cpu (through l s)) = ncli (this_cpu s)"
  by (simp add: through_def)

lemma through_simps [simp]:
  "cpu_id (through l s) = cpu_id s" "mach.more (through l s) = mach.more s"
  "locked (locks (through l s) l') = (if l' = l then 0 else locked (locks s l'))"
  by (simp_all add: through_def)

lemma cpu_ok_through: "cpu_ok s \<Longrightarrow> cpu_ok (through l s)"
  by (simp add: cpu_ok_def eflags_through [unfolded cpu_ok_def])

lemma is_free_through: "is_free l s \<Longrightarrow> is_free l (through l' s)"
  by (simp add: is_free_def cpu_ok_through)

lemma held_through: "held l s \<Longrightarrow> l \<noteq> l' \<Longrightarrow> held l (through l' s)"
  by (auto simp: held_def holding_def holding_by_def through_def eflags_unlock mask_clear lock_st_def)


lemma held_unlock_other: "held l s \<Longrightarrow> l \<noteq> l' \<Longrightarrow> 1 < ncli (this_cpu s) \<Longrightarrow> held l (unlock l' s)"
  by (auto simp: held_def holding_def holding_by_def eflags_unlock)

lemma is_free_unlock: "held l s \<Longrightarrow> is_free l (unlock l s)"
  by (auto simp: held_def is_free_def cpu_ok_def eflags_unlock)

lemma held_cpu_ok: "held l s \<Longrightarrow> cpu_ok s"
  by (simp add: held_def cpu_ok_def)

lemma is_free_cpu_ok: "is_free l s \<Longrightarrow> cpu_ok s"
  by (simp add: is_free_def)

lemma held_not_free: "held l s \<Longrightarrow> is_free l' s \<Longrightarrow> l \<noteq> l'"
  by (auto simp: held_def holding_def holding_by_def is_free_def)

text \<open>The state after \<^verbatim>\<open>pushcli\<close> and the matching \<^verbatim>\<open>popcli\<close>.\<close>

definition pushpop :: "('z) mach_scheme \<Rightarrow> ('z) mach_scheme" where
  "pushpop s =
     (let s = pushcli s; c = this_cpu s; s = set_cpu (c\<lparr>ncli := ncli c - 1\<rparr>) s
      in if ncli c = 1 \<and> intena c \<noteq> 0 then sti s else s)"

lemma popcli_pushed:
  "0 < ncli (this_cpu s) \<Longrightarrow> eflags s AND FL_IF = 0 \<Longrightarrow>
   popcli s = Ok () (let c = this_cpu s; s = set_cpu (c\<lparr>ncli := ncli c - 1\<rparr>) s
      in if ncli c = 1 \<and> intena c \<noteq> 0 then sti s else s)"
  by (auto simp: popcli_def Let_def)

lemma pushpop_simps [simp]:
  "ncli (this_cpu (pushpop s)) = ncli (this_cpu s)" "cpu_id (pushpop s) = cpu_id s"
  "locks (pushpop s) = locks s" "mach.more (pushpop s) = mach.more s"
  by (simp_all add: pushpop_def Let_def)

lemma eflags_pushpop: "cpu_ok s \<Longrightarrow> eflags (pushpop s) = eflags s"
  by (auto simp: pushpop_def Let_def cpu_ok_def sti_def flag_restored flag_clear)

lemma cpu_ok_pushpop: "cpu_ok s \<Longrightarrow> cpu_ok (pushpop s)"
  by (simp add: cpu_ok_def eflags_pushpop [unfolded cpu_ok_def])

lemma is_free_pushpop: "is_free l s \<Longrightarrow> is_free l (pushpop s)"
  by (simp add: is_free_def cpu_ok_pushpop)

lemma held_pushpop: "held l s \<Longrightarrow> held l (pushpop s)"
  by (auto simp: held_def holding_def eflags_pushpop cpu_ok_def)

text \<open>
  The lock state of code that holds one lock, or none, while every other lock is free: what the
  kernel code of a process sees when no other processor holds a lock.
\<close>

definition owns :: "lockid option \<Rightarrow> ('z) mach_scheme \<Rightarrow> bool" where
  "owns h s \<longleftrightarrow> (\<forall>l. Some l \<noteq> h \<longrightarrow> locked (locks s l) = 0) \<and>
     (case h of None \<Rightarrow> ncli (this_cpu s) = 0 | Some l \<Rightarrow> held l s \<and> ncli (this_cpu s) = 1)"

lemma owns_is_free: "owns h s \<Longrightarrow> Some l \<noteq> h \<Longrightarrow> is_free l s"
  by (auto simp: owns_def is_free_def cpu_ok_def held_def split: option.splits)

lemma owns_held: "owns (Some l) s \<Longrightarrow> held l s \<and> ncli (this_cpu s) = 1"
  by (simp add: owns_def)

lemma owns_None: "owns None s \<longleftrightarrow> (\<forall>l. is_free l s) \<and> ncli (this_cpu s) = 0"
  by (auto simp: owns_def is_free_def cpu_ok_def)

lemma owns_acquire:
  assumes "owns None s"
  shows "acquire l s = Ok () (lock_st l s)" and "owns (Some l) (lock_st l s)"
  using assms acquire_free [of l s] held_lock_st [of l s] by (simp_all add: owns_None) (simp add: owns_def is_free_def)

lemma owns_release:
  assumes "owns (Some l) s"
  shows "release l s = Ok () (unlock l s)" and "owns None (unlock l s)"
  using assms release_held [of l s] by (auto simp: owns_def)

lemma owns_through: "owns h s \<Longrightarrow> Some l \<noteq> h \<Longrightarrow> owns h (through l s)"
  by (auto simp: owns_def intro: held_through split: option.splits)

lemma owns_pushpop: "owns h s \<Longrightarrow> owns h (pushpop s)"
  by (auto simp: owns_def intro: held_pushpop split: option.splits)

lemma owns_flags: "owns None (cli s) = owns None s" "owns None (sti s) = owns None s"
  by (simp_all add: owns_def)

text \<open>
  The lock code touches only the fields of \<open>mach\<close>.  A function \<open>u\<close> on an extended
  state that touches none of them commutes with it, and a field \<open>sel\<close> of an
  extension is not changed by it; every field that a later component adds to the
  state is an instance of these two facts.
\<close>

locale mach_upd =
  fixes u :: "('z) mach_scheme \<Rightarrow> ('z) mach_scheme"
  assumes sel [simp]: "locks (u s) = locks s" "cpus (u s) = cpus s" "lapic_id (u s) = lapic_id s"
      "eflags (u s) = eflags s" "stack (u s) = stack s" "frame (u s) = frame s"
    and upd: "locks_update f (u s) = u (locks_update f s)"
      "cpus_update g (u s) = u (cpus_update g s)"
      "eflags_update h (u s) = u (eflags_update h s)"
begin

lemma cpu_id_u [simp]: "cpu_id (u s) = cpu_id s"
  by (simp add: cpu_id_def sel)

lemma this_cpu_u [simp]: "this_cpu (u s) = this_cpu s"
  by (simp add: this_cpu_def sel)

lemma setters_u [simp]:
  "set_lock l k (u s) = u (set_lock l k s)" "set_cpu c (u s) = u (set_cpu c s)"
  "cli (u s) = u (cli s)" "sti (u s) = u (sti s)"
  by (simp_all add: set_lock_def set_cpu_def cli_def sti_def sel upd)

lemma pushcli_u [simp]: "pushcli (u s) = u (pushcli s)"
  by (simp add: pushcli_def Let_def sel)

lemma lock_st_u [simp]: "lock_st l (u s) = u (lock_st l s)"
  by (simp add: lock_st_def sel)

lemma unlock_u [simp]: "unlock l (u s) = u (unlock l s)"
  by (simp add: unlock_def Let_def sel)

lemma through_u [simp]: "through l (u s) = u (through l s)"
  by (simp add: through_def)

lemma pushpop_u [simp]: "pushpop (u s) = u (pushpop s)"
  by (simp add: pushpop_def Let_def sel)

lemma lock_preds_u [simp]:
  "cpu_ok (u s) = cpu_ok s" "holding l (u s) = holding l s"
  "is_free l (u s) = is_free l s" "held l (u s) = held l s"
  by (simp_all add: cpu_ok_def holding_def is_free_def held_def sel)

lemma owns_u [simp]: "owns h (u s) = owns h s"
  by (simp add: owns_def sel cong: option.case_cong)

end

locale mach_sel =
  fixes sel :: "('z) mach_scheme \<Rightarrow> 'b"
  assumes sel: "sel (locks_update f s) = sel s" "sel (cpus_update g s) = sel s"
      "sel (eflags_update h s) = sel s"
begin

lemma sel_setters [simp]:
  "sel (set_lock l k s) = sel s" "sel (set_cpu c s) = sel s" "sel (cli s) = sel s"
  "sel (sti s) = sel s"
  by (simp_all add: set_lock_def set_cpu_def cli_def sti_def sel)

lemma sel_lock [simp]:
  "sel (pushcli s) = sel s" "sel (lock_st l s) = sel s" "sel (unlock l s) = sel s"
  "sel (through l s) = sel s"
  "sel (pushpop s) = sel s"
  by (simp_all add: pushcli_def lock_st_def unlock_def through_def pushpop_def Let_def)

lemma sel_popcli: "popcli s = Ok x t \<Longrightarrow> sel t = sel s"
  by (auto simp: popcli_def Let_def split: if_splits)

lemma sel_acquire: "acquire l s = Ok x t \<Longrightarrow> sel t = sel s"
  by (auto simp: acquire_def Let_def split: if_splits)

lemma sel_release: "release l s = Ok x t \<Longrightarrow> sel t = sel s"
  by (auto simp: release_def split: if_splits dest: sel_popcli)

end

fun popclis :: "nat \<Rightarrow> ('z) mach_scheme \<Rightarrow> (unit, ('z) mach_scheme) res" where
  "popclis 0 s = Ok () s"
| "popclis (Suc k) s = bindr (popcli s) (\<lambda>_ s. popclis k s)"

lemma pushclis:
  assumes "cpu_ok s"
  shows "ncli (this_cpu ((pushcli ^^ n) s)) = ncli (this_cpu s) + int n"
    and "0 < n \<Longrightarrow> eflags ((pushcli ^^ n) s) = eflags s AND NOT FL_IF"
    and "0 < n \<Longrightarrow> intena (this_cpu ((pushcli ^^ n) s)) =
           (if ncli (this_cpu s) = 0 then eflags s AND FL_IF else intena (this_cpu s))"
proof (induction n)
  case (Suc n)
  { case 1 from Suc.IH(1) show ?case by simp }
  { case 2 from Suc.IH(2) show ?case by (cases "n = 0") simp_all }
  { case 3
    show ?case
    proof (cases "n = 0")
      case False
      with assms Suc.IH(1) have "ncli (this_cpu ((pushcli ^^ n) s)) \<noteq> 0"
        by (simp add: cpu_ok_def)
      with False Suc.IH(3) show ?thesis by simp
    qed simp }
qed simp_all

lemma popcli_inner:
  assumes "eflags s AND FL_IF = 0" and "1 < ncli (this_cpu s)"
  shows "\<exists>s'. popcli s = Ok () s' \<and> eflags s' = eflags s \<and> locks s' = locks s \<and>
           ncli (this_cpu s') = ncli (this_cpu s) - 1 \<and> intena (this_cpu s') = intena (this_cpu s)"
  using assms by (simp add: popcli_def Let_def)

lemma popcli_outer:
  assumes "eflags s AND FL_IF = 0" and "ncli (this_cpu s) = 1"
  shows "\<exists>s'. popcli s = Ok () s' \<and> locks s' = locks s \<and> ncli (this_cpu s') = 0 \<and>
           eflags s' = (if intena (this_cpu s) \<noteq> 0 then eflags s OR FL_IF else eflags s)"
  using assms by (simp add: popcli_def Let_def sti_def)

lemma popclis_inner:
  assumes "eflags s AND FL_IF = 0" and "int k < ncli (this_cpu s)"
  shows "\<exists>s'. popclis k s = Ok () s' \<and> eflags s' = eflags s \<and> locks s' = locks s \<and>
           ncli (this_cpu s') = ncli (this_cpu s) - int k \<and> intena (this_cpu s') = intena (this_cpu s)"
  using assms
proof (induction k arbitrary: s)
  case (Suc k)
  from Suc.prems popcli_inner [of s] obtain s1 where s1: "popcli s = Ok () s1"
    "eflags s1 = eflags s" "locks s1 = locks s" "ncli (this_cpu s1) = ncli (this_cpu s) - 1"
    "intena (this_cpu s1) = intena (this_cpu s)" by auto
  with Suc.IH [of s1] Suc.prems show ?case by auto
qed simp

lemma popclis_add: "popclis (j + k) s = bindr (popclis j s) (\<lambda>_ s. popclis k s)"
  by (induction j arbitrary: s) (auto simp: bindr_assoc intro!: bindr_cong)

section \<open>Several processors and one lock\<close>

text \<open>
  Where a processor is in the lock code: outside; in the exchange loop of
  \<^verbatim>\<open>acquire\<close>; past the exchange but before \<^verbatim>\<open>lock->cpu\<close> is written; in the critical
  section; past the write of \<^verbatim>\<open>lock->cpu\<close> in \<^verbatim>\<open>release\<close> but before the final exchange;
  or stopped in \<^verbatim>\<open>panic\<close>.
\<close>

datatype lpc = Outside | Spinning | Taken | Critical | Leaving | Stopped

record lksys =
  lk :: spinlock
  lpcs :: "u32 \<Rightarrow> lpc"

text \<open>One shared memory access per step; a processor is named by the value of \<^verbatim>\<open>cpu()\<close>,
  an 8-bit local APIC number.\<close>

inductive lk_step :: "lksys \<Rightarrow> lksys \<Rightarrow> bool" where
  enter: "i < 256 \<Longrightarrow> lpcs s i = Outside \<Longrightarrow> \<not> holding_by (lk s) i \<Longrightarrow>
    lk_step s (s\<lparr>lpcs := (lpcs s)(i := Spinning)\<rparr>)"
| enter_panic: "i < 256 \<Longrightarrow> lpcs s i = Outside \<Longrightarrow> holding_by (lk s) i \<Longrightarrow>
    lk_step s (s\<lparr>lpcs := (lpcs s)(i := Stopped)\<rparr>)"
| spin: "i < 256 \<Longrightarrow> lpcs s i = Spinning \<Longrightarrow> locked (lk s) = 1 \<Longrightarrow>
    lk_step s (s\<lparr>lk := (lk s)\<lparr>locked := 1\<rparr>\<rparr>)"
| exchange: "i < 256 \<Longrightarrow> lpcs s i = Spinning \<Longrightarrow> locked (lk s) \<noteq> 1 \<Longrightarrow>
    lk_step s (s\<lparr>lk := (lk s)\<lparr>locked := 1\<rparr>, lpcs := (lpcs s)(i := Taken)\<rparr>)"
| note_owner: "i < 256 \<Longrightarrow> lpcs s i = Taken \<Longrightarrow>
    lk_step s (s\<lparr>lk := (lk s)\<lparr>lcpu := i + 10\<rparr>, lpcs := (lpcs s)(i := Critical)\<rparr>)"
| drop_owner: "i < 256 \<Longrightarrow> lpcs s i = Critical \<Longrightarrow> holding_by (lk s) i \<Longrightarrow>
    lk_step s (s\<lparr>lk := (lk s)\<lparr>lcpu := 0xffffffff\<rparr>, lpcs := (lpcs s)(i := Leaving)\<rparr>)"
| drop_panic: "i < 256 \<Longrightarrow> lpcs s i = Critical \<Longrightarrow> \<not> holding_by (lk s) i \<Longrightarrow>
    lk_step s (s\<lparr>lpcs := (lpcs s)(i := Stopped)\<rparr>)"
| unlocked: "i < 256 \<Longrightarrow> lpcs s i = Leaving \<Longrightarrow>
    lk_step s (s\<lparr>lk := (lk s)\<lparr>locked := 0\<rparr>, lpcs := (lpcs s)(i := Outside)\<rparr>)"

definition lk_init :: lksys where
  "lk_init = \<lparr>lk = \<lparr>locked = 0, lname = ''lock'', lcpu = 0xffffffff, pcs = replicate 10 0\<rparr>,
              lpcs = (\<lambda>_. Outside)\<rparr>"

inductive lk_reachable :: "lksys \<Rightarrow> bool" where
  init: "lk_reachable lk_init"
| step: "lk_reachable s \<Longrightarrow> lk_step s t \<Longrightarrow> lk_reachable t"

definition inside :: "lksys \<Rightarrow> u32 \<Rightarrow> bool" where
  "inside s i \<longleftrightarrow> i < 256 \<and> lpcs s i \<in> {Taken, Critical, Leaving}"

text \<open>
  The invariant names the owner: the lock word says whether there is one, and the
  owner field is written exactly while the owner is in its critical section.
\<close>

definition owned_by :: "u32 option \<Rightarrow> lksys \<Rightarrow> bool" where
  "owned_by w s \<longleftrightarrow>
     (\<forall>i. inside s i \<longleftrightarrow> w = Some i) \<and>
     locked (lk s) = (if w = None then 0 else 1) \<and>
     lcpu (lk s) = (case w of Some i \<Rightarrow> if lpcs s i = Critical then i + 10 else 0xffffffff
                            | None \<Rightarrow> 0xffffffff) \<and>
     (\<forall>i. i < 256 \<longrightarrow> lpcs s i \<noteq> Stopped)"

lemma small_cpu_id: "(i :: u32) < 256 \<Longrightarrow> i + 10 \<noteq> 0xffffffff"
  by unat_arith

lemma owned_by_holding:
  assumes "owned_by w s" and "i < 256"
  shows "holding_by (lk s) i \<longleftrightarrow> lpcs s i = Critical"
proof (cases w)
  case None
  with assms have "\<not> inside s i" by (simp add: owned_by_def)
  with None assms show ?thesis by (auto simp: owned_by_def holding_by_def inside_def)
next
  case (Some j)
  with assms have "inside s j" by (simp add: owned_by_def)
  then have j: "j < 256" by (simp add: inside_def)
  have "lpcs s i = Critical \<Longrightarrow> i = j"
    using assms Some by (auto simp: owned_by_def inside_def)
  with Some assms j small_cpu_id [OF assms(2)] show ?thesis
    by (auto simp: owned_by_def holding_by_def)
qed

text \<open>Each kind of step keeps the invariant, with the owner it names.\<close>

lemma owned_by_enter:
  assumes "owned_by w s" and "i < 256" and "lpcs s i = Outside"
  shows "owned_by w (s\<lparr>lpcs := (lpcs s)(i := Spinning)\<rparr>)"
proof -
  from assms(1) have "inside s i \<longleftrightarrow> w = Some i" by (simp add: owned_by_def)
  with assms have "w \<noteq> Some i" by (simp add: inside_def)
  with assms show ?thesis by (auto simp: owned_by_def inside_def split: option.splits)
qed

lemma owned_by_exchange:
  assumes "owned_by w s" and "i < 256" and "locked (lk s) \<noteq> 1"
  shows "owned_by (Some i) (s\<lparr>lk := (lk s)\<lparr>locked := 1\<rparr>, lpcs := (lpcs s)(i := Taken)\<rparr>)"
proof -
  from assms have "w = None" by (auto simp: owned_by_def split: if_splits)
  with assms show ?thesis by (auto simp: owned_by_def inside_def)
qed

lemma owned_by_inside:
  assumes "owned_by w s" and "i < 256" and "lpcs s i \<in> {Taken, Critical, Leaving}"
  shows "w = Some i"
  using assms by (auto simp: owned_by_def inside_def)

lemma lk_step_owned:
  assumes "lk_step s t" and own: "owned_by w s"
  shows "\<exists>w'. owned_by w' t"
  using assms(1)
proof cases
  case (enter i)
  with owned_by_enter [OF own] show ?thesis by blast
next
  case (enter_panic i)
  with owned_by_holding [OF own, of i] show ?thesis by simp
next
  case (spin i)
  then have "t = s" by simp
  with own show ?thesis by blast
next
  case (exchange i)
  with owned_by_exchange [OF own] show ?thesis by blast
next
  case (note_owner i)
  with owned_by_inside [OF own, of i] have "w = Some i" by simp
  with own note_owner have "owned_by (Some i) t" by (auto simp: owned_by_def inside_def)
  then show ?thesis by blast
next
  case (drop_owner i)
  with owned_by_inside [OF own, of i] have "w = Some i" by simp
  with own drop_owner have "owned_by (Some i) t" by (auto simp: owned_by_def inside_def)
  then show ?thesis by blast
next
  case (drop_panic i)
  with owned_by_holding [OF own, of i] show ?thesis by simp
next
  case (unlocked i)
  with owned_by_inside [OF own, of i] have "w = Some i" by simp
  with own unlocked have "owned_by None t" by (auto simp: owned_by_def inside_def)
  then show ?thesis by blast
qed

lemma lk_reachable_owned: "lk_reachable s \<Longrightarrow> \<exists>w. owned_by w s"
proof (induction rule: lk_reachable.induct)
  case init
  have "owned_by None lk_init" by (simp add: owned_by_def lk_init_def inside_def)
  then show ?case by blast
next
  case (step s t)
  then show ?case by (blast intro: lk_step_owned)
qed


section \<open>Properties\<close>

text \<open>
  C6: Mutual exclusion of \<^verbatim>\<open>acquire\<close>/\<^verbatim>\<open>release\<close> under every interleaving of single
  memory accesses: at most one processor is between its successful exchange in
  \<^verbatim>\<open>acquire\<close> and its final exchange in \<^verbatim>\<open>release\<close>; \<^verbatim>\<open>holding\<close>, which reads the lock
  without synchronisation, is exact for every processor at every moment; and neither
  function ever panics for a processor that acquires and releases in turn.
\<close>

theorem spinlock_mutual_exclusion:
  assumes "lk_reachable s" and "i < 256"
  shows "(holding_by (lk s) i \<longleftrightarrow> lpcs s i = Critical) \<and>
         (inside s i \<longrightarrow> inside s j \<longrightarrow> i = j) \<and> lpcs s i \<noteq> Stopped"
proof -
  from lk_reachable_owned [OF assms(1)] obtain w where w: "owned_by w s" ..
  then have "inside s i \<longleftrightarrow> w = Some i" "inside s j \<longleftrightarrow> w = Some j" "lpcs s i \<noteq> Stopped"
    using assms(2) by (auto simp: owned_by_def)
  with owned_by_holding [OF w assms(2)] show ?thesis by auto
qed

text \<open>Processor 3 takes the lock; processor 5 spins behind it.\<close>

lemma lk_example_reachable:
  "lk_reachable (lk_init\<lparr>lk := (lk lk_init)\<lparr>locked := 1, lcpu := 13\<rparr>,
                   lpcs := (\<lambda>_. Outside)(3 := Critical, 5 := Spinning)\<rparr>)"
proof -
  define s1 where "s1 = lk_init\<lparr>lpcs := (lpcs lk_init)(3 := Spinning)\<rparr>"
  define s2 where "s2 = s1\<lparr>lk := (lk s1)\<lparr>locked := 1\<rparr>, lpcs := (lpcs s1)(3 := Taken)\<rparr>"
  define s3 where "s3 = s2\<lparr>lk := (lk s2)\<lparr>lcpu := 3 + 10\<rparr>, lpcs := (lpcs s2)(3 := Critical)\<rparr>"
  define s4 where "s4 = s3\<lparr>lpcs := (lpcs s3)(5 := Spinning)\<rparr>"
  have "lk_reachable s1" unfolding s1_def
    by (rule lk_reachable.step [OF lk_reachable.init], rule lk_step.enter)
      (simp_all add: lk_init_def holding_by_def)
  then have "lk_reachable s2" unfolding s2_def
    by (rule lk_reachable.step) (rule lk_step.exchange, simp_all add: s1_def lk_init_def)
  then have "lk_reachable s3" unfolding s3_def
    by (rule lk_reachable.step) (rule lk_step.note_owner, simp_all add: s2_def)
  then have "lk_reachable s4" unfolding s4_def
    by (rule lk_reachable.step)
      (rule lk_step.enter, simp_all add: s3_def s2_def s1_def lk_init_def holding_by_def)
  then show ?thesis by (simp add: s4_def s3_def s2_def s1_def lk_init_def)
qed

theorem spinlock_mutual_exclusion_witness:
  "let s = lk_init\<lparr>lk := (lk lk_init)\<lparr>locked := 1, lcpu := 13\<rparr>,
                   lpcs := (\<lambda>_. Outside)(3 := Critical, 5 := Spinning)\<rparr>
   in lk_reachable s \<and> holding_by (lk s) 3 \<and> \<not> holding_by (lk s) 5"
  using spinlock_mutual_exclusion [OF lk_example_reachable, of 3 3]
    spinlock_mutual_exclusion [OF lk_example_reachable, of 5 5] lk_example_reachable
  by (simp add: Let_def)

text \<open>
  C16: \<^verbatim>\<open>pushcli\<close>/\<^verbatim>\<open>popcli\<close> nest: after \<open>n\<close> calls of \<^verbatim>\<open>pushcli\<close>, any \<open>k \<le> n\<close> calls of
  \<^verbatim>\<open>popcli\<close> succeed; interrupts stay off until the last one, which puts the flag
  register and the nesting count back to what they were.
\<close>

theorem pushcli_popcli_nest:
  assumes "cpu_ok s" and "k \<le> n"
  shows "\<exists>s'. popclis k ((pushcli ^^ n) s) = Ok () s' \<and>
           ncli (this_cpu s') = ncli (this_cpu s) + int (n - k) \<and>
           eflags s' = (if k < n then eflags s AND NOT FL_IF else eflags s)"
proof (cases "n = 0")
  case True
  with assms show ?thesis by simp
next
  case n: False
  define t where "t = (pushcli ^^ n) s"
  from n pushclis [OF assms(1), of n] have t: "eflags t = eflags s AND NOT FL_IF"
    "ncli (this_cpu t) = ncli (this_cpu s) + int n"
    "intena (this_cpu t) =
       (if ncli (this_cpu s) = 0 then eflags s AND FL_IF else intena (this_cpu s))"
    by (simp_all add: t_def)
  have off: "eflags t AND FL_IF = 0" by (simp add: t mask_clear)
  show ?thesis
  proof (cases "int k < ncli (this_cpu t)")
    case True
    with popclis_inner [OF off True] assms t show ?thesis
      by (auto simp: t_def [symmetric] cpu_ok_def flag_clear)
  next
    case False
    with assms t have k: "k = n" and z: "ncli (this_cpu s) = 0" by (auto simp: cpu_ok_def)
    from n obtain m where m: "n = m + 1" by (cases n) auto
    from popclis_inner [OF off, of m] t z m obtain s1 where s1: "popclis m t = Ok () s1"
      "eflags s1 = eflags t" "ncli (this_cpu s1) = 1" "intena (this_cpu s1) = intena (this_cpu t)"
      by auto
    with off popcli_outer [of s1] obtain s2 where s2: "popcli s1 = Ok () s2"
      "ncli (this_cpu s2) = 0"
      "eflags s2 = (if intena (this_cpu s1) \<noteq> 0 then eflags s1 OR FL_IF else eflags s1)"
      by auto
    have "popclis k t = Ok () s2" unfolding k m popclis_add using s1(1) s2(1) by simp
    moreover have "eflags s2 = eflags s"
      using s1 s2 t z by (auto simp: flag_restored flag_clear)
    ultimately show ?thesis using s2(2) z k by (auto simp: t_def)
  qed
qed

definition mach0 :: mach where
  "mach0 = \<lparr>locks = (\<lambda>_. \<lparr>locked = 0, lname = [], lcpu = 0xffffffff, pcs = replicate 10 0\<rparr>),
            cpus = (\<lambda>_. \<lparr>ncli = 0, intena = 0\<rparr>), lapic_id = Some 0x02000000,
            eflags = 0x202, stack = (\<lambda>_. 0), frame = 0x1000\<rparr>"

theorem pushcli_popcli_nest_witness:
  "cpu_ok mach0 \<and> (2::nat) \<le> 3 \<and>
   (\<exists>s'. popclis 2 ((pushcli ^^ 3) mach0) = Ok () s' \<and> ncli (this_cpu s') = 1 \<and> eflags s' = 2)"
proof -
  have ok: "cpu_ok mach0" by (simp add: cpu_ok_def mach0_def this_cpu_def)
  have "eflags mach0 AND NOT FL_IF = 2" by (simp add: mach0_def FL_IF_def)
  moreover have "ncli (this_cpu mach0) = 0" by (simp add: mach0_def this_cpu_def)
  ultimately show ?thesis using ok pushcli_popcli_nest [OF ok, of 2 3] by auto
qed

end
