(* ===== verification/Kalloc.thy ===== *)
theory Kalloc
  imports Spinlock
begin

text \<open>
  The physical page allocator, \<^verbatim>\<open>src/kalloc.c\<close>.  The free list is the linked list the
  code keeps inside the free memory itself: \<open>rheap\<close> holds the head pointer and the two
  fields of every \<^verbatim>\<open>struct run\<close>, by address.  It is a typed view of the first eight bytes
  of each free run: the stores to \<^verbatim>\<open>next\<close> and \<^verbatim>\<open>len\<close> go to the view and not to
  \<open>phys\<close>, so the bytes of \<open>phys\<close> mean what they mean in the machine outside the headers of
  free runs.  Lengths are integers; in the machine the sums stay far below 2^31, since
  all memory of the allocator comes from the one megabyte of \<^verbatim>\<open>kinit\<close>.  The console
  messages of \<^verbatim>\<open>kinit\<close> and of a failing \<^verbatim>\<open>kalloc\<close> are left out.  The loops of \<^verbatim>\<open>kfree\<close> and \<^verbatim>\<open>kalloc\<close> follow
  the list with the pointer-to-pointer \<^verbatim>\<open>rp\<close> as the source does.  They are shown to
  refine functions on lists of runs, and these to add and remove address ranges of
  the set of free addresses; the locale \<open>page_allocator\<close> is what the clients of
  the allocator rely on.
\<close>

section \<open>State\<close>

record rheap =
  freelist :: addr
  rnext :: "addr \<Rightarrow> addr"
  rlen :: "addr \<Rightarrow> int"

record kmem = mach +
  kheap :: rheap
  phys :: "addr \<Rightarrow> u8"

text \<open>A pointer to a \<^verbatim>\<open>struct run*\<close>: the list head or the next field of a run.\<close>

datatype rptr = Head | Next addr

fun rget :: "rptr \<Rightarrow> rheap \<Rightarrow> addr" where
  "rget Head h = freelist h"
| "rget (Next q) h = rnext h q"

fun rset :: "rptr \<Rightarrow> addr \<Rightarrow> rheap \<Rightarrow> rheap" where
  "rset Head a h = h\<lparr>freelist := a\<rparr>"
| "rset (Next q) a h = h\<lparr>rnext := (rnext h)(q := a)\<rparr>"

section \<open>Operations\<close>

text \<open>
  \<^verbatim>\<open>memset\<close> on physical memory: the bytes of the range, and with them the fields of
  every run header stored in the range.
\<close>

definition memset_phys :: "addr \<Rightarrow> u8 \<Rightarrow> nat \<Rightarrow> ('z) kmem_scheme \<Rightarrow> ('z) kmem_scheme" where
  "memset_phys v c n s =
     (let w = 0x01010101 * unat c; h = kheap s in
      s\<lparr>phys := (\<lambda>a. if v \<le> a \<and> a < v + n then c else phys s a),
        kheap := h\<lparr>rnext := (\<lambda>a. if v \<le> a \<and> a < v + n then w else rnext h a),
                   rlen := (\<lambda>a. if v \<le> a \<and> a < v + n then int w else rlen h a)\<rparr>\<rparr>)"

partial_function (option) kfree_loop ::
  "addr \<Rightarrow> int \<Rightarrow> rptr \<Rightarrow> rheap \<Rightarrow> (unit, rheap) res option" where
  "kfree_loop p len rp h =
     (let pend = p + nat len; r = rget rp h in
      if r \<noteq> 0 \<and> r \<le> pend then
        (let rend = int r + rlen h r in
         if r \<le> p \<and> int p < rend then Some (Panic ''freeing free page'')
         else if pend = r then
           (let h = h\<lparr>rlen := (rlen h)(p := len + rlen h r)\<rparr>;
                h = h\<lparr>rnext := (rnext h)(p := rnext h r)\<rparr>
            in Some (Ok () (rset rp p h)))
         else if rend = int p then
           (let h = h\<lparr>rlen := (rlen h)(r := rlen h r + len)\<rparr> in
            if rnext h r \<noteq> 0 \<and> rnext h r = pend then
              (let h = h\<lparr>rlen := (rlen h)(r := rlen h r + rlen h (rnext h r))\<rparr>
               in Some (Ok () (h\<lparr>rnext := (rnext h)(r := rnext h (rnext h r))\<rparr>)))
            else Some (Ok () h))
         else kfree_loop p len (Next r) h)
      else
        (let h = h\<lparr>rlen := (rlen h)(p := len)\<rparr>;
             h = h\<lparr>rnext := (rnext h)(p := r)\<rparr>
         in Some (Ok () (rset rp p h))))"

definition kfree :: "addr \<Rightarrow> int \<Rightarrow> ('z) kmem_scheme \<Rightarrow> (unit, ('z) kmem_scheme) res" where
  "kfree v len s =
     (if len \<le> 0 \<or> len mod int PAGE \<noteq> 0 then Panic ''kfree''
      else bindr (acquire KmemLock (memset_phys v 1 (nat len) s)) (\<lambda>_ s.
        case kfree_loop v len Head (kheap s) of
          None \<Rightarrow> Hang
        | Some r \<Rightarrow> bindr (map_res id (\<lambda>h. s\<lparr>kheap := h\<rparr>) r) (\<lambda>_ s. release KmemLock s)))"

partial_function (option) kalloc_loop :: "int \<Rightarrow> rptr \<Rightarrow> rheap \<Rightarrow> (addr \<times> rheap) option" where
  "kalloc_loop n rp h =
     (let r = rget rp h in
      if r \<noteq> 0 then
        (if rlen h r = n then Some (r, rset rp (rnext h r) h)
         else if rlen h r > n then
           (let h = h\<lparr>rlen := (rlen h)(r := rlen h r - n)\<rparr> in Some (nat (int r + rlen h r), h))
         else kalloc_loop n (Next r) h)
      else Some (0, h))"

definition kalloc :: "int \<Rightarrow> ('z) kmem_scheme \<Rightarrow> (addr, ('z) kmem_scheme) res" where
  "kalloc n s =
     (if n mod int PAGE \<noteq> 0 \<or> n \<le> 0 then Panic ''kalloc''
      else bindr (acquire KmemLock s) (\<lambda>_ s.
        case kalloc_loop n Head (kheap s) of
          None \<Rightarrow> Hang
        | Some (p, h) \<Rightarrow> bindr (release KmemLock (s\<lparr>kheap := h\<rparr>)) (\<lambda>_ s. Ok p s)))"

text \<open>\<open>end_sym\<close> is the address of the linker symbol \<^verbatim>\<open>end\<close>.\<close>

definition kinit :: "u32 \<Rightarrow> ('z) kmem_scheme \<Rightarrow> (unit, ('z) kmem_scheme) res" where
  "kinit end_sym s =
     (let s = initlock KmemLock ''kmem'' s;
          start = (end_sym + 4096) AND NOT (4096 - 1)
      in kfree (unat start) (256 * int PAGE) s)"

section \<open>Lists of runs\<close>

text \<open>The runs a pointer leads to, in list order, as pairs of address and length.\<close>

fun runs :: "rheap \<Rightarrow> addr \<Rightarrow> (nat \<times> nat) list \<Rightarrow> bool" where
  "runs h a [] \<longleftrightarrow> a = 0"
| "runs h a ((b, n) # xs) \<longleftrightarrow> a = b \<and> b \<noteq> 0 \<and> rlen h b = int n \<and> runs h (rnext h b) xs"

text \<open>
  The free list is sorted by address, its runs are page aligned and whole pages long,
  and no two of them touch: adjacent runs have been merged.
\<close>

fun wf_runs :: "nat \<Rightarrow> (nat \<times> nat) list \<Rightarrow> bool" where
  "wf_runs lo [] \<longleftrightarrow> True"
| "wf_runs lo ((a, n) # xs) \<longleftrightarrow>
     lo < a \<and> 0 < n \<and> PAGE dvd a \<and> PAGE dvd n \<and> wf_runs (a + n) xs"

definition freeset :: "(nat \<times> nat) list \<Rightarrow> nat set" where
  "freeset xs = (\<Union>(a, n) \<in> set xs. {a..<a + n})"

text \<open>\<^verbatim>\<open>kfree\<close> and \<^verbatim>\<open>kalloc\<close> on lists.\<close>

fun free_run :: "nat \<Rightarrow> nat \<Rightarrow> (nat \<times> nat) list \<Rightarrow> (nat \<times> nat) list" where
  "free_run v n [] = [(v, n)]"
| "free_run v n ((a, m) # xs) =
     (if v + n < a then (v, n) # (a, m) # xs
      else if v + n = a then (v, n + m) # xs
      else if a + m = v then
        (case xs of (b, k) # ys \<Rightarrow> if b = v + n then (a, m + n + k) # ys else (a, m + n) # xs
                  | [] \<Rightarrow> [(a, m + n)])
      else (a, m) # free_run v n xs)"

fun alloc_run :: "nat \<Rightarrow> (nat \<times> nat) list \<Rightarrow> nat \<times> (nat \<times> nat) list" where
  "alloc_run n [] = (0, [])"
| "alloc_run n ((a, m) # xs) =
     (if m = n then (a, xs)
      else if n < m then (a + (m - n), (a, m - n) # xs)
      else let (p, ys) = alloc_run n xs in (p, (a, m) # ys))"


lemma freeset_simps [simp]:
  "freeset [] = {}" "freeset ((a, n) # xs) = {a..<a + n} \<union> freeset xs"
  by (auto simp: freeset_def)

lemma wf_runs_mono: "wf_runs lo xs \<Longrightarrow> lo' \<le> lo \<Longrightarrow> wf_runs lo' xs"
  by (cases xs) auto

lemma wf_runs_above: "wf_runs lo xs \<Longrightarrow> x \<in> freeset xs \<Longrightarrow> lo < x"
proof (induction xs arbitrary: lo)
  case (Cons r xs)
  then show ?case by (cases r) fastforce
qed simp

lemma wf_runs_start: "wf_runs lo xs \<Longrightarrow> (a, n) \<in> set xs \<Longrightarrow> lo < a \<and> a \<in> freeset xs"
proof (induction xs arbitrary: lo)
  case (Cons r xs)
  then show ?case by (cases r) fastforce
qed simp

lemma free_run_spec:
  assumes "wf_runs lo xs" and "lo < v" and "0 < n" and "PAGE dvd v" and "PAGE dvd n"
    and "{v..<v + n} \<inter> freeset xs = {}"
  shows "wf_runs lo (free_run v n xs) \<and> freeset (free_run v n xs) = freeset xs \<union> {v..<v + n}"
  using assms
proof (induction xs arbitrary: lo)
  case Nil
  then show ?case by simp
next
  case (Cons r xs)
  obtain a m where r: "r = (a, m)" by (cases r)
  note pr = Cons.prems [unfolded r]
  have disj: "a + m \<le> v \<or> v + n \<le> a"
  proof (rule ccontr)
    assume "\<not> ?thesis"
    then have "max a v \<in> {v..<v + n} \<inter> freeset ((a, m) # xs)" using pr(1,3)
      by (auto simp: max_def)
    with pr(6) show False by blast
  qed
  consider "v + n \<le> a" | "a + m = v" | "a + m < v" using disj by linarith
  then show ?case
  proof cases
    case 1
    with pr show ?thesis by (auto simp: r add.assoc)
  next
    case 2
    show ?thesis
    proof (cases xs)
      case Nil
      with pr 2 show ?thesis by (auto simp: r)
    next
      case (Cons q ys)
      obtain b k where q: "q = (b, k)" by (cases q)
      have "v + n \<le> b"
      proof (rule ccontr)
        assume "\<not> v + n \<le> b"
        then have "b \<in> {v..<v + n} \<inter> freeset xs" using pr 2 by (auto simp: Cons q)
        then show False using pr(6) by auto
      qed
      with pr 2 show ?thesis by (auto simp: r Cons q intro: wf_runs_mono)
    qed
  next
    case 3
    with Cons.IH [of "a + m"] pr show ?thesis by (auto simp: r)
  qed
qed

lemma alloc_run_spec:
  assumes "wf_runs lo xs" and "0 < n" and "PAGE dvd n" and "alloc_run n xs = (p, ys)"
  shows "wf_runs lo ys \<and>
    (if p = 0 then ys = xs \<and> (\<forall>(a, m) \<in> set xs. m < n)
     else lo < p \<and> PAGE dvd p \<and> {p..<p + n} \<subseteq> freeset xs \<and>
       freeset ys = freeset xs - {p..<p + n})"
  using assms
proof (induction xs arbitrary: lo ys)
  case Nil
  then show ?case by simp
next
  case (Cons r xs)
  obtain a m where r: "r = (a, m)" by (cases r)
  note pr = Cons.prems [unfolded r]
  have up: "x \<in> freeset xs \<Longrightarrow> a + m < x" for x
    using pr(1) wf_runs_above [of "a + m" xs x] by simp
  then have sep: "\<forall>x \<in> freeset xs. \<not> x < a + m" by fastforce
  consider "m = n" | "n < m" | "m < n" by linarith
  then show ?case
  proof cases
    case 1
    with pr sep show ?thesis by (auto simp: r intro: wf_runs_mono)
  next
    case 2
    with pr have eqs: "p = a + (m - n)" "ys = (a, m - n) # xs" by auto
    have "PAGE dvd m - n" using pr by (auto intro: dvd_diff_nat)
    moreover from this have "PAGE dvd a + (m - n)" using pr by simp
    moreover have "wf_runs (a + (m - n)) xs" using pr wf_runs_mono [of "a + m" xs] 2 by auto
    ultimately show ?thesis using pr 2 sep by (auto simp: r eqs)
  next
    case 3
    with pr obtain zs where zs: "alloc_run n xs = (p, zs)" "ys = (a, m) # zs"
      by (auto split: prod.splits)
    from Cons.IH [OF _ pr(2,3) zs(1), of "a + m"] pr(1)
    have ih: "wf_runs (a + m) zs" "if p = 0 then zs = xs \<and> (\<forall>(a, m) \<in> set xs. m < n)
       else a + m < p \<and> PAGE dvd p \<and> {p..<p + n} \<subseteq> freeset xs \<and>
         freeset zs = freeset xs - {p..<p + n}" by auto
    with pr 3 show ?thesis by (auto simp: r zs(2) split: if_splits)
  qed
qed

section \<open>The loops refine the list functions\<close>

text \<open>
  What a loop that is at pointer \<open>rp\<close> may have changed: nothing below the bound \<open>lo\<close>
  but the pointer itself.
\<close>

definition loop_frame :: "rptr \<Rightarrow> nat \<Rightarrow> rheap \<Rightarrow> rheap \<Rightarrow> bool" where
  "loop_frame rp lo h h' \<longleftrightarrow>
     (\<forall>b < lo. rlen h' b = rlen h b \<and> (rp \<noteq> Next b \<longrightarrow> rnext h' b = rnext h b)) \<and>
     (rp \<noteq> Head \<longrightarrow> freelist h' = freelist h)"

lemma runs_rlen_upd: "\<forall>(b, n) \<in> set xs. b \<noteq> a \<Longrightarrow> runs (h\<lparr>rlen := (rlen h)(a := m)\<rparr>) c xs = runs h c xs"
  by (induction xs arbitrary: c) auto

lemma runs_rnext_upd: "\<forall>(b, n) \<in> set xs. b \<noteq> a \<Longrightarrow> runs (h\<lparr>rnext := (rnext h)(a := m)\<rparr>) c xs = runs h c xs"
  by (induction xs arbitrary: c) auto

lemma runs_hdr_upd: "\<forall>(b, n) \<in> set xs. b \<noteq> a \<Longrightarrow>
    runs (h\<lparr>rlen := (rlen h)(a := m), rnext := (rnext h)(a := k)\<rparr>) c xs = runs h c xs"
  by (induction xs arbitrary: c) auto

lemma runs_freelist_upd: "runs (h\<lparr>freelist := a\<rparr>) c xs = runs h c xs"
  by (induction xs arbitrary: c) auto

lemma wf_runs_notin: "wf_runs lo xs \<Longrightarrow> a \<le> lo \<Longrightarrow> \<forall>(b, n) \<in> set xs. b \<noteq> a"
  using wf_runs_start by fastforce

lemma runs_rset: "wf_runs lo xs \<Longrightarrow> (\<And>q. rp = Next q \<Longrightarrow> q < lo) \<Longrightarrow>
    runs (rset rp a h) c xs = runs h c xs"
  by (cases rp) (auto simp: runs_freelist_upd runs_rnext_upd [OF wf_runs_notin])

lemma rget_rset [simp]: "rget rp (rset rp a h) = a"
  by (cases rp) auto

lemma rlen_rset [simp]: "rlen (rset rp a h) = rlen h"
  by (cases rp) auto

lemma rget_frame:
  assumes "loop_frame (Next a) lo h h'" and "\<And>q. rp = Next q \<Longrightarrow> q < a \<and> q < lo"
  shows "rget rp h' = rget rp h"
  using assms by (cases rp) (auto simp: loop_frame_def)

lemma kalloc_loop_refines:
  assumes "runs h (rget rp h) xs" and "wf_runs lo xs" and "\<And>q. rp = Next q \<Longrightarrow> q < lo"
    and "0 < n" and "alloc_run n xs = (p, ys)"
  shows "\<exists>h'. kalloc_loop (int n) rp h = Some (p, h') \<and> runs h' (rget rp h') ys \<and>
           loop_frame rp lo h h'"
  using assms
proof (induction xs arbitrary: rp lo ys)
  case Nil
  then show ?case by (subst kalloc_loop.simps) (simp add: loop_frame_def)
next
  case (Cons r xs)
  obtain a m where r: "r = (a, m)" by (cases r)
  note pr = Cons.prems [unfolded r]
  have ra: "rget rp h = a" "a \<noteq> 0" "rlen h a = int m" "runs h (rnext h a) xs"
    using pr(1) by auto
  have wf: "wf_runs (a + m) xs" "lo < a" "0 < m" using pr(2) by auto
  have below: "q < a" if "rp = Next q" for q using pr(3) [OF that] wf(2) by simp
  consider "m = n" | "n < m" | "m < n" by linarith
  then show ?case
  proof cases
    case 1
    have "runs (rset rp (rnext h a) h) (rnext h a) xs"
      using ra wf below by (subst runs_rset [OF wf(1)]) auto
    moreover have "loop_frame rp lo h (rset rp (rnext h a) h)"
      by (cases rp) (auto simp: loop_frame_def)
    ultimately show ?thesis using 1 pr(5) ra
      by (subst kalloc_loop.simps) (simp add: Let_def)
  next
    case 2
    define h' where "h' = h\<lparr>rlen := (rlen h)(a := int m - int n)\<rparr>"
    have "runs h' (rnext h a) xs"
      unfolding h'_def using ra wf by (subst runs_rlen_upd [OF wf_runs_notin]) auto
    moreover have "rget rp h' = a" using ra by (cases rp) (auto simp: h'_def)
    moreover have "loop_frame rp lo h h'" using wf by (auto simp: loop_frame_def h'_def)
    moreover have "kalloc_loop (int n) rp h = Some (a + (m - n), h')"
      using 2 ra by (subst kalloc_loop.simps) (simp add: Let_def h'_def)
    ultimately show ?thesis using 2 pr(5) ra by (auto simp: h'_def)
  next
    case 3
    from 3 pr(5) obtain zs where zs: "alloc_run n xs = (p, zs)" "ys = (a, m) # zs"
      by (auto split: prod.splits)
    have "\<exists>h'. kalloc_loop (int n) (Next a) h = Some (p, h') \<and> runs h' (rget (Next a) h') zs \<and>
           loop_frame (Next a) (a + m) h h'"
      using ra wf pr(4) zs by (intro Cons.IH) auto
    then obtain h' where h': "kalloc_loop (int n) (Next a) h = Some (p, h')"
      "runs h' (rnext h' a) zs" "loop_frame (Next a) (a + m) h h'" by auto
    have "rget rp h' = rget rp h" by (rule rget_frame [OF h'(3)]) (auto dest: below)
    with ra(1) have "rget rp h' = a" by simp
    moreover have "rlen h' a = int m" using h'(3) ra(3) wf(3) by (simp add: loop_frame_def)
    moreover have "loop_frame rp lo h h'" using h'(3) wf by (auto simp: loop_frame_def)
    moreover have "kalloc_loop (int n) rp h = Some (p, h')"
      using 3 ra h'(1) by (subst kalloc_loop.simps) (simp add: Let_def)
    ultimately show ?thesis using h'(2) ra(2) zs(2) by auto
  qed
qed


lemma kfree_loop_refines:
  assumes "runs h (rget rp h) xs" and "wf_runs lo xs" and "\<And>q. rp = Next q \<Longrightarrow> q < lo"
    and "lo < v" and "0 < n" and "{v..<v + n} \<inter> freeset xs = {}"
  shows "\<exists>h'. kfree_loop v (int n) rp h = Some (Ok () h') \<and>
           runs h' (rget rp h') (free_run v n xs) \<and> loop_frame rp lo h h'"
  using assms
proof (induction xs arbitrary: rp lo)
  case Nil
  define h' where "h' = h\<lparr>rlen := (rlen h)(v := int n), rnext := (rnext h)(v := 0)\<rparr>"
  have "kfree_loop v (int n) rp h = Some (Ok () (rset rp v h'))"
    using Nil(1) by (subst kfree_loop.simps) (simp add: Let_def h'_def)
  moreover have "loop_frame rp lo h (rset rp v h')"
    using Nil(4) by (cases rp) (auto simp: loop_frame_def h'_def)
  moreover have "rnext (rset rp v h') v = 0"
    using Nil(3,4) by (cases rp) (auto simp: h'_def)
  ultimately show ?case using Nil(4) by (auto simp: h'_def)
next
  case (Cons r xs)
  obtain a m where r: "r = (a, m)" by (cases r)
  note pr = Cons.prems [unfolded r]
  have ra: "rget rp h = a" "a \<noteq> 0" "rlen h a = int m" "runs h (rnext h a) xs"
    using pr(1) by auto
  have wf: "wf_runs (a + m) xs" "lo < a" "0 < m" using pr(2) by auto
  have below: "q < a" "q < v" if "rp = Next q" for q using pr(3) [OF that] wf(2) pr(4) by auto
  have disj: "a + m \<le> v \<or> v + n \<le> a"
  proof (rule ccontr)
    assume "\<not> ?thesis"
    then have "max a v \<in> {v..<v + n} \<inter> freeset ((a, m) # xs)" using pr(1,5) wf(3)
      by (auto simp: max_def)
    with pr(6) show False by blast
  qed
  have vxs: "\<forall>(b, k) \<in> set xs. b \<noteq> v"
    using pr(5,6) wf_runs_start [OF wf(1)] by fastforce
  have axs: "\<forall>(b, k) \<in> set xs. b \<noteq> a" by (rule wf_runs_notin [OF wf(1)]) simp
  consider "v + n < a" | "v + n = a" | "a + m = v" | "a + m < v" using disj by linarith
  then show ?case
  proof cases
    case 1
    define h' where "h' = h\<lparr>rlen := (rlen h)(v := int n), rnext := (rnext h)(v := a)\<rparr>"
    have "kfree_loop v (int n) rp h = Some (Ok () (rset rp v h'))"
      using ra 1 by (subst kfree_loop.simps) (simp add: Let_def h'_def)
    moreover have "loop_frame rp lo h (rset rp v h')"
      using pr(4) by (cases rp) (auto simp: loop_frame_def h'_def)
    moreover have "rnext (rset rp v h') v = a" "rnext (rset rp v h') a = rnext h a"
      using below 1 pr(5) by (cases rp; auto simp: h'_def)+
    moreover have "runs (rset rp v h') (rnext h a) xs"
      using ra(4) vxs below(1) wf(1)
      by (subst runs_rset [OF wf(1)])
        (auto simp: h'_def runs_hdr_upd intro: less_trans trans_less_add1)
    ultimately show ?thesis using 1 ra pr(4,5) by (auto simp: r h'_def)
  next
    case 2
    define h' where "h' = h\<lparr>rlen := (rlen h)(v := int n + int m), rnext := (rnext h)(v := rnext h a)\<rparr>"
    have "kfree_loop v (int n) rp h = Some (Ok () (rset rp v h'))"
      using ra 2 pr(5) by (subst kfree_loop.simps) (auto simp: Let_def h'_def)
    moreover have "loop_frame rp lo h (rset rp v h')"
      using pr(4) by (cases rp) (auto simp: loop_frame_def h'_def)
    moreover have "rnext (rset rp v h') v = rnext h a"
      using below by (cases rp) (auto simp: h'_def)
    moreover have "runs (rset rp v h') (rnext h a) xs"
      using ra(4) vxs below(1) wf(1)
      by (subst runs_rset [OF wf(1)])
        (auto simp: h'_def runs_hdr_upd intro: less_trans trans_less_add1)
    ultimately show ?thesis using 2 ra pr(4,5) by (auto simp: r h'_def)
  next
    case 3
    define h1 where "h1 = h\<lparr>rlen := (rlen h)(a := int m + int n)\<rparr>"
    have r1: "runs h1 (rnext h a) xs"
      unfolding h1_def using ra(4) by (subst runs_rlen_upd [OF axs])
    have g1: "rget rp h1 = a" using ra(1) by (cases rp) (auto simp: h1_def)
    have f1: "loop_frame rp lo h h1" using wf(2) by (auto simp: loop_frame_def h1_def)
    show ?thesis
    proof (cases "rnext h a \<noteq> 0 \<and> rnext h a = v + n")
      case False
      have "kfree_loop v (int n) rp h = Some (Ok () h1)"
        using ra 3 pr(5) wf(3) False by (subst kfree_loop.simps) (auto simp: Let_def h1_def)
      moreover have "free_run v n (r # xs) = (a, m + n) # xs"
        using False ra(4) 3 pr(5) wf(3) by (auto simp: r split: list.splits)
      ultimately show ?thesis using r1 g1 f1 ra(2) by (auto simp: h1_def)
    next
      case True
      with ra(4) obtain k ys where xs: "xs = (v + n, k) # ys" by (cases xs) auto
      define h2 where "h2 = h1\<lparr>rlen := (rlen h1)(a := int m + int n + int k),
                             rnext := (rnext h1)(a := rnext h (v + n))\<rparr>"
      have k: "rlen h (v + n) = int k" "runs h (rnext h (v + n)) ys"
        using ra(4) xs by auto
      have ne: "v + n \<noteq> a" using 3 pr(5) by simp
      have "kfree_loop v (int n) rp h = Some (Ok () h2)"
        using ra 3 pr(5) wf(3) True k ne
        by (subst kfree_loop.simps) (auto simp: Let_def h1_def h2_def)
      moreover have "free_run v n (r # xs) = (a, m + n + k) # ys"
        using 3 pr(5) wf(3) by (simp add: r xs)
      moreover have "runs h2 (rnext h (v + n)) ys"
        using k(2) axs by (simp add: h2_def h1_def xs runs_hdr_upd)
      moreover have "rget rp h2 = a" using g1 below by (cases rp) (auto simp: h2_def)
      moreover have "loop_frame rp lo h h2" using f1 wf(2) by (auto simp: loop_frame_def h2_def h1_def)
      ultimately show ?thesis using ra(2) by (auto simp: h2_def)
    qed
  next
    case 4
    have "\<exists>h'. kfree_loop v (int n) (Next a) h = Some (Ok () h') \<and>
           runs h' (rget (Next a) h') (free_run v n xs) \<and> loop_frame (Next a) (a + m) h h'"
      using ra wf 4 pr(5,6) by (intro Cons.IH) auto
    then obtain h' where h': "kfree_loop v (int n) (Next a) h = Some (Ok () h')"
      "runs h' (rnext h' a) (free_run v n xs)" "loop_frame (Next a) (a + m) h h'" by auto
    have "rget rp h' = rget rp h" by (rule rget_frame [OF h'(3)]) (auto dest: below)
    with ra(1) have "rget rp h' = a" by simp
    moreover have "rlen h' a = int m" using h'(3) ra(3) wf(3) by (simp add: loop_frame_def)
    moreover have "loop_frame rp lo h h'" using h'(3) wf by (auto simp: loop_frame_def)
    moreover have "kfree_loop v (int n) rp h = Some (Ok () h')"
      using 4 ra wf(3) pr(5) h'(1) by (subst kfree_loop.simps) (auto simp: Let_def)
    moreover have "free_run v n (r # xs) = (a, m) # free_run v n xs"
      using 4 pr(5) by (auto simp: r)
    ultimately show ?thesis using h'(2) ra(2) by auto
  qed
qed

section \<open>The allocator\<close>

interpretation kheap_u: mach_upd "kheap_update f" for f
  by unfold_locales simp_all

interpretation phys_u: mach_upd "phys_update f" for f
  by unfold_locales simp_all

interpretation kheap_s: mach_sel kheap
  by unfold_locales simp_all

interpretation phys_s: mach_sel phys
  by unfold_locales simp_all

text \<open>A field that later components add is not changed by the allocator.\<close>

locale kmem_sel = mach_sel sel for sel :: "('z) kmem_scheme \<Rightarrow> 'b" +
  assumes ksel: "sel (kheap_update f s) = sel s" "sel (phys_update g s) = sel s"
begin

lemma sel_memset_phys [simp]: "sel (memset_phys v c n s) = sel s"
  by (simp add: memset_phys_def Let_def ksel)

lemma sel_kalloc: "kalloc n s = Ok p t \<Longrightarrow> sel t = sel s"
  by (auto simp: kalloc_def bindr_eq_Ok_iff ksel dest!: sel_acquire sel_release
      split: if_splits option.splits)

lemma sel_kfree: "kfree v n s = Ok x t \<Longrightarrow> sel t = sel s"
  by (auto simp: kfree_def bindr_eq_Ok_iff map_res_Ok ksel dest!: sel_acquire sel_release
      split: if_splits option.splits)

end

definition free_list :: "('z) kmem_scheme \<Rightarrow> (nat \<times> nat) list \<Rightarrow> bool" where
  "free_list s xs \<longleftrightarrow> runs (kheap s) (freelist (kheap s)) xs \<and> wf_runs 0 xs"

definition kmem_ok :: "('z) kmem_scheme \<Rightarrow> bool" where
  "kmem_ok s \<longleftrightarrow> is_free KmemLock s \<and> (\<exists>xs. free_list s xs)"

definition avail :: "('z) kmem_scheme \<Rightarrow> nat set" where
  "avail s = {a. \<exists>xs. free_list s xs \<and> a \<in> freeset xs}"

lemma runs_unique: "runs h a xs \<Longrightarrow> runs h a ys \<Longrightarrow> xs = ys"
proof (induction xs arbitrary: a ys)
  case Nil
  then show ?case by (cases ys) auto
next
  case (Cons r xs)
  then show ?case by (cases r; cases ys) auto
qed

lemma avail_eq: "free_list s xs \<Longrightarrow> avail s = freeset xs"
  by (auto simp: avail_def free_list_def dest: runs_unique)

lemma avail_cong: "kheap s = kheap t \<Longrightarrow> avail s = avail t"
  by (simp add: avail_def free_list_def)

lemma kmem_ok_cong: "kheap s = kheap t \<Longrightarrow> is_free KmemLock s = is_free KmemLock t \<Longrightarrow> kmem_ok s = kmem_ok t"
  by (simp add: kmem_ok_def free_list_def)

lemma free_list_through [simp]: "free_list (through l s) xs = free_list s xs"
  by (simp add: free_list_def)

lemma runs_cong: "\<forall>(b, k) \<in> set xs. rlen h' b = rlen h b \<and> rnext h' b = rnext h b \<Longrightarrow>
    runs h' a xs = runs h a xs"
  by (induction xs arbitrary: a) auto

lemma memset_phys_simps [simp]:
  "freelist (kheap (memset_phys v c n s)) = freelist (kheap s)"
  "is_free l (memset_phys v c n s) = is_free l s"
  by (simp_all add: memset_phys_def Let_def)

lemma through_memset_phys [simp]:
  "through l (memset_phys v c n s) = memset_phys v c n (through l s)"
  by (simp add: memset_phys_def Let_def cong: if_cong)

lemma free_list_memset:
  assumes "free_list s xs" and "{v..<v + n} \<inter> freeset xs = {}"
  shows "free_list (memset_phys v c n s) xs"
proof -
  have "\<forall>(b, k) \<in> set xs. b \<notin> {v..<v + n}"
    using assms wf_runs_start unfolding free_list_def by fastforce
  then have "runs (kheap (memset_phys v c n s)) a xs = runs (kheap s) a xs" for a
    by (intro runs_cong) (auto simp: memset_phys_def Let_def)
  with assms(1) show ?thesis by (simp add: free_list_def)
qed

lemma dvd_PAGE_int: "int n mod int PAGE = 0 \<longleftrightarrow> PAGE dvd n"
  by (metis dvd_imp_mod_0 mod_0_imp_dvd of_nat_dvd_iff)

lemma kalloc_ok:
  assumes "is_free KmemLock s" and "free_list s xs" and "0 < n" and "PAGE dvd n"
    and "alloc_run n xs = (p, ys)"
  shows "\<exists>h. kalloc (int n) s = Ok p ((through KmemLock s)\<lparr>kheap := h\<rparr>) \<and>
           free_list ((through KmemLock s)\<lparr>kheap := h\<rparr>) ys"
proof -
  obtain h where h: "kalloc_loop (int n) Head (kheap s) = Some (p, h)"
    "runs h (freelist h) ys"
    using kalloc_loop_refines [of "kheap s" Head xs 0 n p ys] assms by (auto simp: free_list_def)
  have "wf_runs 0 ys"
    using alloc_run_spec [of 0 xs n p ys] assms by (auto simp: free_list_def)
  moreover have "kalloc (int n) s = Ok p ((through KmemLock s)\<lparr>kheap := h\<rparr>)"
    using assms(1,3,4) h(1) dvd_PAGE_int [of n]
    by (simp add: kalloc_def acquire_free release_held held_lock_st through_def)
  ultimately show ?thesis using h(2) by (auto simp: free_list_def)
qed

lemma kfree_ok:
  assumes "is_free KmemLock s" and "free_list s xs" and "0 < n" and "PAGE dvd n"
    and "0 < v" and "PAGE dvd v" and "{v..<v + n} \<inter> freeset xs = {}"
  shows "\<exists>h. kfree v (int n) s = Ok () ((memset_phys v 1 n (through KmemLock s))\<lparr>kheap := h\<rparr>) \<and>
           free_list ((memset_phys v 1 n (through KmemLock s))\<lparr>kheap := h\<rparr>) (free_run v n xs)"
proof -
  let ?s = "memset_phys v 1 n s"
  have fl: "free_list ?s xs" using assms(2,7) by (rule free_list_memset)
  obtain h where h: "kfree_loop v (int n) Head (kheap ?s) = Some (Ok () h)"
    "runs h (freelist h) (free_run v n xs)"
    using kfree_loop_refines [of "kheap ?s" Head xs 0 v n] assms fl by (auto simp: free_list_def)
  have "wf_runs 0 (free_run v n xs)"
    using free_run_spec [of 0 xs v n] assms by (auto simp: free_list_def)
  moreover have "kfree v (int n) s = Ok () ((through KmemLock ?s)\<lparr>kheap := h\<rparr>)"
    using assms(1,3,4) h(1) dvd_PAGE_int [of n]
    by (simp add: kfree_def acquire_free release_held held_lock_st through_def)
  ultimately show ?thesis using h(2) by (auto simp: free_list_def)
qed

section \<open>What clients rely on\<close>

text \<open>
  A client asks for blocks and gives blocks back that it holds; \<open>own\<close> is what it
  holds, as pairs of address and length.
\<close>

datatype req = Get nat | Put addr

fun serve :: "(int \<Rightarrow> 's \<Rightarrow> (addr, 's) res) \<Rightarrow> (addr \<Rightarrow> int \<Rightarrow> 's \<Rightarrow> (unit, 's) res) \<Rightarrow>
    req list \<Rightarrow> (addr \<times> nat) list \<Rightarrow> 's \<Rightarrow> ((addr \<times> nat) list, 's) res" where
  "serve al fr [] own s = Ok own s"
| "serve al fr (Get n # rs) own s =
     bindr (al (int n) s) (\<lambda>p s. serve al fr rs (if p = 0 then own else (p, n) # own) s)"
| "serve al fr (Put p # rs) own s =
     (case map_of own p of
        None \<Rightarrow> serve al fr rs own s
      | Some n \<Rightarrow> bindr (fr p (int n) s) (\<lambda>_ s.
          serve al fr rs (filter (\<lambda>x. fst x \<noteq> p) own) s))"

definition req_ok :: "req \<Rightarrow> bool" where
  "req_ok r = (case r of Get n \<Rightarrow> 0 < n \<and> PAGE dvd n | Put p \<Rightarrow> True)"

text \<open>Blocks that are page aligned, whole pages long and pairwise disjoint.\<close>

definition blocks_ok :: "(addr \<times> nat) list \<Rightarrow> bool" where
  "blocks_ok own \<longleftrightarrow> distinct (map fst own) \<and>
     (\<forall>(p, n) \<in> set own. p \<noteq> 0 \<and> 0 < n \<and> PAGE dvd p \<and> PAGE dvd n) \<and>
     (\<forall>(p, n) \<in> set own. \<forall>(q, m) \<in> set own. p \<noteq> q \<longrightarrow> {p..<p + n} \<inter> {q..<q + m} = {})"

lemma freeset_mem: "(q, m) \<in> set own \<Longrightarrow> {q..<q + m} \<subseteq> freeset own"
  unfolding freeset_def by blast

lemma freeset_memE:
  assumes "x \<in> freeset own"
  obtains q m where "(q, m) \<in> set own" and "x \<in> {q..<q + m}"
  using assms unfolding freeset_def by blast

lemma blocks_okD:
  assumes "blocks_ok own" and "(p, n) \<in> set own"
  shows "p \<noteq> 0" "0 < n" "PAGE dvd p" "PAGE dvd n"
    and "(q, m) \<in> set own \<Longrightarrow> p \<noteq> q \<Longrightarrow> {p..<p + n} \<inter> {q..<q + m} = {}"
  using assms unfolding blocks_ok_def by (fast, fast, fast, fast, fast)

lemma blocks_ok_filter:
  assumes "blocks_ok own"
  shows "blocks_ok (filter P own)"
proof -
  have "distinct (map fst (filter P own))"
    using assms by (simp add: blocks_ok_def distinct_map_filter)
  moreover have "p \<noteq> 0 \<and> 0 < n \<and> PAGE dvd p \<and> PAGE dvd n" if "(p, n) \<in> set (filter P own)" for p n
    using that blocks_okD(1-4) [OF assms, of p n] by simp
  moreover have "{p..<p + n} \<inter> {q..<q + m} = {}"
    if "(p, n) \<in> set (filter P own)" "(q, m) \<in> set (filter P own)" "p \<noteq> q" for p n q m
    using that by (intro blocks_okD(5) [OF assms]) simp_all
  ultimately show ?thesis unfolding blocks_ok_def by blast
qed

locale page_allocator =
  fixes al :: "int \<Rightarrow> 's \<Rightarrow> (addr, 's) res"
    and fr :: "addr \<Rightarrow> int \<Rightarrow> 's \<Rightarrow> (unit, 's) res"
    and inv :: "'s \<Rightarrow> bool"
    and avl :: "'s \<Rightarrow> nat set"
  assumes al_law: "inv s \<Longrightarrow> 0 < n \<Longrightarrow> PAGE dvd n \<Longrightarrow>
      \<exists>p s'. al (int n) s = Ok p s' \<and> inv s' \<and>
        (if p = 0 then avl s' = avl s
         else PAGE dvd p \<and> {p..<p + n} \<subseteq> avl s \<and> avl s' = avl s - {p..<p + n})"
    and fr_law: "inv s \<Longrightarrow> 0 < n \<Longrightarrow> PAGE dvd n \<Longrightarrow> 0 < p \<Longrightarrow> PAGE dvd p \<Longrightarrow>
      {p..<p + n} \<inter> avl s = {} \<Longrightarrow>
      \<exists>s'. fr p (int n) s = Ok () s' \<and> inv s' \<and> avl s' = avl s \<union> {p..<p + n}"
begin

lemma blocks_ok_Cons:
  assumes "blocks_ok own" and "{p..<p + n} \<inter> freeset own = {}"
    and "p \<noteq> 0" "0 < n" "PAGE dvd p" "PAGE dvd n"
  shows "blocks_ok ((p, n) # own)"
proof -
  have disj: "{p..<p + n} \<inter> {q..<q + m} = {}" if "(q, m) \<in> set own" for q m
    using assms(2) freeset_mem [OF that] by blast
  have "p \<notin> fst ` set own"
  proof
    assume "p \<in> fst ` set own"
    then obtain m where m: "(p, m) \<in> set own" by auto
    then have "p \<in> {p..<p + n} \<inter> {p..<p + m}" using blocks_okD(2) [OF assms(1) m] assms(4) by simp
    with disj [OF m] show False by blast
  qed
  moreover have "distinct (map fst own)" using assms(1) by (simp add: blocks_ok_def)
  ultimately have dist: "distinct (map fst ((p, n) # own))" by simp
  have each: "\<forall>(q, m) \<in> set ((p, n) # own). q \<noteq> 0 \<and> 0 < m \<and> PAGE dvd q \<and> PAGE dvd m"
    using assms(3-6) blocks_okD [OF assms(1)] by auto
  have "{q..<q + m} \<inter> {r..<r + k} = {}"
    if "(q, m) \<in> set ((p, n) # own)" "(r, k) \<in> set ((p, n) # own)" "q \<noteq> r" for q m r k
    using that disj blocks_okD(5) [OF assms(1)]
    by (metis Int_commute Pair_inject set_ConsD)
  with dist each show ?thesis unfolding blocks_ok_def by blast
qed

lemma freeset_filter:
  assumes "blocks_ok own" and "map_of own p = Some n"
  shows "freeset (filter (\<lambda>x. fst x \<noteq> p) own) = freeset own - {p..<p + n}" (is "?l = ?r")
proof (intro equalityI subsetI)
  have mem: "(p, n) \<in> set own" using assms(2) by (rule map_of_SomeD)
  fix x
  { assume "x \<in> ?l"
    then obtain q m where q: "(q, m) \<in> set own" "p \<noteq> q" "x \<in> {q..<q + m}"
      by (elim freeset_memE) auto
    with blocks_okD(5) [OF assms(1) mem q(1,2)] freeset_mem [OF q(1)] show "x \<in> ?r" by blast }
  { assume x: "x \<in> ?r"
    then obtain q m where q: "(q, m) \<in> set own" "x \<in> {q..<q + m}" by (blast elim: freeset_memE)
    have "q \<noteq> p"
    proof
      assume "q = p"
      with q(1) mem assms(1) have "m = n"
        unfolding blocks_ok_def by (metis eq_key_imp_eq_value)
      with x q \<open>q = p\<close> show False by blast
    qed
    with q(1) have "(q, m) \<in> set (filter (\<lambda>x. fst x \<noteq> p) own)" by simp
    from freeset_mem [OF this] q(2) show "x \<in> ?l" by blast }
qed

lemma serve_ok:
  assumes "inv s" and "blocks_ok own" and "freeset own \<inter> avl s = {}"
    and "\<forall>r \<in> set rs. req_ok r"
  shows "\<exists>own' s'. serve al fr rs own s = Ok own' s' \<and> inv s' \<and> blocks_ok own' \<and>
    freeset own' \<inter> avl s' = {} \<and> freeset own' \<union> avl s' = freeset own \<union> avl s"
  using assms
proof (induction rs arbitrary: own s)
  case Nil
  then show ?case by simp
next
  case (Cons r rs)
  show ?case
  proof (cases r)
    case (Get n)
    with Cons.prems have n: "0 < n" "PAGE dvd n" by (auto simp: req_ok_def)
    obtain p s' where p: "al (int n) s = Ok p s'" "inv s'"
      "if p = 0 then avl s' = avl s
       else PAGE dvd p \<and> {p..<p + n} \<subseteq> avl s \<and> avl s' = avl s - {p..<p + n}"
      using al_law [OF Cons.prems(1) n] by (elim exE conjE)
    show ?thesis
    proof (cases "p = 0")
      case True
      with p(3) have "avl s' = avl s" by simp
      with Cons.IH [of s' own] Cons.prems p(1,2) Get True show ?thesis by simp
    next
      case False
      with p(3) have q: "PAGE dvd p" "{p..<p + n} \<subseteq> avl s" "avl s' = avl s - {p..<p + n}" by simp_all
      have "{p..<p + n} \<inter> freeset own = {}" using q(2) Cons.prems(3) by blast
      then have ok: "blocks_ok ((p, n) # own)"
        using Cons.prems(2) q(1) n False by (intro blocks_ok_Cons)
      have d: "freeset ((p, n) # own) \<inter> avl s' = {}"
        "freeset ((p, n) # own) \<union> avl s' = freeset own \<union> avl s"
        unfolding freeset_simps q(3) using q(2) Cons.prems(3) by blast+
      from Cons.IH [OF p(2) ok d(1)] Cons.prems(4) d(2) show ?thesis
        by (simp add: Get p(1) False)
    qed
  next
    case (Put p)
    show ?thesis
    proof (cases "map_of own p")
      case None
      with Put Cons show ?thesis by simp
    next
      case (Some n)
      let ?own = "filter (\<lambda>x. fst x \<noteq> p) own"
      have mem: "(p, n) \<in> set own" using Some by (rule map_of_SomeD)
      note ok = blocks_okD(1-4) [OF Cons.prems(2) mem]
      have sub: "{p..<p + n} \<subseteq> freeset own" by (rule freeset_mem [OF mem])
      with Cons.prems(3) have "{p..<p + n} \<inter> avl s = {}" by blast
      with fr_law [OF Cons.prems(1) ok(2,4) _ ok(3)] ok(1)
      obtain s' where s': "fr p (int n) s = Ok () s'" "inv s'" "avl s' = avl s \<union> {p..<p + n}"
        by blast
      have "blocks_ok ?own" by (rule blocks_ok_filter [OF Cons.prems(2)])
      moreover have d: "freeset ?own \<inter> avl s' = {}" "freeset ?own \<union> avl s' = freeset own \<union> avl s"
        unfolding freeset_filter [OF Cons.prems(2) Some] s'(3) using sub Cons.prems(3) by blast+
      ultimately show ?thesis using Cons.IH [OF s'(2) _ d(1)] Cons.prems(4) d(2)
        by (simp add: Put Some s'(1))
    qed
  qed
qed

end

text \<open>What the two operations change of a larger state.\<close>

lemma kalloc_frame:
  assumes "kmem_ok s" and "0 < n" and "PAGE dvd n"
  shows "\<exists>p h. kalloc (int n) s = Ok p ((through KmemLock s)\<lparr>kheap := h\<rparr>) \<and>
    kmem_ok ((through KmemLock s)\<lparr>kheap := h\<rparr>) \<and>
    (if p = 0 then avail ((through KmemLock s)\<lparr>kheap := h\<rparr>) = avail s \<and> (n = PAGE \<longrightarrow> avail s = {})
     else PAGE dvd p \<and> {p..<p + n} \<subseteq> avail s \<and>
       avail ((through KmemLock s)\<lparr>kheap := h\<rparr>) = avail s - {p..<p + n})"
proof -
  obtain xs where xs: "is_free KmemLock s" "free_list s xs" using assms(1) by (auto simp: kmem_ok_def)
  obtain p ys where py: "alloc_run n xs = (p, ys)" by (cases "alloc_run n xs")
  have wf: "wf_runs 0 xs" using xs by (simp add: free_list_def)
  obtain h where h: "kalloc (int n) s = Ok p ((through KmemLock s)\<lparr>kheap := h\<rparr>)"
    "free_list ((through KmemLock s)\<lparr>kheap := h\<rparr>) ys"
    using kalloc_ok [OF xs assms(2,3) py] by blast
  note spec = alloc_run_spec [OF wf assms(2,3) py]
  have "xs = []" if "p = 0" "n = PAGE" using spec that wf by (cases xs) (auto dest!: dvd_imp_le)
  moreover have "kmem_ok ((through KmemLock s)\<lparr>kheap := h\<rparr>)"
    using h(2) xs(1) by (auto simp: kmem_ok_def is_free_through)
  ultimately show ?thesis using h(1) spec
    by (intro exI [of _ p] exI [of _ h])
      (cases "p = 0", auto simp add: avail_eq [OF xs(2)] avail_eq [OF h(2)])
qed

lemma kfree_frame:
  assumes "kmem_ok s" and "0 < n" and "PAGE dvd n" and "0 < p" and "PAGE dvd p"
    and "{p..<p + n} \<inter> avail s = {}"
  shows "\<exists>h. kfree p (int n) s = Ok () ((memset_phys p 1 n (through KmemLock s))\<lparr>kheap := h\<rparr>) \<and>
    kmem_ok ((memset_phys p 1 n (through KmemLock s))\<lparr>kheap := h\<rparr>) \<and>
    avail ((memset_phys p 1 n (through KmemLock s))\<lparr>kheap := h\<rparr>) = avail s \<union> {p..<p + n}"
proof -
  obtain xs where xs: "is_free KmemLock s" "free_list s xs" using assms(1) by (auto simp: kmem_ok_def)
  have d: "{p..<p + n} \<inter> freeset xs = {}" using assms(6) avail_eq [OF xs(2)] by simp
  have wf: "wf_runs 0 xs" using xs by (simp add: free_list_def)
  obtain h where h: "kfree p (int n) s = Ok () ((memset_phys p 1 n (through KmemLock s))\<lparr>kheap := h\<rparr>)"
    "free_list ((memset_phys p 1 n (through KmemLock s))\<lparr>kheap := h\<rparr>) (free_run p n xs)"
    using kfree_ok [OF xs assms(2-5) d] by blast
  have "kmem_ok ((memset_phys p 1 n (through KmemLock s))\<lparr>kheap := h\<rparr>)"
    using h(2) xs(1) by (auto simp: kmem_ok_def is_free_through)
  with h(1) free_run_spec [OF wf assms(4,2,5,3) d] show ?thesis
    by (intro exI [of _ h]) (simp add: avail_eq [OF xs(2)] avail_eq [OF h(2)])
qed

interpretation kmem: page_allocator kalloc kfree kmem_ok avail
proof
  fix s :: "'z kmem_scheme" and n :: nat
  assume "kmem_ok s" "0 < n" "PAGE dvd n"
  from kalloc_frame [OF this] obtain p h where "kalloc (int n) s = Ok p ((through KmemLock s)\<lparr>kheap := h\<rparr>)"
    "kmem_ok ((through KmemLock s)\<lparr>kheap := h\<rparr>)"
    "if p = 0 then avail ((through KmemLock s)\<lparr>kheap := h\<rparr>) = avail s \<and> (n = PAGE \<longrightarrow> avail s = {})
     else PAGE dvd p \<and> {p..<p + n} \<subseteq> avail s \<and>
       avail ((through KmemLock s)\<lparr>kheap := h\<rparr>) = avail s - {p..<p + n}" by (elim exE conjE)
  then show "\<exists>p s'. kalloc (int n) s = Ok p s' \<and> kmem_ok s' \<and>
      (if p = 0 then avail s' = avail s
       else PAGE dvd p \<and> {p..<p + n} \<subseteq> avail s \<and> avail s' = avail s - {p..<p + n})"
    by (intro exI [of _ p] exI [of _ "(through KmemLock s)\<lparr>kheap := h\<rparr>"]) (cases "p = 0", simp_all)
next
  fix s :: "'z kmem_scheme" and n p :: nat
  assume "kmem_ok s" "0 < n" "PAGE dvd n" "0 < p" "PAGE dvd p" "{p..<p + n} \<inter> avail s = {}"
  from kfree_frame [OF this] show "\<exists>s'. kfree p (int n) s = Ok () s' \<and> kmem_ok s' \<and> avail s' = avail s \<union> {p..<p + n}"
    by blast
qed

section \<open>Properties\<close>

lemma runs_above: "runs h a xs \<Longrightarrow> wf_runs lo xs \<Longrightarrow> a \<noteq> 0 \<Longrightarrow> lo < a"
  by (cases xs) auto

text \<open>The scan of \<^verbatim>\<open>kfree\<close> reaches the run that holds the freed address and panics there,
  whether or not the header of that run has just been filled with junk.\<close>

lemma kfree_loop_double:
  assumes "runs h (rget rp h) xs" and "wf_runs lo xs" and "v \<in> freeset xs" and "0 < n"
    and "\<And>b. b \<noteq> v \<Longrightarrow> b < v \<Longrightarrow> rlen h' b = rlen h b \<and> rnext h' b = rnext h b"
    and "0 < rlen h' v" and "rget rp h' = rget rp h"
  shows "kfree_loop v (int n) rp h' = Some (Panic ''freeing free page'')"
  using assms(1-3,7)
proof (induction xs arbitrary: rp lo)
  case (Cons r xs)
  obtain a m where r: "r = (a, m)" by (cases r)
  note pr = Cons.prems [unfolded r]
  have ra: "rget rp h' = a" "a \<noteq> 0" "rlen h a = int m" "runs h (rnext h a) xs"
    and wf: "wf_runs (a + m) xs" "0 < m"
    using pr by auto
  show ?case
  proof (cases "v < a + m")
    case True
    have "a \<le> v"
      using pr(3) wf_runs_above [OF wf(1), of v] True by auto
    then have "int v < int a + rlen h' a"
      using True ra(3) assms(5) [of a] assms(6) by (cases "a = v") auto
    with \<open>a \<le> v\<close> ra show ?thesis by (subst kfree_loop.simps) (simp add: Let_def)
  next
    case False
    then have v: "v \<in> freeset xs" "a < v" "rlen h' a = int m" "rnext h' a = rnext h a"
      using pr(3) ra(3) wf(2) assms(5) [of a] by auto
    have "a + m < v" by (rule wf_runs_above [OF wf(1) v(1)])
    moreover have "kfree_loop v (int n) (Next a) h' = Some (Panic ''freeing free page'')"
      using Cons.IH [of "Next a" "a + m"] ra wf v by simp
    ultimately show ?thesis using ra v assms(4) by (subst kfree_loop.simps) (auto simp: Let_def)
  qed
qed simp

text \<open>The list of runs is determined by the set of free addresses.\<close>

lemma wf_runs_hd:
  assumes "wf_runs lo ((a, n) # xs)" and "x \<in> freeset ((a, n) # xs)"
  shows "a \<le> x"
  using assms wf_runs_above [of "a + n" xs x] by auto

lemma wf_runs_gap: "wf_runs lo ((a, n) # xs) \<Longrightarrow> a + n \<notin> freeset ((a, n) # xs)"
  using wf_runs_above [of "a + n" xs "a + n"] by auto

lemma wf_runs_unique:
  assumes "wf_runs lo xs" and "wf_runs lo' ys" and "freeset xs = freeset ys"
  shows "xs = ys"
  using assms
proof (induction xs arbitrary: lo lo' ys)
  case Nil
  then show ?case by (cases ys) auto
next
  case (Cons r xs)
  obtain a n where r: "r = (a, n)" by (cases r)
  note pr = Cons.prems [unfolded r]
  obtain q zs where ys: "ys = q # zs" using pr(1,3) by (cases ys) auto
  obtain b m where q: "q = (b, m)" by (cases q)
  note qr = pr(2,3) [unfolded ys q]
  have pos: "0 < n" "0 < m" using pr(1) qr(1) by auto
  have "a \<in> freeset ((a, n) # xs)" "b \<in> freeset ((b, m) # zs)" using pos by auto
  then have "b \<in> freeset ((a, n) # xs)" "a \<in> freeset ((b, m) # zs)"
    by (simp_all only: qr(2))
  then have ab: "a = b"
    by (intro le_antisym wf_runs_hd [OF pr(1)] wf_runs_hd [OF qr(1)])
  have "\<not> n < m"
  proof
    assume "n < m"
    then have "a + n \<in> freeset ((b, m) # zs)" using ab by simp
    then show False using wf_runs_gap [OF pr(1)] qr(2) by blast
  qed
  moreover have "\<not> m < n"
  proof
    assume "m < n"
    then have "b + m \<in> freeset ((a, n) # xs)" using ab by simp
    then show False using wf_runs_gap [OF qr(1)] qr(2) by blast
  qed
  ultimately have nm: "n = m" by simp
  have up: "x \<in> freeset xs \<Longrightarrow> x \<notin> {a..<a + n}" "x \<in> freeset zs \<Longrightarrow> x \<notin> {a..<a + n}" for x
    using wf_runs_above [of "a + n" xs x] wf_runs_above [of "a + n" zs x] pr(1) qr(1) ab nm by auto
  have "freeset xs = freeset zs"
  proof (rule set_eqI)
    fix x
    have "x \<in> {a..<a + n} \<union> freeset xs \<longleftrightarrow> x \<in> {a..<a + n} \<union> freeset zs"
      using qr(2) ab nm by simp
    with up [of x] show "x \<in> freeset xs \<longleftrightarrow> x \<in> freeset zs" by blast
  qed
  with Cons.IH [of "a + n" "a + n" zs] pr(1) qr(1) ab nm show ?case by (simp add: ys q r)
qed

lemma free_alloc_run:
  assumes "wf_runs 0 xs" and "0 < n" and "PAGE dvd n" and "alloc_run n xs = (p, ys)" and "p \<noteq> 0"
  shows "free_run p n ys = xs"
proof -
  from alloc_run_spec [OF assms(1-4)] assms(5)
  have ys: "wf_runs 0 ys" "PAGE dvd p" "{p..<p + n} \<subseteq> freeset xs" "freeset ys = freeset xs - {p..<p + n}"
    by (auto split: if_splits)
  then have "{p..<p + n} \<inter> freeset ys = {}" by blast
  from free_run_spec [OF ys(1) _ assms(2) ys(2) assms(3) this] assms(5)
  have "wf_runs 0 (free_run p n ys)" "freeset (free_run p n ys) = freeset ys \<union> {p..<p + n}" by simp_all
  with ys assms(1) show ?thesis by (intro wf_runs_unique) auto
qed

lemma alloc_run_big:
  assumes "wf_runs lo xs" and "alloc_run n xs = (p, ys)" and "p \<noteq> 0"
  shows "\<exists>(a, m) \<in> set xs. n \<le> m"
  using assms
proof (induction xs arbitrary: lo ys)
  case (Cons r xs)
  then show ?case by (cases r) (fastforce split: if_splits prod.splits)
qed simp

text \<open>A machine with one processor whose free list holds two runs.\<close>

definition kmem0 :: kmem where
  "kmem0 = mach.extend mach0
     \<lparr>kheap = \<lparr>freelist = 0x10000,
               rnext = (\<lambda>_. 0)(0x10000 := 0x20000),
               rlen = (\<lambda>_. 0)(0x10000 := 4096, 0x20000 := 3 * 4096)\<rparr>,
      phys = (\<lambda>_. 0)\<rparr>"

lemma kmem0_list: "free_list kmem0 [(0x10000, 4096), (0x20000, 12288)]"
  by (simp add: kmem0_def free_list_def mach.extend_def)

lemma kmem0_free: "is_free l kmem0"
  by (simp add: kmem0_def mach0_def is_free_def cpu_ok_def this_cpu_def cpu_id_def mach.extend_def)

lemma kmem0_ok: "kmem_ok kmem0"
  using kmem0_list kmem0_free by (auto simp: kmem_ok_def)

lemma kmem0_avail: "avail kmem0 = {0x10000..<0x11000} \<union> {0x20000..<0x23000}"
  by (simp add: avail_eq [OF kmem0_list])

text \<open>
  C2: memory safety of the allocator over whole histories.  A client that holds blocks
  disjoint from each other and from the free memory, and then makes any sequence of
  calls to \<^verbatim>\<open>kalloc\<close> for whole pages and calls to \<^verbatim>\<open>kfree\<close> on blocks it holds, always
  gets an answer (no panic, no endless loop); the blocks it holds at the end are page
  aligned, pairwise disjoint and disjoint from the free memory, and no byte has been
  lost or gained.
\<close>

theorem kalloc_kfree_histories:
  assumes "kmem_ok s" and "blocks_ok own" and "freeset own \<inter> avail s = {}"
    and "\<forall>r \<in> set rs. req_ok r"
  shows "\<exists>own' s'. serve kalloc kfree rs own s = Ok own' s' \<and> kmem_ok s' \<and> blocks_ok own' \<and>
    freeset own' \<inter> avail s' = {} \<and> freeset own' \<union> avail s' = freeset own \<union> avail s"
  using assms by (rule kmem.serve_ok)

theorem kalloc_kfree_histories_witness:
  "\<exists>own' s'. serve kalloc kfree [Get 4096, Get 8192, Put 0x10000, Get 4096] [] kmem0 = Ok own' s' \<and>
     kmem_ok s' \<and> blocks_ok own' \<and> freeset own' \<inter> avail s' = {} \<and>
     freeset own' \<union> avail s' = {0x10000..<0x11000} \<union> {0x20000..<0x23000}"
  using kalloc_kfree_histories [OF kmem0_ok, of "[]" "[Get 4096, Get 8192, Put 0x10000, Get 4096]"]
  by (simp add: blocks_ok_def req_ok_def kmem0_avail)

text \<open>
  C8: \<^verbatim>\<open>kfree\<close> of a page-aligned block that is not free returns with the block in the
  free list: the list is again sorted by address with no two runs touching, it covers
  exactly the old free addresses and the block, the block is filled with the junk byte
  1 behind the room for its run header, and no byte outside the free memory changes.
\<close>

theorem kfree_correct:
  assumes "is_free KmemLock s" and "free_list s xs" and "0 < n" and "PAGE dvd n"
    and "0 < v" and "PAGE dvd v" and "{v..<v + n} \<inter> freeset xs = {}"
  shows "\<exists>s'. kfree v (int n) s = Ok () s' \<and> free_list s' (free_run v n xs) \<and>
    wf_runs 0 (free_run v n xs) \<and> freeset (free_run v n xs) = freeset xs \<union> {v..<v + n} \<and>
    is_free KmemLock s' \<and> (\<forall>a. v + 8 \<le> a \<and> a < v + n \<longrightarrow> phys s' a = 1) \<and>
    (\<forall>a. a \<notin> freeset (free_run v n xs) \<longrightarrow> phys s' a = phys s a)"
proof -
  obtain h where "kfree v (int n) s = Ok () ((memset_phys v 1 n (through KmemLock s))\<lparr>kheap := h\<rparr>)"
    "free_list ((memset_phys v 1 n (through KmemLock s))\<lparr>kheap := h\<rparr>) (free_run v n xs)"
    using kfree_ok [OF assms] by blast
  moreover have "phys ((memset_phys v 1 n (through KmemLock s))\<lparr>kheap := h\<rparr>) =
      (\<lambda>a. if a \<in> {v..<v + n} then 1 else phys s a)"
    by (auto simp: memset_phys_def Let_def)
  ultimately show ?thesis
    using free_run_spec [of 0 xs v n] assms by (auto simp: free_list_def is_free_through)
qed

theorem kfree_correct_witness:
  "\<exists>s'. kfree 0x11000 (int (15 * 4096)) kmem0 = Ok () s' \<and> free_list s' [(0x10000, 19 * 4096)] \<and>
    phys s' 0x11008 = 1 \<and> phys s' 0x23000 = phys kmem0 0x23000"
  using kfree_correct [OF kmem0_free kmem0_list, of "15 * 4096" "0x11000"] by (force simp: freeset_def)

text \<open>
  C9: \<^verbatim>\<open>kalloc\<close> of \<open>n\<close> bytes, a positive multiple of the page size, returns.  It returns
  0, and leaves the free list as it was, exactly when every free run is shorter than
  \<open>n\<close>; otherwise it returns a page-aligned block that was free, and exactly that block
  has left the free list, which is still sorted and coalesced.  No byte of memory is
  written.
\<close>

theorem kalloc_correct:
  assumes "is_free KmemLock s" and "free_list s xs" and "0 < n" and "PAGE dvd n"
  shows "\<exists>p s' ys. kalloc (int n) s = Ok p s' \<and> free_list s' ys \<and> is_free KmemLock s' \<and>
    phys s' = phys s \<and> (p = 0 \<longleftrightarrow> (\<forall>(a, m) \<in> set xs. m < n)) \<and>
    (if p = 0 then ys = xs
     else PAGE dvd p \<and> {p..<p + n} \<subseteq> freeset xs \<and> freeset ys = freeset xs - {p..<p + n})"
proof -
  obtain p ys where py: "alloc_run n xs = (p, ys)" by (cases "alloc_run n xs")
  obtain h where h: "kalloc (int n) s = Ok p ((through KmemLock s)\<lparr>kheap := h\<rparr>)"
    "free_list ((through KmemLock s)\<lparr>kheap := h\<rparr>) ys"
    using kalloc_ok [OF assms py] by blast
  have wf: "wf_runs 0 xs" using assms(2) by (simp add: free_list_def)
  have "p = 0 \<longleftrightarrow> (\<forall>(a, m) \<in> set xs. m < n)"
    using alloc_run_big [OF wf py] alloc_run_spec [OF wf assms(3,4) py] by (cases "p = 0") fastforce+
  with h alloc_run_spec [OF wf assms(3,4) py] assms(1) show ?thesis
    by (auto simp: is_free_through split: if_splits)
qed

theorem kalloc_correct_witness:
  "\<exists>p s' ys. kalloc (int 8192) kmem0 = Ok p s' \<and> free_list s' ys \<and> p \<noteq> 0 \<and> 4096 dvd p \<and>
     {p..<p + 8192} \<subseteq> {0x10000..<0x11000} \<union> {0x20000..<0x23000}"
  using kalloc_correct [OF kmem0_free kmem0_list, of 8192] by auto

text \<open>
  C18: freeing a block whose first byte is already free is always caught:
  \<^verbatim>\<open>kfree\<close> panics with \<^verbatim>\<open>freeing free page\<close>, also when the block starts at the header of a
  free run, which the junk fill has destroyed by then.
\<close>

theorem kfree_double_free_panics:
  assumes "is_free KmemLock s" and "free_list s xs" and "0 < n" and "PAGE dvd n"
    and "v \<in> freeset xs"
  shows "kfree v (int n) s = Panic ''freeing free page''"
proof -
  let ?h = "kheap (memset_phys v 1 n s)"
  have "kfree_loop v (int n) Head ?h = Some (Panic ''freeing free page'')"
    using assms by (intro kfree_loop_double [of "kheap s" Head xs 0])
      (auto simp: free_list_def memset_phys_def Let_def)
  with assms(1,3,4) dvd_PAGE_int [of n] show ?thesis
    by (simp add: kfree_def acquire_free)
qed

theorem kfree_double_free_panics_witness:
  "kfree 0x20000 (int 8192) kmem0 = Panic ''freeing free page''"
  by (rule kfree_double_free_panics [OF kmem0_free kmem0_list]) simp_all

text \<open>
  C17: allocating a block and freeing it again gives back the very same free list, with
  the same runs in the same order: splitting a run in \<^verbatim>\<open>kalloc\<close> is undone by the
  merging in \<^verbatim>\<open>kfree\<close>.
\<close>

theorem kalloc_kfree_roundtrip:
  assumes "is_free KmemLock s" and "free_list s xs" and "0 < n" and "PAGE dvd n"
    and "\<exists>(a, m) \<in> set xs. n \<le> m"
  shows "\<exists>s'. bindr (kalloc (int n) s) (\<lambda>p s. kfree p (int n) s) = Ok () s' \<and> free_list s' xs"
proof -
  obtain p ys where py: "alloc_run n xs = (p, ys)" by (cases "alloc_run n xs")
  obtain h where h: "kalloc (int n) s = Ok p ((through KmemLock s)\<lparr>kheap := h\<rparr>)"
    "free_list ((through KmemLock s)\<lparr>kheap := h\<rparr>) ys"
    using kalloc_ok [OF assms(1-4) py] by blast
  have wf: "wf_runs 0 xs" using assms(2) by (simp add: free_list_def)
  have spec: "PAGE dvd p" "freeset ys = freeset xs - {p..<p + n}" "p \<noteq> 0"
    using alloc_run_spec [OF wf assms(3,4) py] assms(5) by (auto split: if_splits)
  then have "{p..<p + n} \<inter> freeset ys = {}" by blast
  then obtain h' where "kfree p (int n) ((through KmemLock s)\<lparr>kheap := h\<rparr>) =
      Ok () ((memset_phys p 1 n (through KmemLock ((through KmemLock s)\<lparr>kheap := h\<rparr>)))\<lparr>kheap := h'\<rparr>)"
    "free_list ((memset_phys p 1 n (through KmemLock ((through KmemLock s)\<lparr>kheap := h\<rparr>)))\<lparr>kheap := h'\<rparr>)
      (free_run p n ys)"
    using kfree_ok [OF _ h(2) assms(3,4) _ spec(1)] assms(1) spec(3) by (auto simp: is_free_through)
  with h(1) free_alloc_run [OF wf assms(3,4) py spec(3)] show ?thesis by auto
qed

theorem kalloc_kfree_roundtrip_witness:
  "\<exists>s'. bindr (kalloc (int 8192) kmem0) (\<lambda>p s. kfree p (int 8192) s) = Ok () s' \<and>
     free_list s' [(0x10000, 4096), (0x20000, 12288)]"
  by (rule kalloc_kfree_roundtrip [OF kmem0_free kmem0_list]) simp_all

lemma unat_lt: "unat (w :: u32) < 4294967296"
proof -
  have "unat w < 2 ^ LENGTH(32)" by (rule unsigned_less)
  then show ?thesis by simp
qed

lemma unat_page_down: "unat ((w :: u32) AND NOT 4095) = 4096 * (unat w div 4096)"
proof -
  have m: "(4095 :: u32) = mask 12" by (simp add: mask_eq_exp_minus_1)
  have "w AND NOT 4095 = push_bit 12 (drop_bit 12 w)" unfolding m
    by (intro bit_word_eqI) (auto simp: bit_simps)
  also have "\<dots> = 4096 * drop_bit 12 w" by (simp add: push_bit_eq_mult)
  finally have "unat (w AND NOT 4095) = (4096 * (unat w div 4096)) mod 2 ^ 32"
    by (simp add: unat_word_ariths unat_drop_bit_eq drop_bit_eq_div mod_simps)
  moreover have "4096 * (unat w div 4096) < 2 ^ 32"
    using unat_lt [of w] by simp
  ultimately show ?thesis by simp
qed

text \<open>
  C19: \<^verbatim>\<open>kinit\<close>, run with interrupts consistent and a zeroed list head, returns and leaves
  an allocator in its invariant whose only free run is the megabyte that starts at
  the first page boundary above the kernel image: page aligned, above \<^verbatim>\<open>end\<close> and at
  most a page above it.
\<close>

theorem kinit_correct:
  assumes "cpu_ok s" and "freelist (kheap s) = 0" and "unat end_sym + 4096 < 2 ^ 32"
  shows "\<exists>s' start. kinit end_sym s = Ok () s' \<and> kmem_ok s' \<and> free_list s' [(start, 0x100000)] \<and>
    PAGE dvd start \<and> unat end_sym < start \<and> start \<le> unat end_sym + 4096"
proof -
  define start where "start = 4096 * ((unat end_sym + 4096) div 4096)"
  let ?s = "initlock KmemLock ''kmem'' s"
  have free: "is_free KmemLock ?s" using assms(1) by (simp add: initlock_def is_free_def cpu_ok_def)
  have fl: "free_list ?s []" using assms(2) by (simp add: initlock_def free_list_def)
  have "unat (end_sym + 4096) = unat end_sym + 4096"
    using assms(3) by (simp add: unat_word_ariths)
  then have st: "unat ((end_sym + 4096) AND NOT (4096 - 1)) = start"
    using unat_page_down [of "end_sym + 4096"] by (simp add: start_def)
  have bounds: "unat end_sym < start" "start \<le> unat end_sym + 4096" "PAGE dvd start"
    using minus_mod_eq_mult_div [of "unat end_sym + 4096" 4096]
      mod_less_divisor [of 4096 "unat end_sym + 4096"] unfolding start_def by (linarith, linarith, simp)
  obtain h where h: "kfree start (int 0x100000) ?s =
      Ok () ((memset_phys start 1 0x100000 (through KmemLock ?s))\<lparr>kheap := h\<rparr>)"
    "free_list ((memset_phys start 1 0x100000 (through KmemLock ?s))\<lparr>kheap := h\<rparr>) [(start, 0x100000)]"
    using kfree_ok [OF free fl, where n = "0x100000" and v = start] bounds by auto
  have "kinit end_sym s = kfree start (int 0x100000) ?s"
    using st by (simp add: kinit_def Let_def)
  with h bounds free show ?thesis
    by (intro exI [of _ "(memset_phys start 1 0x100000 (through KmemLock ?s))\<lparr>kheap := h\<rparr>"] exI [of _ start])
      (auto simp: kmem_ok_def is_free_through)
qed

theorem kinit_correct_witness:
  "\<exists>s' start. kinit 0x10a5d8 (kmem0\<lparr>kheap := (kheap kmem0)\<lparr>freelist := 0\<rparr>\<rparr>) = Ok () s' \<and>
     kmem_ok s' \<and> free_list s' [(start, 0x100000)] \<and> 0x10a5d8 < start \<and> start \<le> 0x10b5d8"
proof -
  have "cpu_ok (kmem0\<lparr>kheap := (kheap kmem0)\<lparr>freelist := 0\<rparr>\<rparr>)"
    using kmem0_free [of KmemLock] by (simp add: is_free_def)
  from kinit_correct [OF this, where end_sym = "0x10a5d8"] show ?thesis by auto
qed

text \<open>A stretch of the linked list, from one pointer to another.\<close>

fun seg :: "rheap \<Rightarrow> addr \<Rightarrow> (nat \<times> nat) list \<Rightarrow> addr \<Rightarrow> bool" where
  "seg h a [] b \<longleftrightarrow> a = b"
| "seg h a ((c, n) # xs) b \<longleftrightarrow> a = c \<and> c \<noteq> 0 \<and> rlen h c = int n \<and> seg h (rnext h c) xs b"

lemma runs_append: "runs h a (xs @ ys) \<longleftrightarrow> (\<exists>b. seg h a xs b \<and> runs h b ys)"
  by (induction xs arbitrary: a) auto

lemma seg_append: "seg h a (xs @ ys) c \<longleftrightarrow> (\<exists>b. seg h a xs b \<and> seg h b ys c)"
  by (induction xs arbitrary: a) auto

lemma seg_cong: "\<forall>(b, k) \<in> set xs. rlen h' b = rlen h b \<and> rnext h' b = rnext h b \<Longrightarrow> seg h' a xs c = seg h a xs c"
  by (induction xs arbitrary: a) auto

lemma seg_runs: "seg h a xs b \<Longrightarrow> runs h a zs \<Longrightarrow> \<exists>ys. zs = xs @ ys"
proof (induction xs arbitrary: a zs)
  case (Cons x xs)
  then show ?case by (cases x; cases zs) auto
qed simp

lemma wf_runs_appendD: "wf_runs lo (xs @ ys) \<Longrightarrow> \<exists>lo'. wf_runs lo' ys"
  by (induction lo xs rule: wf_runs.induct) auto

lemma kfree_loop_overlap:
  assumes "seg h (rget rp h) xs b" and "\<forall>(a, k) \<in> set xs. a + k < v" and "v < b" and "b < v + n"
    and "rlen h b = int w" and "rnext h b = w" and "v + n < w"
  shows "kfree_loop v (int n) rp h = Some (Ok () (rset (Next b) v
    (h\<lparr>rlen := (rlen h)(v := int n), rnext := (rnext h)(v := w)\<rparr>)))"
  using assms(1,2)
proof (induction xs arbitrary: rp)
  case Nil
  have "kfree_loop v (int n) rp h = kfree_loop v (int n) (Next b) h"
    using Nil assms(3-7) by (subst kfree_loop.simps) (simp add: Let_def)
  also have "\<dots> = Some (Ok () (rset (Next b) v (h\<lparr>rlen := (rlen h)(v := int n), rnext := (rnext h)(v := w)\<rparr>)))"
    using assms(3-7) by (subst kfree_loop.simps) (simp add: Let_def)
  finally show ?case .
next
  case (Cons x xs)
  obtain a k where x: "x = (a, k)" by fastforce
  have "kfree_loop v (int n) rp h = kfree_loop v (int n) (Next a) h"
    using Cons.prems x by (subst kfree_loop.simps) (simp add: Let_def)
  with Cons.IH [of "Next a"] Cons.prems x show ?case by simp
qed



end
