(* ===== verification/Mmu.thy ===== *)
theory Mmu
  imports Prelude
begin

text \<open>
  Segment and gate descriptors of \<^verbatim>\<open>src/mmu.h\<close>, with every bit field at its width, and
  the two addresses the processor computes from them: the base and the last offset
  of a segment, and the entry point of a gate.
\<close>

section \<open>Descriptors\<close>

record segdesc =
  lim_15_0 :: u16
  base_15_0 :: u16
  base_23_16 :: u8
  seg_type :: "4 word"
  seg_s :: "1 word"
  seg_dpl :: "2 word"
  seg_p :: "1 word"
  lim_19_16 :: "4 word"
  avl :: "1 word"
  rsv1 :: "1 word"
  db :: "1 word"
  seg_g :: "1 word"
  base_31_24 :: u8

definition SEG_NULL :: segdesc where
  "SEG_NULL = \<lparr>lim_15_0 = 0, base_15_0 = 0, base_23_16 = 0, seg_type = 0, seg_s = 0, seg_dpl = 0,
     seg_p = 0, lim_19_16 = 0, avl = 0, rsv1 = 0, db = 0, seg_g = 0, base_31_24 = 0\<rparr>"

definition SEG :: "4 word \<Rightarrow> u32 \<Rightarrow> u32 \<Rightarrow> 2 word \<Rightarrow> segdesc" where
  "SEG t bs lim d = \<lparr>lim_15_0 = ucast (drop_bit 12 lim AND 0xffff), base_15_0 = ucast (bs AND 0xffff),
     base_23_16 = ucast (drop_bit 16 bs AND 0xff), seg_type = t, seg_s = 1, seg_dpl = d,
     seg_p = 1, lim_19_16 = ucast (drop_bit 28 lim), avl = 0, rsv1 = 0, db = 1, seg_g = 1,
     base_31_24 = ucast (drop_bit 24 bs)\<rparr>"

definition SEG16 :: "4 word \<Rightarrow> u32 \<Rightarrow> u32 \<Rightarrow> 2 word \<Rightarrow> segdesc" where
  "SEG16 t bs lim d = \<lparr>lim_15_0 = ucast (lim AND 0xffff), base_15_0 = ucast (bs AND 0xffff),
     base_23_16 = ucast (drop_bit 16 bs AND 0xff), seg_type = t, seg_s = 1, seg_dpl = d,
     seg_p = 1, lim_19_16 = ucast (drop_bit 16 lim), avl = 0, rsv1 = 0, db = 1, seg_g = 0,
     base_31_24 = ucast (drop_bit 24 bs)\<rparr>"

definition DPL_USER :: "2 word" where "DPL_USER = 3"
definition STA_X :: "4 word" where "STA_X = 8"
definition STA_W :: "4 word" where "STA_W = 2"
definition STA_R :: "4 word" where "STA_R = 2"
definition STS_T32A :: "4 word" where "STS_T32A = 9"
definition STS_IG32 :: "4 word" where "STS_IG32 = 0xe"
definition STS_TG32 :: "4 word" where "STS_TG32 = 0xf"

record gatedesc =
  off_15_0 :: u16
  gate_cs :: u16
  gate_args :: "5 word"
  gate_rsv1 :: "3 word"
  gate_type :: "4 word"
  gate_s :: "1 word"
  gate_dpl :: "2 word"
  gate_p :: "1 word"
  off_31_16 :: u16

text \<open>\<^verbatim>\<open>SETGATE\<close> assigns every field, so the old contents do not matter.\<close>

definition SETGATE :: "bool \<Rightarrow> u16 \<Rightarrow> u32 \<Rightarrow> 2 word \<Rightarrow> gatedesc" where
  "SETGATE istrap sel off d = \<lparr>off_15_0 = ucast (off AND 0xffff), gate_cs = sel, gate_args = 0,
     gate_rsv1 = 0, gate_type = (if istrap then STS_TG32 else STS_IG32), gate_s = 0, gate_dpl = d,
     gate_p = 1, off_31_16 = ucast (drop_bit 16 off)\<rparr>"

section \<open>What the processor reads\<close>

definition seg_base :: "segdesc \<Rightarrow> u32" where
  "seg_base d = ucast (base_15_0 d) OR push_bit 16 (ucast (base_23_16 d))
     OR push_bit 24 (ucast (base_31_24 d))"

text \<open>The last offset of the segment: the limit field, in units of 4096 bytes when the
  granularity bit is set.\<close>

definition seg_limit :: "segdesc \<Rightarrow> u32" where
  "seg_limit d =
     (let l = ucast (lim_15_0 d) OR push_bit 16 (ucast (lim_19_16 d))
      in if seg_g d = 1 then push_bit 12 l OR 0xfff else l)"

definition gate_off :: "gatedesc \<Rightarrow> u32" where
  "gate_off g = ucast (off_15_0 g) OR push_bit 16 (ucast (off_31_16 g))"

lemma mask_consts: "(0xffff :: u32) = mask 16" "(0xff :: u32) = mask 8" "(0xfff :: u32) = mask 12"
  by (simp_all add: mask_eq_exp_minus_1)

lemma u32_eqI_split:
  fixes a b :: u32
  assumes "\<And>n. n < 32 \<Longrightarrow> n < k \<Longrightarrow> bit a n = bit b n"
    and "\<And>n. n < 32 \<Longrightarrow> k \<le> n \<Longrightarrow> bit a n = bit b n"
  shows "a = b"
proof (rule bit_word_eqI)
  fix n
  assume "n < LENGTH(32)"
  then have "n < 32" by simp
  then show "bit a n = bit b n" using assms by (cases "n < k") auto
qed

lemma seg_base_SEG: "seg_base (SEG t bs lim d) = bs"
  unfolding seg_base_def SEG_def mask_consts
  by (rule u32_eqI_split [of 24]) (auto simp: bit_simps)

lemma seg_base_SEG16: "seg_base (SEG16 t bs lim d) = bs"
  unfolding seg_base_def SEG16_def mask_consts
  by (rule u32_eqI_split [of 24]) (auto simp: bit_simps)

lemma seg_limit_SEG: "seg_limit (SEG t bs lim d) = lim OR 0xfff"
  unfolding seg_limit_def SEG_def mask_consts Let_def
  by (rule u32_eqI_split [of 28]) (auto simp: bit_simps)

lemma gate_off_SETGATE: "gate_off (SETGATE istrap sel off d) = off"
  unfolding gate_off_def SETGATE_def mask_consts
  by (rule u32_eqI_split [of 16]) (auto simp: bit_simps)

text \<open>For a segment of a whole number of pages the limit is exact.\<close>

lemma or_mask_id: "take_bit n w = mask n \<Longrightarrow> w OR mask n = w" for w :: u32
  by (rule bit_word_eqI) (metis bit_or_iff bit_take_bit_iff)

lemma seg_limit_pages:
  assumes "4096 dvd unat sz" and "sz \<noteq> 0"
  shows "seg_limit (SEG t bs (sz - 1) d) = sz - 1"
proof -
  obtain k where k: "unat sz = 4096 * k" using assms(1) by (auto elim: dvdE)
  have "unat sz \<noteq> 0" using assms(2) by (simp add: unsigned_eq_0_iff)
  with k have "k \<noteq> 0" by (cases k) auto
  then obtain j where "k = Suc j" by (cases k) auto
  moreover have "unat (sz - 1) = unat sz - 1" using assms(2) by (simp add: unat_minus_one)
  ultimately have "unat (sz - 1) = 4095 + 4096 * j" using k by simp
  then have "unat (sz - 1) mod 4096 = 4095" by simp
  then have "unat (take_bit 12 (sz - 1)) = unat (mask 12 :: u32)"
    by (simp only: unsigned_take_bit_eq) (simp add: take_bit_eq_mod mask_eq_exp_minus_1)
  then have "take_bit 12 (sz - 1) = mask 12" by (simp only: word_unat_eq_iff)
  then show ?thesis by (simp add: seg_limit_SEG mask_consts or_mask_id)
qed

end
