(* ===== verification/Cstring.thy ===== *)
theory Cstring
  imports Prelude
begin

text \<open>
  The C string and memory routines of the kernel, \<^verbatim>\<open>src/string.c\<close>, and of the user
  library, \<^verbatim>\<open>src/ulib.c\<close>.  Memory is a function from addresses to bytes.  Loops over a
  count are recursions on the count; loops that run until a NUL byte are partial
  functions, shown to return on every NUL-terminated string.
\<close>

type_synonym mem = "addr \<Rightarrow> u8"

section \<open>The kernel's routines\<close>

text \<open>The string instruction \<^verbatim>\<open>rep stosb\<close> of \<^verbatim>\<open>src/x86.h\<close>.\<close>

fun stosb :: "addr \<Rightarrow> u8 \<Rightarrow> nat \<Rightarrow> mem \<Rightarrow> mem" where
  "stosb a c 0 m = m"
| "stosb a c (Suc n) m = stosb (a + 1) c n (m(a := c))"

definition memset :: "addr \<Rightarrow> int \<Rightarrow> nat \<Rightarrow> mem \<Rightarrow> addr \<times> mem" where
  "memset dst c n m = (dst, stosb dst (word_of_int c) n m)"

fun memcmp :: "mem \<Rightarrow> addr \<Rightarrow> addr \<Rightarrow> nat \<Rightarrow> int" where
  "memcmp m s1 s2 0 = 0"
| "memcmp m s1 s2 (Suc n) =
     (if m s1 \<noteq> m s2 then uint (m s1) - uint (m s2) else memcmp m (s1 + 1) (s2 + 1) n)"

text \<open>The two loops of \<^verbatim>\<open>memmove\<close>: from the start upwards, and from the end downwards.\<close>

fun copy_up :: "addr \<Rightarrow> addr \<Rightarrow> nat \<Rightarrow> mem \<Rightarrow> mem" where
  "copy_up d s 0 m = m"
| "copy_up d s (Suc n) m = copy_up (d + 1) (s + 1) n (m(d := m s))"

fun copy_down :: "addr \<Rightarrow> addr \<Rightarrow> nat \<Rightarrow> mem \<Rightarrow> mem" where
  "copy_down d s 0 m = m"
| "copy_down d s (Suc n) m = copy_down (d - 1) (s - 1) n (m(d - 1 := m (s - 1)))"

definition memmove :: "addr \<Rightarrow> addr \<Rightarrow> nat \<Rightarrow> mem \<Rightarrow> addr \<times> mem" where
  "memmove dst src n m =
     (if src < dst \<and> src + n > dst then (dst, copy_down (dst + n) (src + n) n m)
      else (dst, copy_up dst src n m))"

fun strncmp :: "mem \<Rightarrow> addr \<Rightarrow> addr \<Rightarrow> nat \<Rightarrow> int" where
  "strncmp m p q 0 = 0"
| "strncmp m p q (Suc n) =
     (if m p \<noteq> 0 \<and> m p = m q then strncmp m (p + 1) (q + 1) n else uint (m p) - uint (m q))"

text \<open>
  \<^verbatim>\<open>strncpy\<close>: the first loop copies up to and including a NUL byte, the second one pads
  with NUL bytes.  A count that is not positive copies nothing.
\<close>

fun strncpy_loop :: "addr \<Rightarrow> addr \<Rightarrow> nat \<Rightarrow> mem \<Rightarrow> mem" where
  "strncpy_loop s t 0 m = m"
| "strncpy_loop s t (Suc n) m =
     (let m = m(s := m t) in
      if m s \<noteq> 0 then strncpy_loop (s + 1) (t + 1) n m else stosb (s + 1) 0 n m)"

definition strncpy :: "addr \<Rightarrow> addr \<Rightarrow> int \<Rightarrow> mem \<Rightarrow> addr \<times> mem" where
  "strncpy s t n m = (s, strncpy_loop s t (nat n) m)"

fun safestrcpy_loop :: "addr \<Rightarrow> addr \<Rightarrow> nat \<Rightarrow> mem \<Rightarrow> mem" where
  "safestrcpy_loop s t 0 m = m(s := 0)"
| "safestrcpy_loop s t (Suc n) m =
     (let m = m(s := m t) in
      if m s \<noteq> 0 then safestrcpy_loop (s + 1) (t + 1) n m else m(s + 1 := 0))"

definition safestrcpy :: "addr \<Rightarrow> addr \<Rightarrow> int \<Rightarrow> mem \<Rightarrow> addr \<times> mem" where
  "safestrcpy s t n m =
     (if n \<le> 0 then (s, m) else (s, safestrcpy_loop s t (nat (n - 1)) m))"

partial_function (option) strlen_from :: "mem \<Rightarrow> addr \<Rightarrow> nat \<Rightarrow> nat option" where
  "strlen_from m s n = (if m (s + n) \<noteq> 0 then strlen_from m s (n + 1) else Some n)"

definition strlen :: "mem \<Rightarrow> addr \<Rightarrow> nat option" where
  "strlen m s = strlen_from m s 0"

section \<open>The user library\<close>

partial_function (option) strcpy_loop :: "addr \<Rightarrow> addr \<Rightarrow> mem \<Rightarrow> mem option" where
  "strcpy_loop s t m =
     (let m = m(s := m t) in if m s \<noteq> 0 then strcpy_loop (s + 1) (t + 1) m else Some m)"

definition strcpy :: "addr \<Rightarrow> addr \<Rightarrow> mem \<Rightarrow> (addr \<times> mem) option" where
  "strcpy s t m = map_option (\<lambda>m'. (s, m')) (strcpy_loop s t m)"

partial_function (option) strcmp :: "mem \<Rightarrow> addr \<Rightarrow> addr \<Rightarrow> int option" where
  "strcmp m p q =
     (if m p \<noteq> 0 \<and> m p = m q then strcmp m (p + 1) (q + 1)
      else Some (uint (m p) - uint (m q)))"

partial_function (option) strchr :: "mem \<Rightarrow> addr \<Rightarrow> u8 \<Rightarrow> addr option" where
  "strchr m s c =
     (if m s \<noteq> 0 then (if m s = c then Some s else strchr m (s + 1) c) else Some 0)"

text \<open>\<^verbatim>\<open>atoi\<close>: digits are the bytes 48 to 57.\<close>

partial_function (option) atoi_loop :: "mem \<Rightarrow> addr \<Rightarrow> int \<Rightarrow> int option" where
  "atoi_loop m s n =
     (if 48 \<le> m s \<and> m s \<le> 57 then atoi_loop m (s + 1) (n * 10 + uint (m s) - 48) else Some n)"

definition atoi :: "mem \<Rightarrow> addr \<Rightarrow> int option" where
  "atoi m s = atoi_loop m s 0"

function ulib_copy :: "addr \<Rightarrow> addr \<Rightarrow> int \<Rightarrow> mem \<Rightarrow> mem" where
  "ulib_copy d s n m = (if n > 0 then ulib_copy (d + 1) (s + 1) (n - 1) (m(d := m s)) else m)"
  by pat_completeness auto
termination by (relation "measure (\<lambda>(d, s, n, m). nat n)") auto

declare ulib_copy.simps [simp del]

definition ulib_memmove :: "addr \<Rightarrow> addr \<Rightarrow> int \<Rightarrow> mem \<Rightarrow> addr \<times> mem" where
  "ulib_memmove vdst vsrc n m = (vdst, ulib_copy vdst vsrc n m)"

text \<open>
  \<^verbatim>\<open>gets\<close> reads file descriptor 0 a byte at a time; the argument is the sequence of
  bytes that the reads will deliver, and the rest of it is returned.  A read on the
  empty sequence returns 0 or an error, both of which end the loop.
\<close>

fun gets_loop :: "addr \<Rightarrow> int \<Rightarrow> nat \<Rightarrow> u8 list \<Rightarrow> mem \<Rightarrow> nat \<times> u8 list \<times> mem" where
  "gets_loop buf mx i [] m = (i, [], m)"
| "gets_loop buf mx i (c # cs) m =
     (if int i + 1 < mx then
        (let m = m(buf + i := c) in
         if c = 10 \<or> c = 13 then (i + 1, cs, m) else gets_loop buf mx (i + 1) cs m)
      else (i, c # cs, m))"

definition gets :: "addr \<Rightarrow> int \<Rightarrow> u8 list \<Rightarrow> mem \<Rightarrow> addr \<times> u8 list \<times> mem" where
  "gets buf mx inp m =
     (let (i, rest, m) = gets_loop buf mx 0 inp m in (buf, rest, m(buf + i := 0)))"

section \<open>Copying and filling\<close>

text \<open>The contents of a region, and the memory after a region has been filled with a list.\<close>

definition bytes :: "mem \<Rightarrow> addr \<Rightarrow> nat \<Rightarrow> u8 list" where
  "bytes m a n = map m [a..<a + n]"

definition put :: "addr \<Rightarrow> u8 list \<Rightarrow> mem \<Rightarrow> mem" where
  "put a xs m = (\<lambda>b. if a \<le> b \<and> b < a + length xs then xs ! (b - a) else m b)"

lemma length_bytes [simp]: "length (bytes m a n) = n"
  by (simp add: bytes_def)

lemma bytes_nth [simp]: "i < n \<Longrightarrow> bytes m a n ! i = m (a + i)"
  by (simp add: bytes_def)

lemma bytes_0 [simp]: "bytes m a 0 = []"
  by (simp add: bytes_def)

lemma bytes_Suc: "bytes m a (Suc n) = m a # bytes m (a + 1) n"
  by (simp add: bytes_def upt_rec [of a] del: upt_Suc)

lemma bytes_snoc: "bytes m a (Suc n) = bytes m a n @ [m (a + n)]"
  by (simp add: bytes_def)

lemma put_Nil [simp]: "put a [] m = m"
  by (rule ext) (auto simp: put_def)

lemma put_Cons: "put a (x # xs) m = put (a + 1) xs (m(a := x))"
  by (rule ext) (auto simp: put_def nth_Cons')

lemma put_apply: "put a xs m b = (if a \<le> b \<and> b < a + length xs then xs ! (b - a) else m b)"
  by (simp add: put_def)

lemma bytes_put: "bytes (put a xs m) a (length xs) = xs"
  by (rule nth_equalityI) (auto simp: put_def)

lemma put_append: "put (a + length xs) ys (put a xs m) = put a (xs @ ys) m"
  by (rule ext) (auto simp: put_def nth_append)

lemma bytes_cong: "(\<And>b. a \<le> b \<Longrightarrow> b < a + n \<Longrightarrow> m' b = m b) \<Longrightarrow> bytes m' a n = bytes m a n"
  by (auto simp: bytes_def)

lemma stosb_put: "stosb a c n m = put a (replicate n c) m"
  by (induction n arbitrary: a m) (simp_all add: put_Cons)

lemma copy_up_put:
  assumes "d \<le> s \<or> s + n \<le> d"
  shows "copy_up d s n m = put d (bytes m s n) m"
  using assms
proof (induction n arbitrary: d s m)
  case 0
  then show ?case by (simp add: bytes_def)
next
  case (Suc n)
  have "bytes (m(d := m s)) (s + 1) n = bytes m (s + 1) n"
    using Suc.prems by (auto simp: bytes_def)
  with Suc.IH [of "d + 1" "s + 1"] Suc.prems show ?case by (auto simp: put_Cons bytes_Suc)
qed

lemma copy_down_put:
  assumes "s \<le> d"
  shows "copy_down (d + n) (s + n) n m = put d (bytes m s n) m"
proof (induction n arbitrary: m)
  case 0
  then show ?case by (simp add: bytes_def)
next
  case (Suc n)
  let ?m = "m(d + n := m (s + n))"
  have "copy_down (d + Suc n) (s + Suc n) (Suc n) m = copy_down (d + n) (s + n) n ?m" by simp
  also have "\<dots> = put d (bytes ?m s n) ?m" by (rule Suc)
  also have "bytes ?m s n = bytes m s n" using assms by (auto simp: bytes_def)
  also have "put d (bytes m s n) ?m = put d (bytes m s (Suc n)) m"
    by (rule ext) (auto simp: put_def less_Suc_eq bytes_snoc nth_append)
  finally show ?case .
qed

lemma memset_put: "memset dst c n m = (dst, put dst (replicate n (word_of_int c)) m)"
  by (simp add: memset_def stosb_put)

lemma memmove_put: "memmove dst src n m = (dst, put dst (bytes m src n) m)"
proof (cases "src < dst \<and> src + n > dst")
  case True
  then show ?thesis by (simp add: memmove_def copy_down_put)
next
  case False
  then show ?thesis by (auto simp: memmove_def intro!: copy_up_put)
qed

text \<open>
  C26: \<^verbatim>\<open>memmove\<close> of the kernel copies correctly for all positions of source and
  destination, overlapping or not: afterwards the destination holds the bytes that
  were at the source before the call, every other byte is unchanged, and the result is
  the destination.
\<close>

theorem memmove_correct: "memmove dst src n m = (dst, put dst (bytes m src n) m)"
  by (rule memmove_put)

lemma ulib_copy_up: "ulib_copy d s n m = copy_up d s (nat n) m"
proof (induction d s n m rule: ulib_copy.induct)
  case (1 d s n m)
  show ?case
  proof (cases "n > 0")
    case True
    then have "nat n = Suc (nat (n - 1))" by simp
    with 1 [OF True] True show ?thesis by (subst ulib_copy.simps) (simp add: fun_upd_def)
  qed (subst ulib_copy.simps, simp)
qed

lemma copy_up_overlap:
  assumes "0 < d"
  shows "copy_up (s + d) s n m = put (s + d) (map (\<lambda>i. m (s + i mod d)) [0..<n]) m"
proof (induction n arbitrary: s m)
  case (Suc n)
  let ?m = "m(s + d := m s)"
  have "?m (s + 1 + i mod d) = m (s + Suc i mod d)" for i
    using assms mod_less_divisor [of d i] by (auto simp: mod_Suc)
  then have "copy_up (s + d) s (Suc n) m = put (s + d + 1) (map (\<lambda>i. m (s + Suc i mod d)) [0..<n]) ?m"
    using Suc [of "s + 1" ?m] by (simp add: add.commute add.left_commute fun_upd_def)
  also have "\<dots> = put (s + d) (m s # map (\<lambda>i. m (s + Suc i mod d)) [0..<n]) m"
    by (simp add: put_Cons fun_upd_def)
  also have "m s # map (\<lambda>i. m (s + Suc i mod d)) [0..<n] = map (\<lambda>i. m (s + i mod d)) [0..<Suc n]"
    unfolding upt_conv_Cons [OF zero_less_Suc] map_Suc_upt [symmetric] by (simp add: comp_def)
  finally show ?case .
qed simp

text \<open>
  C27: what the user library's \<^verbatim>\<open>memmove\<close> does, for all positions of the regions.  It returns the
  destination, changes no byte outside the destination region, and copies nothing for a
  negative count.  Where the destination does not lie behind the start of the source within the
  source region, it copies correctly.  With the destination \<open>d\<close> bytes behind the source it
  fills the destination with copies of the first \<open>d\<close> bytes of the source, so that it agrees
  with the kernel's \<^verbatim>\<open>memmove\<close> only if the regions do not overlap or the source was
  periodic already.
\<close>

theorem ulib_memmove_correct:
  "(vdst \<le> vsrc \<or> int vsrc + n \<le> int vdst \<longrightarrow>
      ulib_memmove vdst vsrc n m = (vdst, put vdst (bytes m vsrc (nat n)) m)) \<and>
   (0 < d \<longrightarrow> ulib_memmove (vsrc + d) vsrc n m =
        (vsrc + d, put (vsrc + d) (map (\<lambda>i. m (vsrc + i mod d)) [0..<nat n]) m) \<and>
      (ulib_memmove (vsrc + d) vsrc n m = memmove (vsrc + d) vsrc (nat n) m \<longleftrightarrow>
        (\<forall>i < nat n. m (vsrc + i mod d) = m (vsrc + i))))"
proof (intro conjI impI)
  assume "vdst \<le> vsrc \<or> int vsrc + n \<le> int vdst"
  then have "vdst \<le> vsrc \<or> vsrc + nat n \<le> vdst" by linarith
  then show "ulib_memmove vdst vsrc n m = (vdst, put vdst (bytes m vsrc (nat n)) m)"
    by (simp add: ulib_memmove_def ulib_copy_up copy_up_put)
next
  assume d: "0 < d"
  let ?xs = "map (\<lambda>i. m (vsrc + i mod d)) [0..<nat n]" and ?ys = "bytes m vsrc (nat n)"
  show u: "ulib_memmove (vsrc + d) vsrc n m = (vsrc + d, put (vsrc + d) ?xs m)"
    using d by (simp add: ulib_memmove_def ulib_copy_up copy_up_overlap)
  have "put (vsrc + d) ?xs m = put (vsrc + d) ?ys m \<longleftrightarrow> ?xs = ?ys"
    using bytes_put [of "vsrc + d" ?xs m] bytes_put [of "vsrc + d" ?ys m]
    by (metis length_bytes length_map length_upt minus_nat.diff_0)
  moreover have "?xs = ?ys \<longleftrightarrow> (\<forall>i < nat n. m (vsrc + i mod d) = m (vsrc + i))"
    by (auto simp: bytes_def list_eq_iff_nth_eq)
  ultimately show "ulib_memmove (vsrc + d) vsrc n m = memmove (vsrc + d) vsrc (nat n) m \<longleftrightarrow>
      (\<forall>i < nat n. m (vsrc + i mod d) = m (vsrc + i))"
    by (simp add: u memmove_put)
qed

theorem ulib_memmove_correct_witness:
  "ulib_memmove 4 6 5 (\<lambda>a. of_nat a) = (4, put 4 [6, 7, 8, 9, 10] (\<lambda>a. of_nat a)) \<and>
   ulib_memmove 12 10 5 (\<lambda>a. of_nat a) = (12, put 12 [10, 11, 10, 11, 10] (\<lambda>a. of_nat a)) \<and>
   ulib_memmove 12 10 5 (\<lambda>a. of_nat a) \<noteq> memmove 12 10 5 (\<lambda>a. of_nat a)"
proof -
  have "bytes (\<lambda>a. of_nat a) 6 (nat 5) = [6, 7, 8, 9, 10 :: u8]" by (simp add: bytes_def upt_rec)
  moreover have "map (\<lambda>i. of_nat (10 + i mod 2)) [0..<5] = [10, 11, 10, 11, 10 :: u8]" by (simp add: upt_rec)
  moreover have "\<not> (\<forall>i < 5. (of_nat (10 + i mod 2) :: u8) = of_nat (10 + i))"
    by (auto intro!: exI [of _ 2])
  ultimately show ?thesis
    using ulib_memmove_correct [of 4 6 5 "\<lambda>a. of_nat a" 1] ulib_memmove_correct [of 4 10 5 "\<lambda>a. of_nat a" 2] by auto
qed

section \<open>NUL-terminated strings\<close>

text \<open>The string \<open>xs\<close>, without NUL bytes, stands at address \<open>p\<close> and is followed by a NUL.\<close>

fun cstr :: "mem \<Rightarrow> addr \<Rightarrow> u8 list \<Rightarrow> bool" where
  "cstr m p [] \<longleftrightarrow> m p = 0"
| "cstr m p (x # xs) \<longleftrightarrow> m p = x \<and> x \<noteq> 0 \<and> cstr m (p + 1) xs"

lemma cstr_cong:
  "(\<And>b. p \<le> b \<Longrightarrow> b \<le> p + length xs \<Longrightarrow> m' b = m b) \<Longrightarrow> cstr m' p xs = cstr m p xs"
  by (induction xs arbitrary: p) auto

lemma cstr_append: "cstr m p (xs @ ys) \<longleftrightarrow> 0 \<notin> set xs \<and> bytes m p (length xs) = xs \<and> cstr m (p + length xs) ys"
  by (induction xs arbitrary: p) (auto simp: bytes_Suc)

lemma strlen_from_cstr: "cstr m (s + n) xs \<Longrightarrow> strlen_from m s n = Some (n + length xs)"
proof (induction xs arbitrary: n)
  case Nil
  then show ?case by (subst strlen_from.simps) simp
next
  case (Cons x xs)
  then show ?case using Cons.IH [of "n + 1"] by (subst strlen_from.simps) simp
qed

lemma u8_uint:
  fixes a b :: u8
  shows "uint a = uint b \<longleftrightarrow> a = b" and "uint a < uint b \<longleftrightarrow> a < b"
    and "uint a = 0 \<longleftrightarrow> a = 0" and "0 < uint a \<longleftrightarrow> a \<noteq> 0"
  by (auto simp: word_less_def word_uint_eq_iff order_less_le)

text \<open>
  C28: \<^verbatim>\<open>strncmp\<close> on two NUL-terminated strings compares their first \<open>n\<close> bytes as C orders
  strings: the result is zero exactly when these prefixes are equal, and negative
  exactly when the first is before the second in the lexicographic order of unsigned
  bytes.
\<close>

theorem strncmp_correct:
  assumes "cstr m p xs" and "cstr m q ys"
  shows "(strncmp m p q n = 0 \<longleftrightarrow> take n xs = take n ys) \<and>
    (strncmp m p q n < 0 \<longleftrightarrow> ord_class.lexordp (take n xs) (take n ys))"
  using assms
proof (induction n arbitrary: p q xs ys)
  case 0
  then show ?case by simp
next
  case (Suc n)
  then show ?case
    by (cases xs; cases ys) (auto simp: u8_uint)
qed

theorem strncmp_correct_witness:
  "let m = put 10 [97, 98, 99, 0] (put 20 [97, 98, 200, 0] (\<lambda>_. 7)) in
   strncmp m 10 20 2 = 0 \<and> strncmp m 10 20 3 < 0"
proof -
  let ?m = "put 10 [97, 98, 99, 0] (put 20 [97, 98, 200, 0] (\<lambda>_. 7))"
  have c: "cstr ?m 10 [97, 98, 99]" "cstr ?m 20 [97, 98, 200]" by (simp_all add: put_def)
  from strncmp_correct [OF c, of 2] strncmp_correct [OF c, of 3] show ?thesis
    by (simp add: Let_def)
qed

lemma safestrcpy_loop_cstr:
  assumes "cstr m t xs" and "{s..s + k} \<inter> {t..t + length xs} = {}"
  shows "cstr (safestrcpy_loop s t k m) s (take k xs) \<and>
    (\<forall>b. b \<notin> {s..s + k} \<longrightarrow> safestrcpy_loop s t k m b = m b)"
  using assms
proof (induction k arbitrary: s t m xs)
  case 0
  then show ?case by simp
next
  case (Suc k)
  show ?case
  proof (cases xs)
    case Nil
    with Suc.prems show ?thesis by (simp add: Let_def)
  next
    case (Cons x ys)
    let ?m = "m(s := m t)"
    have x: "m t = x" "x \<noteq> 0" "cstr m (t + 1) ys" using Suc.prems(1) Cons by auto
    have away: "s \<notin> {t..t + length xs}" using Suc.prems(2) by auto
    then have "cstr ?m (t + 1) ys"
      using x(3) Cons by (subst cstr_cong [of _ _ _ m]) auto
    moreover have "{s + 1..s + 1 + k} \<inter> {t + 1..t + 1 + length ys} = {}"
      using Suc.prems(2) Cons by fastforce
    ultimately have ih: "cstr (safestrcpy_loop (s + 1) (t + 1) k ?m) (s + 1) (take k ys)"
      "b \<notin> {s + 1..s + 1 + k} \<Longrightarrow> safestrcpy_loop (s + 1) (t + 1) k ?m b = ?m b" for b
      using Suc.IH [of ?m "t + 1" ys "s + 1"] by blast+
    from ih(2) [of s] have "safestrcpy_loop (s + 1) (t + 1) k ?m s = x" using x by simp
    with ih x Cons show ?thesis by (auto simp: Let_def)
  qed
qed

text \<open>
  C29: \<^verbatim>\<open>safestrcpy\<close> into a buffer of \<open>n > 0\<close> bytes that does not overlap the source
  always leaves a NUL-terminated string there, the first \<open>n - 1\<close> bytes of the source
  string, and writes no byte outside the buffer.
\<close>

theorem safestrcpy_correct:
  assumes "cstr m t xs" and "0 < n" and "{s..<s + n} \<inter> {t..t + length xs} = {}"
  shows "\<exists>m'. safestrcpy s t (int n) m = (s, m') \<and> cstr m' s (take (n - 1) xs) \<and>
    (\<forall>b. b \<notin> {s..<s + n} \<longrightarrow> m' b = m b)"
proof -
  have eq: "{s..s + (n - 1)} = {s..<s + n}" using assms(2) by auto
  from safestrcpy_loop_cstr [of m t xs s "n - 1"] assms(1,3) have
    "cstr (safestrcpy_loop s t (n - 1) m) s (take (n - 1) xs)"
    "\<forall>b. b \<notin> {s..<s + n} \<longrightarrow> safestrcpy_loop s t (n - 1) m b = m b"
    unfolding eq by blast+
  moreover have "nat (int n - 1) = n - 1" using assms(2) by simp
  ultimately show ?thesis using assms(2) by (auto simp: safestrcpy_def)
qed

theorem safestrcpy_correct_witness:
  "\<exists>m'. safestrcpy 40 10 (int 3) (put 10 [104, 101, 108, 108, 111, 0] (\<lambda>_. 7)) = (40, m') \<and>
     cstr m' 40 [104, 101] \<and> m' 43 = 7"
proof -
  let ?m = "put 10 [104, 101, 108, 108, 111, 0] (\<lambda>_. 7)"
  have "cstr ?m 10 [104, 101, 108, 108, 111]" by (simp add: put_def)
  moreover have "{40..<40 + 3} \<inter> {10..10 + length [104, 101, 108, 108, 111 :: u8]} = {}" by auto
  ultimately obtain m' where m': "safestrcpy 40 10 (int 3) ?m = (40, m')"
    "cstr m' 40 (take (3 - 1) [104, 101, 108, 108, 111])" "\<forall>b. b \<notin> {40..<40 + 3} \<longrightarrow> m' b = ?m b"
    using safestrcpy_correct [of ?m 10 "[104, 101, 108, 108, 111]" 3 40] by auto
  from m'(3) have "m' 43 = 7" by (simp add: put_def)
  with m'(1,2) show ?thesis by simp
qed

lemma strlen_cstr: "cstr m s xs \<Longrightarrow> strlen m s = Some (length xs)"
  by (simp add: strlen_def strlen_from_cstr)

text \<open>On NUL-terminated strings \<^verbatim>\<open>strcmp\<close> returns, and it is \<^verbatim>\<open>strncmp\<close> with a bound that is
  never reached.\<close>

lemma strcmp_strncmp:
  "cstr m p xs \<Longrightarrow> length xs < n \<Longrightarrow> strcmp m p q = Some (strncmp m p q n)"
proof (induction xs arbitrary: p q n)
  case Nil
  then show ?case by (cases n; subst strcmp.simps) simp_all
next
  case (Cons x xs)
  then show ?case by (cases n; subst strcmp.simps) auto
qed

lemma strchr_cstr:
  "cstr m s xs \<Longrightarrow> strchr m s c = Some (case first_index (\<lambda>x. x = c) xs of None \<Rightarrow> 0 | Some i \<Rightarrow> s + i)"
proof (induction xs arbitrary: s)
  case Nil
  then show ?case by (subst strchr.simps) simp
next
  case (Cons x xs)
  then show ?case by (subst strchr.simps) (auto split: option.splits)
qed

lemma strcpy_loop_cstr:
  assumes "cstr m t xs" and "{s..s + length xs} \<inter> {t..t + length xs} = {}"
  shows "strcpy_loop s t m = Some (put s (xs @ [0]) m)"
  using assms
proof (induction xs arbitrary: s t m)
  case Nil
  then show ?case by (subst strcpy_loop.simps) (simp add: Let_def put_Cons)
next
  case (Cons x xs)
  have "s \<notin> {t..t + length (x # xs)}" using Cons.prems(2) by auto
  then have "cstr (m(s := x)) (t + 1) xs"
    using Cons.prems(1) by (subst cstr_cong [of _ _ _ m]) auto
  moreover have "{s + 1..s + 1 + length xs} \<inter> {t + 1..t + 1 + length xs} = {}"
    using Cons.prems(2) by fastforce
  ultimately have "strcpy_loop (s + 1) (t + 1) (m(s := x)) = Some (put (s + 1) (xs @ [0]) (m(s := x)))"
    by (rule Cons.IH)
  with Cons.prems(1) show ?case
    by (subst strcpy_loop.simps) (simp add: Let_def put_Cons)
qed

lemma strncpy_loop_cstr:
  assumes "cstr m t xs" and "{s..<s + n} \<inter> {t..t + length xs} = {}"
  shows "strncpy_loop s t n m = put s (take n (xs @ replicate n 0)) m"
  using assms
proof (induction n arbitrary: s t m xs)
  case (Suc n)
  show ?case
  proof (cases xs)
    case Nil
    with Suc.prems show ?thesis by (simp add: Let_def put_Cons stosb_put)
  next
    case (Cons x ys)
    let ?m = "m(s := m t)"
    have x: "m t = x" "x \<noteq> 0" "cstr m (t + 1) ys" using Suc.prems(1) Cons by auto
    have "s \<in> {s..<s + Suc n}" by simp
    with Suc.prems(2) have "s \<notin> {t..t + length xs}" by blast
    then have "cstr ?m (t + 1) ys" using x(3) Cons by (subst cstr_cong [of _ _ _ m]) auto
    moreover have "{s + 1..<s + 1 + n} \<subseteq> {s..<s + Suc n}"
      "{t + 1..t + 1 + length ys} \<subseteq> {t..t + length xs}" using Cons by auto
    with Suc.prems(2) have "{s + 1..<s + 1 + n} \<inter> {t + 1..t + 1 + length ys} = {}" by blast
    ultimately have "strncpy_loop (s + 1) (t + 1) n ?m = put (s + 1) (take n (ys @ replicate n 0)) ?m"
      by (rule Suc.IH)
    moreover have "take n (ys @ 0 # replicate n 0) = take n (ys @ replicate n (0 :: u8))"
      unfolding replicate_Suc [symmetric] by (simp del: replicate_Suc)
    ultimately show ?thesis using x Cons by (simp add: Let_def put_Cons del: take_append)
  qed
qed simp

text \<open>
  C30: \<^verbatim>\<open>strncpy\<close> with a buffer that does not overlap the source fills exactly the \<open>n\<close> bytes
  of the buffer: with the string, cut at \<open>n\<close> bytes, and NUL bytes up to the end.
\<close>

theorem strncpy_correct:
  assumes "cstr m t xs" and "{s..<s + n} \<inter> {t..t + length xs} = {}"
  shows "strncpy s t (int n) m = (s, put s (take n (xs @ replicate n 0)) m)"
  using strncpy_loop_cstr [OF assms] by (simp add: strncpy_def)

theorem strncpy_correct_witness:
  "strncpy 40 10 (int 4) (put 10 [104, 105, 0] (\<lambda>_. 7)) =
     (40, put 40 [104, 105, 0, 0] (put 10 [104, 105, 0] (\<lambda>_. 7)))"
proof -
  have "cstr (put 10 [104, 105, 0] (\<lambda>_. 7)) 10 [104, 105]" by (simp add: put_def)
  moreover have "{40..<40 + 4} \<inter> {10..10 + length [104, 105 :: u8]} = {}" by auto
  ultimately have "strncpy 40 10 (int 4) (put 10 [104, 105, 0] (\<lambda>_. 7)) =
      (40, put 40 (take 4 ([104, 105] @ replicate 4 0)) (put 10 [104, 105, 0] (\<lambda>_. 7)))"
    by (rule strncpy_correct)
  then show ?thesis by (simp add: numeral_eq_Suc)
qed

end
