(* ===== verification/Sched.thy ===== *)
theory Sched
  imports Kalloc Mmu Cstring
begin

text \<open>
  Processes and scheduling, the part of \<^verbatim>\<open>src/proc.c\<close> that does not need the file
  system: the process table, segments, allocation of processes, growing a process,
  \<^verbatim>\<open>sched\<close>, \<^verbatim>\<open>yield\<close>, \<^verbatim>\<open>sleep\<close>, \<^verbatim>\<open>wakeup\<close>, \<^verbatim>\<open>kill\<close> and the scheduler loop.  A call that
  switches away from the process is split at \<^verbatim>\<open>swtch\<close> into the part before and the
  part after it.  The last section is a step relation for the scheduler loop and the
  processes it runs, with the proof that the loop is fair.
\<close>

section \<open>State\<close>

datatype procstate = UNUSED | EMBRYO | SLEEPING | RUNNABLE | RUNNING | ZOMBIE

record trapframe =
  tf_edi :: u32
  tf_esi :: u32
  tf_ebp :: u32
  tf_oesp :: u32
  tf_ebx :: u32
  tf_edx :: u32
  tf_ecx :: u32
  tf_eax :: u32
  tf_gs :: u16
  tf_fs :: u16
  tf_es :: u16
  tf_ds :: u16
  tf_trapno :: u32
  tf_err :: u32
  tf_eip :: u32
  tf_cs :: u16
  tf_eflags :: u32
  tf_esp :: u32
  tf_ss :: u16

record ctx =
  cedi :: u32
  cesi :: u32
  cebx :: u32
  cebp :: u32
  ceip :: u32

text \<open>
  \<^verbatim>\<open>struct proc\<close>.  Pointers to processes, files and inodes are indices into their
  tables.  \<open>sv_intena\<close> is the local variable \<^verbatim>\<open>intena\<close> of \<^verbatim>\<open>sched\<close>, which stays on the
  kernel stack of the process while it is switched out.
\<close>

record proc =
  pmem :: addr
  psz :: u32
  kstack :: addr
  pstate :: procstate
  pid :: int
  parent :: "nat option"
  tf :: addr
  pcontext :: addr
  pchan :: "chan option"
  killed :: int
  ofile :: "nat option list"
  cwd :: "nat option"
  pname :: "u8 list"
  sv_intena :: u32

text \<open>
  \<open>cur\<close> is the per-processor variable \<^verbatim>\<open>cp\<close>; \<open>tframes\<close> and \<open>ctxs\<close> are the trap frames and
  saved contexts on the kernel stacks, by address; the last fields are the task state
  and descriptor table of the running processor and the address of the former.
\<close>

record kproc = kmem +
  procs :: "proc list"
  nextpid :: int
  initproc :: "nat option"
  cur :: "nat option"
  tframes :: "addr \<Rightarrow> trapframe"
  ctxs :: "addr \<Rightarrow> ctx"
  ts_ss0 :: u16
  ts_esp0 :: u32
  gdt :: "segdesc list"
  ts_base :: u32

definition upd_proc :: "nat \<Rightarrow> (proc \<Rightarrow> proc) \<Rightarrow> ('z) kproc_scheme \<Rightarrow> ('z) kproc_scheme" where
  "upd_proc i f s = s\<lparr>procs := (procs s)[i := f (procs s ! i)]\<rparr>"

text \<open>The current process, where there is one.\<close>

definition cp :: "('z) kproc_scheme \<Rightarrow> nat" where
  "cp s = the (cur s)"

definition cproc :: "('z) kproc_scheme \<Rightarrow> proc" where
  "cproc s = procs s ! cp s"

section \<open>Process allocation\<close>

definition pinit :: "('z) kproc_scheme \<Rightarrow> ('z) kproc_scheme" where
  "pinit s = initlock PtableLock ''ptable'' s"

definition zero_ctx :: ctx where
  "zero_ctx = \<lparr>cedi = 0, cesi = 0, cebx = 0, cebp = 0, ceip = 0\<rparr>"

text \<open>
  \<open>forkret_addr\<close> is the address of the function \<^verbatim>\<open>forkret\<close>; a trap frame has 76 bytes and
  a context 20.
\<close>

definition allocproc :: "u32 \<Rightarrow> ('z) kproc_scheme \<Rightarrow> (nat option, ('z) kproc_scheme) res" where
  "allocproc forkret_addr s = bindr (acquire PtableLock s) (\<lambda>_ s.
     case first_index (\<lambda>p. pstate p = UNUSED) (procs s) of
       None \<Rightarrow> bindr (release PtableLock s) (\<lambda>_ s. Ok None s)
     | Some i \<Rightarrow>
         let s = upd_proc i (\<lambda>p. p\<lparr>pstate := EMBRYO, pid := nextpid s\<rparr>) s;
             s = s\<lparr>nextpid := nextpid s + 1\<rparr>
         in bindr (release PtableLock s) (\<lambda>_ s.
            bindr (kalloc (int KSTACKSIZE) s) (\<lambda>ks s.
              let s = upd_proc i (\<lambda>p. p\<lparr>kstack := ks\<rparr>) s in
              if ks = 0 then Ok None (upd_proc i (\<lambda>p. p\<lparr>pstate := UNUSED\<rparr>) s)
              else
                let t = ks + KSTACKSIZE - 76; c = t - 20;
                    s = upd_proc i (\<lambda>p. p\<lparr>tf := t, pcontext := c\<rparr>) s
                in Ok (Some i) (s\<lparr>ctxs := (ctxs s)(c := zero_ctx\<lparr>ceip := forkret_addr\<rparr>)\<rparr>))))"

section \<open>Segments\<close>

abbreviation (input) SEG_KCODE :: nat where "SEG_KCODE \<equiv> 1"
abbreviation (input) SEG_KDATA :: nat where "SEG_KDATA \<equiv> 2"
abbreviation (input) SEG_UCODE :: nat where "SEG_UCODE \<equiv> 4"
abbreviation (input) SEG_UDATA :: nat where "SEG_UDATA \<equiv> 5"
abbreviation (input) SEG_TSS :: nat where "SEG_TSS \<equiv> 6"

text \<open>\<^verbatim>\<open>usegment\<close> between its \<^verbatim>\<open>pushcli\<close> and \<^verbatim>\<open>popcli\<close>.\<close>

definition useg :: "('z) kproc_scheme \<Rightarrow> ('z) kproc_scheme" where
  "useg s =
     (let s = s\<lparr>ts_ss0 := of_nat (SEG_KDATA * 8)\<rparr>;
          s = (case cur s of
                 Some i \<Rightarrow>
                   let p = procs s ! i; m = of_nat (pmem p) in
                   s\<lparr>ts_esp0 := of_nat (kstack p + KSTACKSIZE),
                     gdt := (gdt s)[SEG_UCODE := SEG (STA_X OR STA_R) m (psz p - 1) DPL_USER,
                                    SEG_UDATA := SEG STA_W m (psz p - 1) DPL_USER]\<rparr>
               | None \<Rightarrow>
                   s\<lparr>ts_esp0 := 0xffffffff,
                     gdt := (gdt s)[SEG_UCODE := SEG_NULL, SEG_UDATA := SEG_NULL]\<rparr>)
      in s\<lparr>gdt := (gdt s)[SEG_TSS := (SEG16 STS_T32A (ts_base s) 103 0)\<lparr>seg_s := 0\<rparr>]\<rparr>)"

definition usegment :: "('z) kproc_scheme \<Rightarrow> (unit, ('z) kproc_scheme) res" where
  "usegment s = popcli (useg (pushcli s))"

text \<open>
  \<^verbatim>\<open>growproc\<close>: the argument of \<^verbatim>\<open>kalloc\<close> is the 32-bit sum read as a signed integer, that
  of \<^verbatim>\<open>memset\<close> is the argument read as an unsigned one.  The bytes of process memory
  are those of physical memory; run headers are not kept there.
\<close>

definition growproc :: "int \<Rightarrow> ('z) kproc_scheme \<Rightarrow> (int, ('z) kproc_scheme) res" where
  "growproc n s =
     bindr (kalloc (sint (psz (cproc s) + word_of_int n)) s) (\<lambda>newmem s.
       if newmem = 0 then Ok (-1) s
       else
         let p = cproc s; sz = unat (psz p);
             s = s\<lparr>phys := snd (memmove newmem (pmem p) sz (phys s))\<rparr>;
             s = s\<lparr>phys := snd (memset (newmem + sz) 0 (unat (word_of_int n :: u32)) (phys s))\<rparr>
         in bindr (kfree (pmem p) (sint (psz p)) s) (\<lambda>_ s.
            bindr (usegment (upd_proc (cp s)
                (\<lambda>p. p\<lparr>pmem := newmem, psz := psz p + word_of_int n\<rparr>) s)) (\<lambda>_ s. Ok 0 s)))"

section \<open>Switching\<close>

text \<open>\<^verbatim>\<open>sched\<close> up to the \<^verbatim>\<open>swtch\<close> to the scheduler, and from there on.\<close>

definition sched_out :: "('z) kproc_scheme \<Rightarrow> (unit, ('z) kproc_scheme) res" where
  "sched_out s =
     (if eflags s AND FL_IF \<noteq> 0 then Panic ''sched interruptible''
      else if pstate (cproc s) = RUNNING then Panic ''sched running''
      else if \<not> holding PtableLock s then Panic ''sched ptable.lock''
      else if ncli (this_cpu s) \<noteq> 1 then Panic ''sched locks''
      else Ok () (upd_proc (cp s) (\<lambda>p. p\<lparr>sv_intena := intena (this_cpu s)\<rparr>) s))"

definition sched_in :: "('z) kproc_scheme \<Rightarrow> ('z) kproc_scheme" where
  "sched_in s = set_cpu ((this_cpu s)\<lparr>intena := sv_intena (cproc s)\<rparr>) s"

definition yield_out :: "('z) kproc_scheme \<Rightarrow> (unit, ('z) kproc_scheme) res" where
  "yield_out s = bindr (acquire PtableLock s) (\<lambda>_ s.
     sched_out (upd_proc (cp s) (\<lambda>p. p\<lparr>pstate := RUNNABLE\<rparr>) s))"

definition yield_in :: "('z) kproc_scheme \<Rightarrow> (unit, ('z) kproc_scheme) res" where
  "yield_in s = release PtableLock (sched_in s)"

text \<open>\<^verbatim>\<open>forkret\<close> is where a new process starts; it then leaves for user space with the
  trap frame of the process.\<close>

definition forkret :: "('z) kproc_scheme \<Rightarrow> (trapframe, ('z) kproc_scheme) res" where
  "forkret s = bindr (release PtableLock s) (\<lambda>_ s. Ok (tframes s (tf (cproc s))) s)"

definition sleep_out :: "chan \<Rightarrow> lockid \<Rightarrow> ('z) kproc_scheme \<Rightarrow> (unit, ('z) kproc_scheme) res" where
  "sleep_out c l s =
     (if cur s = None then Panic ''sleep''
      else bindr (if l \<noteq> PtableLock
                  then bindr (acquire PtableLock s) (\<lambda>_ s. release l s)
                  else Ok () s) (\<lambda>_ s.
        sched_out (upd_proc (cp s) (\<lambda>p. p\<lparr>pchan := Some c, pstate := SLEEPING\<rparr>) s)))"

definition sleep_in :: "lockid \<Rightarrow> ('z) kproc_scheme \<Rightarrow> (unit, ('z) kproc_scheme) res" where
  "sleep_in l s =
     (let s = sched_in s; s = upd_proc (cp s) (\<lambda>p. p\<lparr>pchan := None\<rparr>) s in
      if l \<noteq> PtableLock then bindr (release PtableLock s) (\<lambda>_ s. acquire l s) else Ok () s)"

text \<open>\<^verbatim>\<open>wakeup1\<close>, \<^verbatim>\<open>wakeup\<close> and \<^verbatim>\<open>kill\<close>.\<close>

definition wake :: "chan \<Rightarrow> proc \<Rightarrow> proc" where
  "wake c p = (if pstate p = SLEEPING \<and> pchan p = Some c then p\<lparr>pstate := RUNNABLE\<rparr> else p)"

definition wakeup1 :: "chan \<Rightarrow> ('z) kproc_scheme \<Rightarrow> ('z) kproc_scheme" where
  "wakeup1 c s = s\<lparr>procs := map (wake c) (procs s)\<rparr>"

definition wakeup :: "chan \<Rightarrow> ('z) kproc_scheme \<Rightarrow> (unit, ('z) kproc_scheme) res" where
  "wakeup c s = bindr (acquire PtableLock s) (\<lambda>_ s. release PtableLock (wakeup1 c s))"

definition kill :: "int \<Rightarrow> ('z) kproc_scheme \<Rightarrow> (int, ('z) kproc_scheme) res" where
  "kill n s = bindr (acquire PtableLock s) (\<lambda>_ s.
     case first_index (\<lambda>p. pid p = n) (procs s) of
       Some i \<Rightarrow>
         let s = upd_proc i (\<lambda>p. p\<lparr>killed := 1\<rparr>) s;
             s = (if pstate (procs s ! i) = SLEEPING
                  then upd_proc i (\<lambda>p. p\<lparr>pstate := RUNNABLE\<rparr>) s else s)
         in bindr (release PtableLock s) (\<lambda>_ s. Ok 0 s)
     | None \<Rightarrow> bindr (release PtableLock s) (\<lambda>_ s. Ok (-1) s))"

section \<open>The scheduler\<close>

text \<open>
  The body of the scheduler's scan: from table index \<open>k\<close> to the next runnable process,
  the switch to it, what the scheduler does when it comes back, and the end of a
  round, after which the next one starts.
\<close>

definition scan :: "nat \<Rightarrow> ('z) kproc_scheme \<Rightarrow> nat option" where
  "scan k s = map_option ((+) k) (first_index (\<lambda>p. pstate p = RUNNABLE) (drop k (procs s)))"

definition dispatch :: "nat \<Rightarrow> ('z) kproc_scheme \<Rightarrow> (unit, ('z) kproc_scheme) res" where
  "dispatch i s = bindr (usegment (s\<lparr>cur := Some i\<rparr>)) (\<lambda>_ s.
     Ok () (upd_proc i (\<lambda>p. p\<lparr>pstate := RUNNING\<rparr>) s))"

definition dispatched :: "('z) kproc_scheme \<Rightarrow> (unit, ('z) kproc_scheme) res" where
  "dispatched s = usegment (s\<lparr>cur := None\<rparr>)"

definition next_round :: "('z) kproc_scheme \<Rightarrow> (unit, ('z) kproc_scheme) res" where
  "next_round s = bindr (release PtableLock s) (\<lambda>_ s. acquire PtableLock (sti s))"

section \<open>Locks and the fields of the process state\<close>

interpretation procs_u: mach_upd "procs_update f" for f
  by unfold_locales simp_all

interpretation procs_s: kmem_sel procs
  by unfold_locales simp_all

interpretation nextpid_u: mach_upd "nextpid_update f" for f
  by unfold_locales simp_all

interpretation nextpid_s: kmem_sel nextpid
  by unfold_locales simp_all

interpretation initproc_u: mach_upd "initproc_update f" for f
  by unfold_locales simp_all

interpretation initproc_s: kmem_sel initproc
  by unfold_locales simp_all

interpretation cur_u: mach_upd "cur_update f" for f
  by unfold_locales simp_all

interpretation cur_s: kmem_sel cur
  by unfold_locales simp_all

interpretation tframes_u: mach_upd "tframes_update f" for f
  by unfold_locales simp_all

interpretation tframes_s: kmem_sel tframes
  by unfold_locales simp_all

interpretation ctxs_u: mach_upd "ctxs_update f" for f
  by unfold_locales simp_all

interpretation ctxs_s: kmem_sel ctxs
  by unfold_locales simp_all

interpretation ts_ss0_u: mach_upd "ts_ss0_update f" for f
  by unfold_locales simp_all

interpretation ts_ss0_s: kmem_sel ts_ss0
  by unfold_locales simp_all

interpretation ts_esp0_u: mach_upd "ts_esp0_update f" for f
  by unfold_locales simp_all

interpretation ts_esp0_s: kmem_sel ts_esp0
  by unfold_locales simp_all

interpretation gdt_u: mach_upd "gdt_update f" for f
  by unfold_locales simp_all

interpretation gdt_s: kmem_sel gdt
  by unfold_locales simp_all

interpretation ts_base_u: mach_upd "ts_base_update f" for f
  by unfold_locales simp_all

interpretation ts_base_s: kmem_sel ts_base
  by unfold_locales simp_all

interpretation upd_proc_u: mach_upd "upd_proc i f" for i f
  by unfold_locales (simp_all add: upd_proc_def)

interpretation useg_u: mach_upd useg
  by unfold_locales (simp_all add: useg_def Let_def split: option.splits)

lemma upd_proc_simps [simp]:
  "procs (upd_proc i f s) = (procs s)[i := f (procs s ! i)]" "cur (upd_proc i f s) = cur s"
  "kheap (upd_proc i f s) = kheap s" "phys (upd_proc i f s) = phys s"
  "nextpid (upd_proc i f s) = nextpid s" "initproc (upd_proc i f s) = initproc s"
  "tframes (upd_proc i f s) = tframes s" "ctxs (upd_proc i f s) = ctxs s"
  "gdt (upd_proc i f s) = gdt s" "cp (upd_proc i f s) = cp s"
  by (simp_all add: upd_proc_def cp_def)

lemma useg_simps [simp]:
  "procs (useg s) = procs s" "cur (useg s) = cur s" "kheap (useg s) = kheap s"
  "phys (useg s) = phys s" "nextpid (useg s) = nextpid s" "initproc (useg s) = initproc s"
  "tframes (useg s) = tframes s" "ctxs (useg s) = ctxs s"
  by (simp_all add: useg_def Let_def split: option.splits)

lemma upd_proc_upd_proc [simp]:
  "i < length (procs s) \<Longrightarrow> upd_proc i f (upd_proc i g s) = upd_proc i (\<lambda>p. f (g p)) s"
  by (simp add: upd_proc_def)

lemma usegment_ok: "cpu_ok s \<Longrightarrow> usegment s = Ok () (useg (pushpop s))"
proof -
  assume ok: "cpu_ok s"
  then have "0 < ncli (this_cpu (pushcli s))" by (simp add: cpu_ok_def)
  moreover have "eflags (pushcli s) AND FL_IF = 0" by (simp add: mask_clear)
  ultimately show ?thesis
    by (simp add: usegment_def popcli_pushed useg_u.sel pushpop_def Let_def)
qed

text \<open>
  C12: memory protection.  After \<^verbatim>\<open>usegment\<close> for a current process of a positive whole
  number of pages, the user code and data segments start at the memory of the process,
  have user privilege, and contain exactly the offsets below the size of the process;
  the interrupt flag and every lock are as before.
\<close>

theorem usegment_confines:
  assumes "cpu_ok s" and "cur s = Some i" and "length (gdt s) = 7"
    and "4096 dvd unat (psz (procs s ! i))" and "psz (procs s ! i) \<noteq> 0"
  shows "\<exists>s'. usegment s = Ok () s' \<and> eflags s' = eflags s \<and> locks s' = locks s \<and>
    (\<forall>k \<in> {SEG_UCODE, SEG_UDATA}.
       seg_base (gdt s' ! k) = of_nat (pmem (procs s ! i)) \<and> seg_dpl (gdt s' ! k) = DPL_USER \<and>
       (\<forall>off. off \<le> seg_limit (gdt s' ! k) \<longleftrightarrow> off < psz (procs s ! i)))"
proof -
  let ?p = "procs s ! i"
  have lim: "off \<le> psz ?p - 1 \<longleftrightarrow> off < psz ?p" for off
  proof -
    have "unat (psz ?p) \<noteq> 0" using assms(5) by (simp add: unsigned_eq_0_iff)
    then show ?thesis using unat_minus_one [OF assms(5)] by (auto simp: word_le_nat_alt word_less_nat_alt)
  qed
  have "gdt (useg (pushpop s)) =
    (gdt s)[SEG_UCODE := SEG (STA_X OR STA_R) (of_nat (pmem ?p)) (psz ?p - 1) DPL_USER,
            SEG_UDATA := SEG STA_W (of_nat (pmem ?p)) (psz ?p - 1) DPL_USER,
            SEG_TSS := (SEG16 STS_T32A (ts_base s) 103 0)\<lparr>seg_s := 0\<rparr>]"
    using assms(2) by (simp add: useg_def Let_def)
  then have "gdt (useg (pushpop s)) ! SEG_UCODE = SEG (STA_X OR STA_R) (of_nat (pmem ?p)) (psz ?p - 1) DPL_USER"
    "gdt (useg (pushpop s)) ! SEG_UDATA = SEG STA_W (of_nat (pmem ?p)) (psz ?p - 1) DPL_USER"
    using assms(3) by simp_all
  moreover have "seg_dpl (SEG t b l d) = d" for t b l d by (simp add: SEG_def)
  ultimately show ?thesis using assms(1)
    by (simp add: usegment_ok seg_base_SEG seg_limit_pages [OF assms(4,5)] lim eflags_pushpop useg_u.sel)
qed

section \<open>Sleeping and waking\<close>

text \<open>The state of a process that has gone to sleep.\<close>

definition asleep :: "chan \<Rightarrow> u32 \<Rightarrow> proc \<Rightarrow> proc" where
  "asleep c e p = p\<lparr>pchan := Some c, pstate := SLEEPING, sv_intena := e\<rparr>"

lemma sched_out_ok:
  assumes "held PtableLock s" and "ncli (this_cpu s) = 1" and "pstate (cproc s) \<noteq> RUNNING"
  shows "sched_out s = Ok () (upd_proc (cp s) (\<lambda>p. p\<lparr>sv_intena := intena (this_cpu s)\<rparr>) s)"
  using assms by (simp add: sched_out_def held_def)

lemma cproc_upd [simp]: "cp s < length (procs s) \<Longrightarrow> cproc (upd_proc (cp s) f s) = f (cproc s)"
  by (simp add: cproc_def)

lemma sleep_out_ok:
  assumes "held l s" and "is_free PtableLock s" and "ncli (this_cpu s) = 1"
    and "cur s = Some i" and "i < length (procs s)"
  shows "sleep_out c l s = Ok () (upd_proc i (asleep c (intena (this_cpu s)))
           (unlock l (lock_st PtableLock s)))"
proof -
  have ne: "l \<noteq> PtableLock" using assms(1,2) by (rule held_not_free)
  let ?s = "unlock l (lock_st PtableLock s)"
  have rel: "release l (lock_st PtableLock s) = Ok () ?s"
    using assms(1) ne by (intro release_held held_lock_st_other) auto
  have h: "held PtableLock ?s" using assms(2,3) ne
    by (intro held_unlock_other held_lock_st) auto
  have c: "cp ?s = i" "cp ?s < length (procs ?s)" using assms(4,5) by (simp_all add: cp_def)
  let ?f = "\<lambda>p. p\<lparr>pchan := Some c, pstate := SLEEPING\<rparr>"
  have "pstate (cproc (upd_proc i ?f ?s)) = SLEEPING" using c by (simp add: cproc_def)
  then have "sched_out (upd_proc i ?f ?s) =
      Ok () (upd_proc i (\<lambda>p. p\<lparr>sv_intena := intena (this_cpu ?s)\<rparr>) (upd_proc i ?f ?s))"
    using h c assms(3) by (subst sched_out_ok) auto
  then show ?thesis using assms(2-5) ne c
    by (simp add: sleep_out_def acquire_free rel asleep_def [abs_def])
qed

lemma sleep_in_ok:
  assumes "held PtableLock s" and "ncli (this_cpu s) = 1" and "l \<noteq> PtableLock"
    and "is_free l s" and "cur s = Some i" and "i < length (procs s)"
  shows "sleep_in l s = Ok () (lock_st l (unlock PtableLock (upd_proc i (\<lambda>p. p\<lparr>pchan := None\<rparr>) (sched_in s))))"
proof -
  let ?s = "upd_proc i (\<lambda>p. p\<lparr>pchan := None\<rparr>) (sched_in s)"
  have h: "held PtableLock ?s" "is_free l ?s"
    using assms by (simp_all add: sched_in_def held_def holding_def is_free_def cpu_ok_def)
  then have "is_free l (unlock PtableLock ?s)"
    using assms(3) is_free_unlock [OF h(1)] by (auto simp: is_free_def)
  then show ?thesis using h(1) assms(3,5)
    by (simp add: sleep_in_def sched_in_def cp_def release_held acquire_free)
qed

lemma wakeup_ok:
  "is_free PtableLock s \<Longrightarrow> wakeup c s = Ok () (wakeup1 c (through PtableLock s))"
  by (simp add: wakeup_def wakeup1_def acquire_free release_held held_lock_st through_def)

text \<open>An example: process 0 runs in the kernel, process 1 sleeps, the other slots are free.\<close>

definition proc_unused :: proc where
  "proc_unused = \<lparr>pmem = 0, psz = 0, kstack = 0, pstate = UNUSED, pid = 0, parent = None, tf = 0,
     pcontext = 0, pchan = None, killed = 0, ofile = replicate NOFILE None, cwd = None,
     pname = replicate 16 0, sv_intena = 0\<rparr>"

definition zero_tf :: trapframe where
  "zero_tf = \<lparr>tf_edi = 0, tf_esi = 0, tf_ebp = 0, tf_oesp = 0, tf_ebx = 0, tf_edx = 0, tf_ecx = 0,
     tf_eax = 0, tf_gs = 0, tf_fs = 0, tf_es = 0, tf_ds = 0, tf_trapno = 0, tf_err = 0, tf_eip = 0,
     tf_cs = 0, tf_eflags = 0, tf_esp = 0, tf_ss = 0\<rparr>"

definition kproc0 :: kproc where
  "kproc0 = kmem.extend kmem0
     \<lparr>procs = [proc_unused\<lparr>pstate := RUNNING, pid := 1, pmem := 0x30000, psz := 8192, kstack := 0x50000\<rparr>,
               proc_unused\<lparr>pstate := SLEEPING, pid := 2, pchan := Some ChTicks, parent := Some 0\<rparr>]
               @ replicate 62 proc_unused,
      nextpid = 3, initproc = Some 0, cur = Some 0, tframes = (\<lambda>_. zero_tf), ctxs = (\<lambda>_. zero_ctx),
      ts_ss0 = 0, ts_esp0 = 0, gdt = replicate 7 SEG_NULL, ts_base = 0x100200\<rparr>"

lemma kproc0_simps [simp]:
  "kheap kproc0 = kheap kmem0" "cur kproc0 = Some 0" "nextpid kproc0 = 3" "gdt kproc0 = replicate 7 SEG_NULL"
  "phys kproc0 = (\<lambda>_. 0)" "ncli (this_cpu kproc0) = 0" "eflags kproc0 = 0x202" "length (procs kproc0) = 64"
  by (simp_all add: kproc0_def kmem.extend_def kmem0_def mach0_def mach.extend_def this_cpu_def cpu_id_def)

lemma kproc0_procs:
  "procs kproc0 = [proc_unused\<lparr>pstate := RUNNING, pid := 1, pmem := 0x30000, psz := 8192, kstack := 0x50000\<rparr>,
     proc_unused\<lparr>pstate := SLEEPING, pid := 2, pchan := Some ChTicks, parent := Some 0\<rparr>]
     @ replicate 62 proc_unused"
  by (simp add: kproc0_def kmem.extend_def)

lemma replicate_62: "replicate 62 x = x # replicate 61 x"
  by (simp add: numeral_eq_Suc)

lemma kproc0_nth [simp]:
  "procs kproc0 ! 0 = proc_unused\<lparr>pstate := RUNNING, pid := 1, pmem := 0x30000, psz := 8192, kstack := 0x50000\<rparr>"
  "procs kproc0 ! 1 = proc_unused\<lparr>pstate := SLEEPING, pid := 2, pchan := Some ChTicks, parent := Some 0\<rparr>"
  "procs kproc0 ! Suc 0 = proc_unused\<lparr>pstate := SLEEPING, pid := 2, pchan := Some ChTicks, parent := Some 0\<rparr>"
  "procs kproc0 ! 2 = proc_unused"
  by (simp_all add: kproc0_procs)

lemma kproc0_nth_ge: "2 \<le> i \<Longrightarrow> i < 64 \<Longrightarrow> procs kproc0 ! i = proc_unused"
  by (simp add: kproc0_procs nth_append)

lemma kproc0_unused: "first_index (\<lambda>p. pstate p = UNUSED) (procs kproc0) = Some 2"
  "first_index (\<lambda>p. pid p = 0) (procs kproc0) = Some 2"
  by (simp_all add: kproc0_procs proc_unused_def replicate_62)

lemma kproc0_free: "is_free l kproc0"
  by (simp add: kproc0_def kmem0_def mach0_def is_free_def cpu_ok_def this_cpu_def cpu_id_def
      mach.extend_def kmem.extend_def)

theorem usegment_confines_witness:
  "\<exists>s'. usegment kproc0 = Ok () s' \<and> seg_base (gdt s' ! 5) = 0x30000 \<and>
     0x1fff \<le> seg_limit (gdt s' ! 5) \<and> \<not> 0x2000 \<le> seg_limit (gdt s' ! 5)"
proof -
  have "cpu_ok kproc0" using kproc0_free by (rule is_free_cpu_ok)
  from usegment_confines [OF this, of 0]
  obtain s' where s': "usegment kproc0 = Ok () s'" "seg_base (gdt s' ! 5) = 0x30000"
    "\<And>off. off \<le> seg_limit (gdt s' ! 5) \<longleftrightarrow> off < 8192" by auto
  then show ?thesis by auto
qed

text \<open>
  C21: \<^verbatim>\<open>sleep\<close> called by the current process while it holds just the lock \<open>l\<close> does not
  panic: it reaches the switch with \<open>l\<close> released, the process table locked, the caller
  asleep on the channel and every other process unchanged.  In whatever state the
  scheduler later resumes it (holding the process table lock, \<open>l\<close> free), \<^verbatim>\<open>sleep\<close> returns
  with \<open>l\<close> held again, the process table unlocked and no channel set; interrupts will
  be enabled at the end of the section again if they were before it.
\<close>

theorem sleep_correct:
  assumes "held l s" and "is_free PtableLock s" and "ncli (this_cpu s) = 1"
    and "cur s = Some i" and "i < length (procs s)" and "intena (this_cpu s) \<in> {0, FL_IF}"
  shows "\<exists>t. sleep_out c l s = Ok () t \<and> is_free l t \<and> held PtableLock t \<and> kheap t = kheap s \<and>
    procs t = (procs s)[i := asleep c (intena (this_cpu s)) (procs s ! i)] \<and>
    (\<forall>u :: ('z) kproc_scheme. held PtableLock u \<and> ncli (this_cpu u) = 1 \<and> is_free l u \<and> cur u = Some i \<and>
       i < length (procs u) \<and> sv_intena (procs u ! i) = intena (this_cpu s) \<longrightarrow>
       (\<exists>v. sleep_in l u = Ok () v \<and> held l v \<and> is_free PtableLock v \<and>
          intena (this_cpu v) = intena (this_cpu s) \<and>
          procs v = (procs u)[i := (procs u ! i)\<lparr>pchan := None\<rparr>]))"
proof -
  let ?t = "upd_proc i (asleep c (intena (this_cpu s))) (unlock l (lock_st PtableLock s))"
  have ne: "l \<noteq> PtableLock" using assms(1,2) by (rule held_not_free)
  have t: "sleep_out c l s = Ok () ?t" by (rule sleep_out_ok [OF assms(1-5)])
  have hl: "held l (lock_st PtableLock s)" using assms(1) ne by (intro held_lock_st_other) auto
  have "is_free l ?t" using is_free_unlock [OF hl] by simp
  moreover have "held PtableLock ?t"
    using held_unlock_other [OF held_lock_st [OF assms(2)], of l] ne assms(3) by simp
  moreover have "\<exists>v. sleep_in l u = Ok () v \<and> held l v \<and> is_free PtableLock v \<and>
      intena (this_cpu v) = intena (this_cpu s) \<and> procs v = (procs u)[i := (procs u ! i)\<lparr>pchan := None\<rparr>]"
    if u: "held PtableLock u" "ncli (this_cpu u) = 1" "is_free l u" "cur u = Some i"
      "i < length (procs u)" "sv_intena (procs u ! i) = intena (this_cpu s)" for u :: "('z) kproc_scheme"
  proof -
    let ?u = "upd_proc i (\<lambda>p. p\<lparr>pchan := None\<rparr>) (sched_in u)"
    have pu: "procs (sched_in u) = procs u" by (simp add: sched_in_def)
    have h: "held PtableLock ?u" "is_free l ?u"
      using u by (simp_all add: sched_in_def held_def holding_def is_free_def cpu_ok_def)
    have f: "is_free l (unlock PtableLock ?u)" "is_free PtableLock (unlock PtableLock ?u)"
      using h ne is_free_unlock [OF h(1)] by (auto simp: is_free_def)
    have n: "ncli (this_cpu (unlock PtableLock ?u)) = 0" using u(2) by (simp add: sched_in_def)
    have e: "eflags (unlock PtableLock ?u) AND FL_IF = intena (this_cpu s)"
      using assms(6) u(1,2,4,6) h(1)
      by (auto simp: eflags_unlock sched_in_def cproc_def cp_def held_def FL_IF_def ac_simps)
    have "sleep_in l u = Ok () (lock_st l (unlock PtableLock ?u))"
      using sleep_in_ok [OF u(1,2) ne u(3-5)] .
    moreover have "held l (lock_st l (unlock PtableLock ?u))" by (rule held_lock_st [OF f(1)])
    moreover have "is_free PtableLock (lock_st l (unlock PtableLock ?u))"
      using ne by (intro is_free_lock_st_other [OF f(2)]) auto
    ultimately show ?thesis using n e by (simp add: pu)
  qed
  ultimately show ?thesis using t by auto
qed

lemma kproc0_locked:
  "held TicksLock (lock_st TicksLock kproc0)" "is_free PtableLock (lock_st TicksLock kproc0)"
  "ncli (this_cpu (lock_st TicksLock kproc0)) = 1"
  "intena (this_cpu (lock_st TicksLock kproc0)) = FL_IF"
  using held_lock_st [OF kproc0_free] is_free_lock_st_other [OF kproc0_free] by (simp_all add: FL_IF_def)

theorem sleep_correct_witness:
  "\<exists>t. sleep_out ChTicks TicksLock (lock_st TicksLock kproc0) = Ok () t \<and> is_free TicksLock t \<and>
     held PtableLock t \<and> pstate (procs t ! 0) = SLEEPING"
  using sleep_correct [OF kproc0_locked(1-3), of 0 ChTicks] kproc0_locked(4)
  by (auto simp: asleep_def)

section \<open>Allocating processes\<close>

text \<open>Process identifiers: those in use are positive, below the next one, and distinct.\<close>

definition pids_ok :: "('z) kproc_scheme \<Rightarrow> bool" where
  "pids_ok s \<longleftrightarrow> 0 < nextpid s \<and>
     (\<forall>i < length (procs s). pid (procs s ! i) < nextpid s) \<and>
     (\<forall>i < length (procs s). \<forall>j < length (procs s).
        pstate (procs s ! i) \<noteq> UNUSED \<and> pstate (procs s ! j) \<noteq> UNUSED \<and>
        pid (procs s ! i) = pid (procs s ! j) \<longrightarrow> i = j)"

lemma pids_ok_cong:
  assumes "map pstate (procs t) = map pstate (procs s)" and "map pid (procs t) = map pid (procs s)"
    and "nextpid t = nextpid s"
  shows "pids_ok t = pids_ok s"
proof -
  have "length (procs t) = length (procs s)" using assms(1) by (rule map_eq_imp_length_eq)
  moreover have "pstate (procs t ! i) = pstate (procs s ! i)" "pid (procs t ! i) = pid (procs s ! i)"
    if "i < length (procs s)" for i
    using that calculation assms(1,2) by (metis nth_map)+
  ultimately show ?thesis using assms(3) by (simp add: pids_ok_def)
qed

lemma pids_ok_alloc:
  assumes "pids_ok s" and "i < length (procs s)" and "pid p = nextpid s"
    and "procs t = (procs s)[i := p]" and "nextpid t = nextpid s + 1"
  shows "pids_ok t"
  using assms unfolding pids_ok_def by (auto simp: nth_list_update)

lemma allocproc_none:
  assumes "is_free PtableLock s" and "first_index (\<lambda>p. pstate p = UNUSED) (procs s) = None"
  shows "allocproc fr s = Ok None (through PtableLock s)"
  using assms by (simp add: allocproc_def acquire_free release_held held_lock_st through_def)

text \<open>What an allocation leaves behind.  When there is no kernel stack, the slot that was
  tried is unused again but keeps the new identifier, which is used up.\<close>

definition alloc_result :: "u32 \<Rightarrow> ('z) kproc_scheme \<Rightarrow> nat option \<Rightarrow> ('z) kproc_scheme \<Rightarrow> bool" where
  "alloc_result fr s r t \<longleftrightarrow>
    (case first_index (\<lambda>p. pstate p = UNUSED) (procs s) of
       None \<Rightarrow> r = None \<and> procs t = procs s \<and> nextpid t = nextpid s \<and> ctxs t = ctxs s \<and> avail t = avail s
     | Some i \<Rightarrow> nextpid t = nextpid s + 1 \<and>
         (if avail s = {} then r = None \<and> ctxs t = ctxs s \<and> avail t = {} \<and>
            procs t = (procs s)[i := (procs s ! i)\<lparr>pid := nextpid s, kstack := 0\<rparr>]
          else r = Some i \<and> (\<exists>ks. ks \<noteq> 0 \<and> PAGE dvd ks \<and> {ks..<ks + KSTACKSIZE} \<subseteq> avail s \<and>
            avail t = avail s - {ks..<ks + KSTACKSIZE} \<and>
            ctxs t = (ctxs s)(ks + 4000 := zero_ctx\<lparr>ceip := fr\<rparr>) \<and>
            procs t = (procs s)[i := (procs s ! i)\<lparr>pstate := EMBRYO, pid := nextpid s, kstack := ks,
              tf := ks + 4020, pcontext := ks + 4000\<rparr>])))"

lemma allocproc_ok:
  assumes "is_free PtableLock s" and "kmem_ok s" and "pids_ok s"
  shows "\<exists>r t. allocproc fr s = Ok r t \<and> kmem_ok t \<and> pids_ok t \<and> is_free PtableLock t \<and>
    alloc_result fr s r t"
proof (cases "first_index (\<lambda>p. pstate p = UNUSED) (procs s)")
  case None
  have "kmem_ok (through PtableLock s)" "pids_ok (through PtableLock s)" "avail (through PtableLock s) = avail s"
    using assms(2,3) by (auto simp: kmem_ok_def is_free_through pids_ok_def intro!: avail_cong)
  then show ?thesis using allocproc_none [OF assms(1) None] None assms(1)
    by (auto simp: is_free_through alloc_result_def)
next
  case (Some i)
  have i: "i < length (procs s)" "pstate (procs s ! i) = UNUSED" using first_index_SomeD [OF Some] by auto
  let ?f = "\<lambda>p. p\<lparr>pstate := EMBRYO, pid := nextpid s\<rparr>"
  let ?s = "(upd_proc i ?f (through PtableLock s))\<lparr>nextpid := nextpid s + 1\<rparr>"
  have ks: "kmem_ok ?s" "avail ?s = avail s"
    using assms(2) by (auto simp: kmem_ok_def is_free_through free_list_def intro!: avail_cong)
  obtain k h where h: "kalloc (int 4096) ?s = Ok k ((through KmemLock ?s)\<lparr>kheap := h\<rparr>)"
    "kmem_ok ((through KmemLock ?s)\<lparr>kheap := h\<rparr>)"
    "if k = 0 then avail ((through KmemLock ?s)\<lparr>kheap := h\<rparr>) = avail ?s \<and> (4096 = PAGE \<longrightarrow> avail ?s = {})
     else PAGE dvd k \<and> {k..<k + 4096} \<subseteq> avail ?s \<and>
       avail ((through KmemLock ?s)\<lparr>kheap := h\<rparr>) = avail ?s - {k..<k + 4096}"
    using kalloc_frame [OF ks(1), of 4096] by auto
  let ?g = "\<lambda>p. p\<lparr>pstate := EMBRYO, pid := nextpid s, kstack := k, tf := k + 4020, pcontext := k + 4000\<rparr>"
  let ?t = "(through KmemLock ?s)\<lparr>kheap := h\<rparr>"
  show ?thesis
  proof (cases "k = 0")
    case True
    let ?u = "upd_proc i (\<lambda>p. p\<lparr>kstack := 0, pstate := UNUSED\<rparr>) ?t"
    have "allocproc fr s = Ok None ?u"
      using assms(1) Some h(1) True i
      by (simp add: allocproc_def acquire_free release_held held_lock_st through_def Let_def)
    moreover have "kmem_ok ?u" using h(2) by (subst kmem_ok_cong [of _ ?t]) simp_all
    moreover have "avail ?u = avail ?t" by (rule avail_cong) simp
    moreover have "pids_ok ?u"
      by (rule pids_ok_alloc [OF assms(3) i(1), of "(procs s ! i)\<lparr>pid := nextpid s, kstack := 0, pstate := UNUSED\<rparr>"]) (use i in simp_all)
    moreover have "procs ?u = (procs s)[i := (procs s ! i)\<lparr>pid := nextpid s, kstack := 0\<rparr>]"
      using i by (auto intro!: arg_cong [of _ _ "list_update (procs s) i"] proc.equality)
    moreover have "nextpid ?u = nextpid s + 1" "ctxs ?u = ctxs s" by simp_all
    moreover have "is_free PtableLock ?u" using assms(1) by (simp add: is_free_through)
    ultimately show ?thesis using h(3) True ks(2) Some
      by (intro exI [of _ None] exI [of _ ?u]) (simp add: alloc_result_def)
  next
    case False
    let ?u = "(upd_proc i (\<lambda>p. p\<lparr>kstack := k, tf := k + 4020, pcontext := k + 4000\<rparr>) ?t)
      \<lparr>ctxs := (ctxs s)(k + 4000 := zero_ctx\<lparr>ceip := fr\<rparr>)\<rparr>"
    have "allocproc fr s = Ok (Some i) ?u"
      using assms(1) Some h(1) False i
      by (simp add: allocproc_def acquire_free release_held held_lock_st through_def Let_def add.commute)
    moreover have "kmem_ok ?u" using h(2) by (subst kmem_ok_cong [of _ ?t]) simp_all
    moreover have "avail ?u = avail ?t" by (rule avail_cong) simp
    moreover have "pids_ok ?u"
      by (rule pids_ok_alloc [OF assms(3) i(1), of "?g (procs s ! i)"]) (use i in simp_all)
    moreover have "is_free PtableLock ?u" using assms(1) by (simp add: is_free_through)
    moreover have "procs ?u = (procs s)[i := ?g (procs s ! i)]" using i by simp
    moreover have "nextpid ?u = nextpid s + 1" "ctxs ?u = (ctxs s)(k + 4000 := zero_ctx\<lparr>ceip := fr\<rparr>)" by simp_all
    moreover have "avail s \<noteq> {}" using h(3) False ks(2) by auto
    ultimately show ?thesis using h(3) False ks(2) Some
      by (intro exI [of _ "Some i"] exI [of _ ?u]) (auto simp: alloc_result_def intro!: exI [of _ k])
  qed
qed


lemma kproc0_kmem: "kmem_ok kproc0" "avail kproc0 = {0x10000..<0x11000} \<union> {0x20000..<0x23000}"
proof -
  show "kmem_ok kproc0" using kmem0_ok kproc0_free kmem0_free
    by (subst kmem_ok_cong [of _ kmem0]) simp_all
  show "avail kproc0 = {0x10000..<0x11000} \<union> {0x20000..<0x23000}"
    by (subst avail_cong [of _ kmem0]) (simp_all add: kmem0_avail)
qed

lemma kproc0_pids: "pids_ok kproc0"
proof -
  have "pid (procs kproc0 ! i) < 3 \<and> (pstate (procs kproc0 ! i) \<noteq> UNUSED \<longrightarrow> pid (procs kproc0 ! i) = int i + 1)"
    if "i < 64" for i
  proof -
    consider "i = 0" | "i = 1" | "2 \<le> i" by linarith
    then show ?thesis using that kproc0_nth_ge [of i] by cases (simp_all add: proc_unused_def)
  qed
  then show ?thesis unfolding pids_ok_def kproc0_simps by force
qed


text \<open>
  C25: \<^verbatim>\<open>kill\<close> does not look at the state of the slot it finds, and \<^verbatim>\<open>allocproc\<close> does not
  clear the \<^verbatim>\<open>killed\<close> flag.  When slot \<open>i\<close> is the first unused one and the first one with
  identifier 0, \<^verbatim>\<open>kill(0)\<close> succeeds, and the next process that is created is born killed.
\<close>

theorem kill_marks_unused_slot:
  assumes "is_free PtableLock s" and "kmem_ok s" and "pids_ok s" and "avail s \<noteq> {}"
    and "first_index (\<lambda>p. pid p = 0) (procs s) = Some i"
    and "first_index (\<lambda>p. pstate p = UNUSED) (procs s) = Some i"
  shows "\<exists>s' t. kill 0 s = Ok 0 s' \<and> allocproc fr s' = Ok (Some i) t \<and>
    pstate (procs t ! i) = EMBRYO \<and> killed (procs t ! i) = 1"
proof -
  have i: "i < length (procs s)" "pstate (procs s ! i) = UNUSED" using first_index_SomeD [OF assms(6)] by auto
  let ?s = "upd_proc i (\<lambda>p. p\<lparr>killed := 1\<rparr>) (through PtableLock s)"
  have k: "kill 0 s = Ok 0 ?s" using assms(1,5) i
    by (simp add: kill_def acquire_free release_held held_lock_st through_def Let_def)
  have ps: "map pstate (procs ?s) = map pstate (procs s)" "map pid (procs ?s) = map pid (procs s)"
    using i by (simp_all add: map_update list_update_same_conv)
  have s: "is_free PtableLock ?s" "kmem_ok ?s" "avail ?s = avail s"
    using assms(1,2) by (auto simp: is_free_through kmem_ok_def free_list_def intro!: avail_cong)
  have "pids_ok ?s" using assms(3) by (subst pids_ok_cong [OF ps]) simp
  from allocproc_ok [OF s(1,2) this, of fr] obtain r t where t: "allocproc fr ?s = Ok r t"
    "alloc_result fr ?s r t" by blast
  have "first_index (\<lambda>p. pstate p = UNUSED) (procs ?s) = Some i"
    using first_index_map_cong [OF ps(1), of "\<lambda>x. x = UNUSED"] assms(6) by simp
  with t(2) s(3) assms(4) i have "r = Some i \<and> pstate (procs t ! i) = EMBRYO \<and> killed (procs t ! i) = 1"
    by (auto simp: alloc_result_def)
  with k t(1) show ?thesis by blast
qed

theorem kill_marks_unused_slot_witness:
  "\<exists>s' t. kill 0 kproc0 = Ok 0 s' \<and> allocproc 0x101234 s' = Ok (Some 2) t \<and>
    pstate (procs t ! 2) = EMBRYO \<and> killed (procs t ! 2) = 1"
  by (rule kill_marks_unused_slot [OF kproc0_free kproc0_kmem(1) kproc0_pids _ kproc0_unused(2) kproc0_unused(1)])
    (simp add: kproc0_kmem)

section \<open>Growing a process\<close>

lemma sint_of_nat32: "n < 2 ^ 31 \<Longrightarrow> sint (of_nat n :: u32) = int n"
  by (simp add: signed_of_nat signed_take_bit_int_eq_self)

lemma growproc_ok:
  assumes s: "kmem_ok s" "cur s = Some i" "i < length (procs s)"
    and p: "psz (procs s ! i) = of_nat sz" "0 < pmem (procs s ! i)" "PAGE dvd pmem (procs s ! i)"
    and n: "0 < sz" "PAGE dvd sz" "PAGE dvd n" "sz + n < 2 ^ 31"
    and d: "{pmem (procs s ! i)..<pmem (procs s ! i) + sz} \<inter> avail s = {}"
  shows "\<exists>r t. growproc (int n) s = Ok r t \<and> kmem_ok t \<and>
    (if r = - 1 then procs t = procs s \<and> phys t = phys s \<and> avail t = avail s
     else r = 0 \<and> (\<exists>q. procs t = (procs s)[i := (procs s ! i)\<lparr>pmem := q, psz := of_nat (sz + n)\<rparr>] \<and>
       bytes (phys t) q (sz + n) = bytes (phys s) (pmem (procs s ! i)) sz @ replicate n 0 \<and>
       {q..<q + (sz + n)} \<subseteq> avail s \<and>
       avail t = (avail s - {q..<q + (sz + n)}) \<union> {pmem (procs s ! i)..<pmem (procs s ! i) + sz}))"
proof -
  let ?p = "procs s ! i"
  have cp: "cproc s = ?p" using s(2) by (simp add: cproc_def cp_def)
  have arg: "sint (psz (cproc s) + word_of_int (int n)) = int (sz + n)"
    using sint_of_nat32 [OF n(4)] p(1) by (simp add: cp)
  have dv: "0 < sz + n" "PAGE dvd sz + n" using n by simp_all
  from kalloc_frame [OF s(1) dv]
  obtain q h where q: "kalloc (int (sz + n)) s = Ok q ((through KmemLock s)\<lparr>kheap := h\<rparr>)"
    "kmem_ok ((through KmemLock s)\<lparr>kheap := h\<rparr>)"
    "if q = 0 then avail ((through KmemLock s)\<lparr>kheap := h\<rparr>) = avail s \<and> (sz + n = PAGE \<longrightarrow> avail s = {})
     else PAGE dvd q \<and> {q..<q + (sz + n)} \<subseteq> avail s \<and>
       avail ((through KmemLock s)\<lparr>kheap := h\<rparr>) = avail s - {q..<q + (sz + n)}" by (elim exE conjE)
  show ?thesis
  proof (cases "q = 0")
    case True
    have "growproc (int n) s = Ok (- 1) ((through KmemLock s)\<lparr>kheap := h\<rparr>)"
      unfolding growproc_def arg using q(1) True by simp
    with q(2,3) True show ?thesis by auto
  next
    case False
    let ?m = "pmem ?p" and ?xs = "bytes (phys s) (pmem ?p) sz"
    let ?s1 = "(through KmemLock s)\<lparr>kheap := h, phys := put q (?xs @ replicate n 0) (phys s)\<rparr>"
    have new: "{q..<q + (sz + n)} \<subseteq> avail s" "avail ?s1 = avail s - {q..<q + (sz + n)}"
      using q(3) False avail_cong [of ?s1 "(through KmemLock s)\<lparr>kheap := h\<rparr>"] by simp_all
    have "kmem_ok ?s1" using q(2) by (subst kmem_ok_cong [of _ "(through KmemLock s)\<lparr>kheap := h\<rparr>"]) simp_all
    moreover have "{?m..<?m + sz} \<inter> avail ?s1 = {}" using d new(2) by blast
    ultimately obtain h' where h': "kfree ?m (int sz) ?s1 = Ok () ((memset_phys ?m 1 sz (through KmemLock ?s1))\<lparr>kheap := h'\<rparr>)"
      "kmem_ok ((memset_phys ?m 1 sz (through KmemLock ?s1))\<lparr>kheap := h'\<rparr>)"
      "avail ((memset_phys ?m 1 sz (through KmemLock ?s1))\<lparr>kheap := h'\<rparr>) = avail ?s1 \<union> {?m..<?m + sz}"
      using kfree_frame [of ?s1 sz ?m] n(1,2) p(2,3) by blast
    let ?s2 = "(memset_phys ?m 1 sz (through KmemLock ?s1))\<lparr>kheap := h'\<rparr>"
    let ?t = "useg (pushpop (upd_proc i (\<lambda>p. p\<lparr>pmem := q, psz := psz p + word_of_int (int n)\<rparr>) ?s2))"
    have ok: "cpu_ok ?s2" using h'(2) by (simp add: kmem_ok_def is_free_def)
    have cp2: "cp ?s2 = i" using s(2) by (simp add: cp_def memset_phys_def Let_def)
    have "growproc (int n) s = Ok 0 ?t"
    proof -
      have "unat (word_of_int (int n) :: u32) = n" using n(4) by (simp add: unsigned_of_nat take_bit_nat_eq_self)
      moreover have "unat (psz ?p) = sz" "sint (psz ?p) = int sz"
        using n(4) p(1) sint_of_nat32 [of sz] by (simp_all add: unsigned_of_nat take_bit_nat_eq_self)
      moreover have "cproc ((through KmemLock s)\<lparr>kheap := h\<rparr>) = ?p" using cp s(2) by (simp add: cproc_def cp_def)
      ultimately show ?thesis
        using q(1) False h'(1) ok cp2 put_append [of q ?xs "replicate n 0" "phys s"]
        by (simp add: growproc_def arg [simplified] memmove_put memset_put Let_def usegment_ok)
    qed
    moreover have "kmem_ok ?t" "avail ?t = avail ?s2"
      using h'(2) by (auto simp: kmem_ok_def free_list_def is_free_pushpop intro!: avail_cong)
    moreover have "procs ?t = (procs s)[i := ?p\<lparr>pmem := q, psz := of_nat (sz + n)\<rparr>]"
      using s(3) p(1) by (simp add: memset_phys_def Let_def)
    moreover have "bytes (phys ?t) q (sz + n) = ?xs @ replicate n 0"
    proof -
      have "{?m..<?m + sz} \<inter> {q..<q + (sz + n)} = {}" using d new(1) by blast
      then have "bytes (phys ?t) q (sz + n) = bytes (put q (?xs @ replicate n 0) (phys s)) q (sz + n)"
        by (intro bytes_cong) (auto simp: memset_phys_def Let_def)
      then show ?thesis using bytes_put [of q "?xs @ replicate n 0" "phys s"] by simp
    qed
    ultimately show ?thesis using new h'(3) by (intro exI [of _ 0] exI [of _ ?t]) (auto intro!: exI [of _ q])
  qed
qed



section \<open>Exit and wait\<close>

text \<open>\<^verbatim>\<open>wakeup1\<close> on a channel that may be the null pointer.\<close>

definition wakeup1_ptr :: "chan option \<Rightarrow> ('z) kproc_scheme \<Rightarrow> ('z) kproc_scheme" where
  "wakeup1_ptr c s = s\<lparr>procs := map (\<lambda>p. if pstate p = SLEEPING \<and> pchan p = c then p\<lparr>pstate := RUNNABLE\<rparr> else p) (procs s)\<rparr>"

text \<open>Passing the children on to the first process.\<close>

definition reparent1 :: "nat \<Rightarrow> ('z) kproc_scheme \<Rightarrow> ('z) kproc_scheme" where
  "reparent1 i s =
     (if parent (procs s ! i) = cur s then
        let s = upd_proc i (\<lambda>p. p\<lparr>parent := initproc s\<rparr>) s in
        if pstate (procs s ! i) = ZOMBIE then wakeup1_ptr (map_option ChProc (initproc s)) s else s
      else s)"

definition reparent :: "('z) kproc_scheme \<Rightarrow> ('z) kproc_scheme" where
  "reparent s = fold reparent1 [0..<length (procs s)] s"

text \<open>The part of \<^verbatim>\<open>exit\<close> that works on the process table, up to the switch to the
  scheduler; a zombie is never switched back to.\<close>

definition exit_sched :: "('z) kproc_scheme \<Rightarrow> (unit, ('z) kproc_scheme) res" where
  "exit_sched s = bindr (acquire PtableLock s) (\<lambda>_ s.
     let s = wakeup1_ptr (map_option ChProc (parent (cproc s))) s; s = reparent s
     in sched_out (upd_proc (cp s) (\<lambda>p. p\<lparr>killed := 0, pstate := ZOMBIE\<rparr>) s))"

text \<open>One turn of the loop of \<^verbatim>\<open>wait\<close>; the first zombie child in table order is reaped.\<close>

definition zombie_child :: "nat option \<Rightarrow> proc \<Rightarrow> bool" where
  "zombie_child me p \<longleftrightarrow> parent p = me \<and> pstate p = ZOMBIE"

definition reap :: "nat \<Rightarrow> ('z) kproc_scheme \<Rightarrow> (int, ('z) kproc_scheme) res" where
  "reap i s =
     bindr (kfree (pmem (procs s ! i)) (sint (psz (procs s ! i))) s) (\<lambda>_ s.
     bindr (kfree (kstack (procs s ! i)) (int KSTACKSIZE) s) (\<lambda>_ s.
       let n = pid (procs s ! i);
           s = upd_proc i (\<lambda>p. p\<lparr>pstate := UNUSED, pid := 0, parent := None, pname := []\<rparr>) s
       in bindr (release PtableLock s) (\<lambda>_ s. Ok n s)))"

definition wait_loop :: "('z) kproc_scheme \<Rightarrow> (int, ('z) kproc_scheme) res" where
  "wait_loop s =
     (case first_index (zombie_child (cur s)) (procs s) of
        Some i \<Rightarrow> reap i s
      | None \<Rightarrow>
          if \<not> list_ex (\<lambda>p. pstate p \<noteq> UNUSED \<and> parent p = cur s) (procs s) \<or> killed (cproc s) \<noteq> 0
          then bindr (release PtableLock s) (\<lambda>_ s. Ok (-1) s)
          else bindr (sleep_out (ChProc (cp s)) PtableLock s) (\<lambda>_ s. Sleep (ChProc (cp s)) 0 s))"

definition wait :: "('z) kproc_scheme \<Rightarrow> (int, ('z) kproc_scheme) res" where
  "wait s = bindr (acquire PtableLock s) (\<lambda>_ s. wait_loop s)"

definition wait_resume :: "('z) kproc_scheme \<Rightarrow> (int, ('z) kproc_scheme) res" where
  "wait_resume s = bindr (sleep_in PtableLock s) (\<lambda>_ s. wait_loop s)"

section \<open>Scheduling\<close>

text \<open>
  One processor: either the scheduler is at table index \<open>k\<close> of its scan, or process \<open>i\<close> has
  been switched to.  A process, once resumed, executes kernel operations and finally
  gives up the processor in \<^verbatim>\<open>yield\<close>, \<^verbatim>\<open>sleep\<close> or \<^verbatim>\<open>exit\<close>.  Everything that leaves
  the states of the processes alone (user code, files, memory) is one kind of operation;
  \<^verbatim>\<open>fork\<close> and \<^verbatim>\<open>userinit\<close> end with the new process runnable, or give its slot back.
  The list of a path records the dispatches and the ends of rounds.
\<close>

datatype loc = Scan nat | Run nat
datatype sevent = Disp nat | Round

inductive kernel_op :: "('z) kproc_scheme \<Rightarrow> ('z) kproc_scheme \<Rightarrow> bool" where
  resume_yield: "yield_in s = Ok x t \<Longrightarrow> kernel_op s t"
| resume_sleep: "sleep_in l s = Ok x t \<Longrightarrow> kernel_op s t"
| resume_fork: "forkret s = Ok f t \<Longrightarrow> kernel_op s t"
| op_wakeup: "wakeup c s = Ok x t \<Longrightarrow> kernel_op s t"
| op_kill: "kill n s = Ok r t \<Longrightarrow> kernel_op s t"
| op_alloc: "allocproc fr s = Ok ro t \<Longrightarrow> kernel_op s t"
| op_grow: "growproc n s = Ok r t \<Longrightarrow> kernel_op s t"
| op_lock: "acquire l s = Ok x t \<Longrightarrow> kernel_op s t"
| op_unlock: "release l s = Ok x t \<Longrightarrow> kernel_op s t"
| op_wait: "wait s = Ok r t \<Longrightarrow> kernel_op s t"
| resume_wait: "wait_resume s = Ok r t \<Longrightarrow> kernel_op s t"
| op_child: "i < length (procs s) \<Longrightarrow> pstate (procs s ! i) = EMBRYO \<Longrightarrow> x \<in> {RUNNABLE, UNUSED} \<Longrightarrow>
    kernel_op s (upd_proc i (\<lambda>p. p\<lparr>pstate := x\<rparr>) s)"
| op_other: "cur t = cur s \<Longrightarrow> map pstate (procs t) = map pstate (procs s) \<Longrightarrow> kernel_op s t"

inductive gives_up :: "('z) kproc_scheme \<Rightarrow> ('z) kproc_scheme \<Rightarrow> bool" where
  "yield_out s = Ok x t \<Longrightarrow> gives_up s t"
| "sleep_out c l s = Ok x t \<Longrightarrow> gives_up s t"
| "exit_sched s = Ok x t \<Longrightarrow> gives_up s t"

inductive sched_path :: "loc \<Rightarrow> ('z) kproc_scheme \<Rightarrow> sevent list \<Rightarrow> loc \<Rightarrow> ('z) kproc_scheme \<Rightarrow> bool" where
  start: "sched_path l s [] l s"
| pick: "sched_path l s tr (Scan k) t \<Longrightarrow> scan k t = Some i \<Longrightarrow> dispatch i t = Ok x u \<Longrightarrow>
    sched_path l s (tr @ [Disp i]) (Run i) u"
| round: "sched_path l s tr (Scan k) t \<Longrightarrow> scan k t = None \<Longrightarrow> next_round t = Ok x u \<Longrightarrow>
    sched_path l s (tr @ [Round]) (Scan 0) u"
| resched: "sched_path l s tr (Run i) t \<Longrightarrow> kernel_op\<^sup>*\<^sup>* t u \<Longrightarrow> gives_up u v \<Longrightarrow> dispatched v = Ok x w \<Longrightarrow>
    sched_path l s tr (Scan (i + 1)) w"

text \<open>No kernel operation takes the processor from a runnable process other than the
  current one.\<close>

definition keeps_runnable :: "('z) kproc_scheme \<Rightarrow> ('z) kproc_scheme \<Rightarrow> bool" where
  "keeps_runnable s t \<longleftrightarrow> cur t = cur s \<and> length (procs t) = length (procs s) \<and>
     (\<forall>j < length (procs s). cur s \<noteq> Some j \<longrightarrow> pstate (procs s ! j) = RUNNABLE \<longrightarrow>
        pstate (procs t ! j) = RUNNABLE)"

lemma keeps_runnable_refl: "cur t = cur s \<Longrightarrow> procs t = procs s \<Longrightarrow> keeps_runnable s t"
  by (simp add: keeps_runnable_def)

lemma keeps_runnable_trans: "keeps_runnable s t \<Longrightarrow> keeps_runnable t u \<Longrightarrow> keeps_runnable s u"
  by (simp add: keeps_runnable_def)

lemma keeps_runnable_upd:
  assumes "keeps_runnable s t"
    and "cur s = Some i \<or> (i < length (procs t) \<longrightarrow> pstate (procs t ! i) = RUNNABLE \<longrightarrow>
           pstate (f (procs t ! i)) = RUNNABLE)"
  shows "keeps_runnable s (upd_proc i f t)"
proof -
  have "pstate ((procs t)[i := f (procs t ! i)] ! j) = RUNNABLE"
    if "j < length (procs s)" "cur s \<noteq> Some j" "pstate (procs s ! j) = RUNNABLE" for j
    using that assms by (cases "i = j") (auto simp: keeps_runnable_def)
  with assms(1) show ?thesis by (simp add: keeps_runnable_def)
qed

lemmas sel_lock_ops = cur_s.sel_acquire procs_s.sel_acquire cur_s.sel_release procs_s.sel_release
  cur_s.sel_popcli procs_s.sel_popcli

lemma keeps_runnable_lock:
  "acquire l s = Ok x t \<Longrightarrow> keeps_runnable s t" "release l s = Ok x t \<Longrightarrow> keeps_runnable s t"
  by (auto intro!: keeps_runnable_refl dest: sel_lock_ops)

lemma keeps_runnable_usegment: "usegment s = Ok x t \<Longrightarrow> keeps_runnable s t"
  by (auto simp: usegment_def intro!: keeps_runnable_refl dest: sel_lock_ops)

lemma keeps_runnable_wakeup1: "keeps_runnable s (wakeup1 c s)"
  by (simp add: keeps_runnable_def wakeup1_def wake_def)

lemma keeps_runnable_wakeup: "wakeup c s = Ok x t \<Longrightarrow> keeps_runnable s t"
  unfolding wakeup_def
  by (blast elim!: bindr_OkE intro: keeps_runnable_trans keeps_runnable_lock keeps_runnable_wakeup1)

lemma keeps_runnable_kill:
  assumes "kill n s = Ok r t"
  shows "keeps_runnable s t"
proof -
  obtain u where u: "acquire PtableLock s = Ok () u" using assms
    by (auto simp: kill_def bindr_eq_Ok_iff)
  have su: "keeps_runnable s u" using u by (rule keeps_runnable_lock)
  show ?thesis
  proof (cases "first_index (\<lambda>p. pid p = n) (procs u)")
    case None
    with assms u show ?thesis
      by (auto simp: kill_def bindr_eq_Ok_iff intro: keeps_runnable_trans [OF su] keeps_runnable_lock)
  next
    case (Some i)
    let ?v = "upd_proc i (\<lambda>p. p\<lparr>killed := 1\<rparr>) u"
    let ?w = "if pstate (procs ?v ! i) = SLEEPING then upd_proc i (\<lambda>p. p\<lparr>pstate := RUNNABLE\<rparr>) ?v else ?v"
    have "keeps_runnable s ?v" by (rule keeps_runnable_upd [OF su]) simp
    then have w: "keeps_runnable s ?w" by (auto intro!: keeps_runnable_upd)
    have "release PtableLock ?w = Ok () t" using assms u Some
      by (auto simp: kill_def bindr_eq_Ok_iff Let_def)
    with w show ?thesis by (blast intro: keeps_runnable_trans keeps_runnable_lock)
  qed
qed

lemma keeps_runnable_kmem:
  "kalloc n s = Ok p t \<Longrightarrow> keeps_runnable s t" "kfree v n s = Ok x t \<Longrightarrow> keeps_runnable s t"
  by (auto intro!: keeps_runnable_refl dest: procs_s.sel_kalloc cur_s.sel_kalloc procs_s.sel_kfree cur_s.sel_kfree)

lemma keeps_runnable_alloc:
  assumes "allocproc fr s = Ok r t"
  shows "keeps_runnable s t"
proof -
  obtain u where u: "acquire PtableLock s = Ok () u" using assms
    by (auto simp: allocproc_def bindr_eq_Ok_iff)
  have su: "keeps_runnable s u" using u by (rule keeps_runnable_lock)
  show ?thesis
  proof (cases "first_index (\<lambda>p. pstate p = UNUSED) (procs u)")
    case None
    with assms u show ?thesis
      by (auto simp: allocproc_def bindr_eq_Ok_iff intro: keeps_runnable_trans [OF su] keeps_runnable_lock)
  next
    case (Some i)
    have i: "i < length (procs u)" "pstate (procs u ! i) = UNUSED" using first_index_SomeD [OF Some] by auto
    let ?v = "(upd_proc i (\<lambda>p. p\<lparr>pstate := EMBRYO, pid := nextpid u\<rparr>) u)\<lparr>nextpid := nextpid u + 1\<rparr>"
    from assms u Some obtain w ks y where w: "release PtableLock ?v = Ok () w"
      "kalloc (int KSTACKSIZE) w = Ok ks y"
      "t = (if ks = 0 then upd_proc i (\<lambda>p. p\<lparr>pstate := UNUSED\<rparr>) (upd_proc i (\<lambda>p. p\<lparr>kstack := ks\<rparr>) y)
            else (upd_proc i (\<lambda>p. p\<lparr>tf := ks + KSTACKSIZE - 76, pcontext := ks + KSTACKSIZE - 76 - 20\<rparr>)
              (upd_proc i (\<lambda>p. p\<lparr>kstack := ks\<rparr>) y))\<lparr>ctxs :=
                (ctxs y)(ks + KSTACKSIZE - 76 - 20 := zero_ctx\<lparr>ceip := fr\<rparr>)\<rparr>)"
      by (auto simp: allocproc_def bindr_eq_Ok_iff Let_def split: if_splits)
    have y: "procs y = procs ?v" "cur y = cur u"
      using procs_s.sel_kalloc [OF w(2)] cur_s.sel_kalloc [OF w(2)]
        procs_s.sel_release [OF w(1)] cur_s.sel_release [OF w(1)] by simp_all
    have "j \<noteq> i" if "pstate (procs u ! j) = RUNNABLE" for j using that i(2) by auto
    moreover have "cur t = cur u" "length (procs t) = length (procs u)"
      using y w(3) by (simp_all split: if_splits)
    moreover have "procs t ! j = procs u ! j" if "j \<noteq> i" for j
      using that y w(3) by (simp split: if_splits)
    ultimately have "keeps_runnable u t" by (simp add: keeps_runnable_def)
    then show ?thesis by (rule keeps_runnable_trans [OF su])
  qed
qed

lemma keeps_runnable_grow:
  assumes "growproc n s = Ok r t"
  shows "keeps_runnable s t"
proof -
  obtain m u where u: "kalloc (sint (psz (cproc s) + word_of_int n)) s = Ok m u"
    using assms by (auto simp: growproc_def bindr_eq_Ok_iff)
  have su: "keeps_runnable s u" using u by (rule keeps_runnable_kmem)
  show ?thesis
  proof (cases "m = 0")
    case True
    with assms u su show ?thesis by (simp add: growproc_def)
  next
    case False
    let ?p = "cproc u" and ?n = "unat (word_of_int n :: u32)"
    let ?v = "u\<lparr>phys := snd (memset (m + unat (psz ?p)) 0 ?n (snd (memmove m (pmem ?p) (unat (psz ?p)) (phys u))))\<rparr>"
    from assms u False obtain w where w: "kfree (pmem ?p) (sint (psz ?p)) ?v = Ok () w"
      "usegment (upd_proc (cp w) (\<lambda>p. p\<lparr>pmem := m, psz := psz p + word_of_int n\<rparr>) w) = Ok () t"
      by (auto simp: growproc_def bindr_eq_Ok_iff Let_def)
    have "keeps_runnable u ?v" by (rule keeps_runnable_refl) simp_all
    then have "keeps_runnable s w"
      using su w(1) by (blast intro: keeps_runnable_trans keeps_runnable_kmem)
    then have "keeps_runnable s (upd_proc (cp w) (\<lambda>p. p\<lparr>pmem := m, psz := psz p + word_of_int n\<rparr>) w)"
      by (rule keeps_runnable_upd) simp
    with w(2) show ?thesis by (blast intro: keeps_runnable_trans keeps_runnable_usegment)
  qed
qed

lemma keeps_runnable_sched_in: "keeps_runnable s (sched_in s)"
  by (rule keeps_runnable_refl) (simp_all add: sched_in_def)

lemma keeps_runnable_sleep_in:
  assumes "sleep_in l s = Ok x t"
  shows "keeps_runnable s t"
proof -
  have "keeps_runnable s (upd_proc (cp (sched_in s)) (\<lambda>p. p\<lparr>pchan := None\<rparr>) (sched_in s))"
    by (rule keeps_runnable_upd [OF keeps_runnable_sched_in]) simp
  with assms show ?thesis unfolding sleep_in_def Let_def
    by (auto split: if_splits elim!: bindr_OkE) (blast intro: keeps_runnable_trans keeps_runnable_lock)
qed

lemma keeps_runnable_reap:
  assumes "reap i s = Ok r t" and "pstate (procs s ! i) = ZOMBIE"
  shows "keeps_runnable s t"
proof -
  let ?f = "\<lambda>p. p\<lparr>pstate := UNUSED, pid := 0, parent := None, pname := []\<rparr>"
  from assms(1) obtain u v where uv: "kfree (pmem (procs s ! i)) (sint (psz (procs s ! i))) s = Ok () u"
    "kfree (kstack (procs u ! i)) (int KSTACKSIZE) u = Ok () v"
    "release PtableLock (upd_proc i ?f v) = Ok () t"
    by (auto simp: reap_def bindr_eq_Ok_iff Let_def)
  have "keeps_runnable s v" using uv by (blast intro: keeps_runnable_trans keeps_runnable_kmem)
  moreover have "procs v = procs s" using uv by (auto dest!: procs_s.sel_kfree)
  ultimately have "keeps_runnable s (upd_proc i ?f v)" using assms(2) by (intro keeps_runnable_upd) simp_all
  with uv(3) show ?thesis by (blast intro: keeps_runnable_trans keeps_runnable_lock)
qed

lemma keeps_runnable_wait_loop: "wait_loop s = Ok r t \<Longrightarrow> keeps_runnable s t"
  by (auto simp: wait_loop_def zombie_child_def bindr_eq_Ok_iff dest!: first_index_SomeD
    split: option.splits if_splits intro: keeps_runnable_reap keeps_runnable_lock)

lemma keeps_runnable_wait:
  "wait s = Ok r t \<Longrightarrow> keeps_runnable s t" "wait_resume s = Ok r t \<Longrightarrow> keeps_runnable s t"
  unfolding wait_def wait_resume_def
  by (blast elim!: bindr_OkE intro: keeps_runnable_trans keeps_runnable_lock keeps_runnable_wait_loop
    keeps_runnable_sleep_in)+

lemma keeps_runnable_states:
  assumes "cur t = cur s" and "map pstate (procs t) = map pstate (procs s)"
  shows "keeps_runnable s t"
proof -
  have "length (procs t) = length (procs s)" using assms(2) by (rule map_eq_imp_length_eq)
  moreover have "pstate (procs t ! j) = pstate (procs s ! j)" if "j < length (procs s)" for j
    using assms(2) that calculation by (metis nth_map)
  ultimately show ?thesis using assms(1) by (simp add: keeps_runnable_def)
qed

lemma kernel_op_keeps: "kernel_op s t \<Longrightarrow> keeps_runnable s t"
proof (induction rule: kernel_op.induct)
  case (resume_yield s x t)
  then show ?case unfolding yield_in_def
    by (blast intro: keeps_runnable_trans keeps_runnable_lock keeps_runnable_sched_in)
next
  case (resume_fork s f t)
  then show ?case unfolding forkret_def by (auto elim!: bindr_OkE intro: keeps_runnable_lock)
next
  case (op_child i s x)
  then show ?case by (intro keeps_runnable_upd [OF keeps_runnable_refl]) auto
qed (blast intro: keeps_runnable_sleep_in keeps_runnable_wait keeps_runnable_states keeps_runnable_wakeup keeps_runnable_kill keeps_runnable_alloc keeps_runnable_grow
    keeps_runnable_lock)+

lemma kernel_ops_keep: "kernel_op\<^sup>*\<^sup>* s t \<Longrightarrow> keeps_runnable s t"
  by (induction rule: rtranclp_induct)
    (auto intro: keeps_runnable_refl keeps_runnable_trans kernel_op_keeps)

lemma sched_out_keeps: "sched_out s = Ok x t \<Longrightarrow> keeps_runnable s t"
  by (auto simp: sched_out_def split: if_splits intro!: keeps_runnable_upd [OF keeps_runnable_refl])

lemma reparent_keeps: "keeps_runnable s (reparent s)"
proof -
  have wake: "keeps_runnable t (wakeup1_ptr c t)" for t :: "'a kproc_scheme" and c
    by (simp add: keeps_runnable_def wakeup1_ptr_def)
  have "keeps_runnable t (reparent1 i t)" for t :: "'a kproc_scheme" and i
    using keeps_runnable_upd [OF keeps_runnable_refl, of t t i "\<lambda>p. p\<lparr>parent := initproc t\<rparr>"]
    by (auto simp: reparent1_def Let_def intro: keeps_runnable_refl keeps_runnable_trans wake)
  then have "keeps_runnable t (fold reparent1 is t)" for t :: "'a kproc_scheme" and "is"
    by (induction "is" arbitrary: t) (auto intro: keeps_runnable_refl keeps_runnable_trans)
  then show ?thesis by (simp add: reparent_def)
qed

lemma gives_up_keeps:
  assumes "gives_up s t" and "cur s = Some i"
  shows "keeps_runnable s t"
  using assms(1)
proof cases
  case 1
  then obtain u where u: "acquire PtableLock s = Ok () u"
    "sched_out (upd_proc (cp u) (\<lambda>p. p\<lparr>pstate := RUNNABLE\<rparr>) u) = Ok () t"
    by (auto simp: yield_out_def bindr_eq_Ok_iff)
  have "keeps_runnable s (upd_proc (cp u) (\<lambda>p. p\<lparr>pstate := RUNNABLE\<rparr>) u)"
    by (rule keeps_runnable_upd [OF keeps_runnable_lock(1) [OF u(1)]]) simp
  with u(2) show ?thesis by (blast intro: keeps_runnable_trans sched_out_keeps)
next
  case (2 c l)
  then obtain u where u: "(if l \<noteq> PtableLock then bindr (acquire PtableLock s) (\<lambda>_ s. release l s) else Ok () s) = Ok () u"
    "sched_out (upd_proc (cp u) (\<lambda>p. p\<lparr>pchan := Some c, pstate := SLEEPING\<rparr>) u) = Ok () t"
    by (auto simp: sleep_out_def bindr_eq_Ok_iff split: if_splits)
  have su: "keeps_runnable s u" using u(1)
    by (auto split: if_splits elim!: bindr_OkE intro: keeps_runnable_trans keeps_runnable_lock keeps_runnable_refl)
  then have "cp u = i" using assms(2) by (simp add: keeps_runnable_def cp_def)
  then have "keeps_runnable s (upd_proc (cp u) (\<lambda>p. p\<lparr>pchan := Some c, pstate := SLEEPING\<rparr>) u)"
    using assms(2) by (intro keeps_runnable_upd [OF su]) simp
  with u(2) show ?thesis by (blast intro: keeps_runnable_trans sched_out_keeps)
next
  case 3
  then obtain u where u: "acquire PtableLock s = Ok () u" by (auto simp: exit_sched_def bindr_eq_Ok_iff)
  let ?v = "reparent (wakeup1_ptr (map_option ChProc (parent (cproc u))) u)"
  have t: "sched_out (upd_proc (cp ?v) (\<lambda>p. p\<lparr>killed := 0, pstate := ZOMBIE\<rparr>) ?v) = Ok () t"
    using 3 u by (simp add: exit_sched_def Let_def)
  have "keeps_runnable u (wakeup1_ptr c u)" for c by (simp add: keeps_runnable_def wakeup1_ptr_def)
  then have v: "keeps_runnable s ?v"
    using keeps_runnable_lock(1) [OF u] by (blast intro: keeps_runnable_trans reparent_keeps)
  then have "cp ?v = i" using assms(2) by (simp add: keeps_runnable_def cp_def)
  then have "keeps_runnable s (upd_proc (cp ?v) (\<lambda>p. p\<lparr>killed := 0, pstate := ZOMBIE\<rparr>) ?v)"
    using assms(2) by (intro keeps_runnable_upd [OF v]) simp
  with t show ?thesis by (blast intro: keeps_runnable_trans sched_out_keeps)
qed

lemma dispatch_keeps:
  assumes "dispatch i s = Ok x t"
  shows "cur t = Some i" and "length (procs t) = length (procs s)"
    and "j \<noteq> i \<Longrightarrow> procs t ! j = procs s ! j"
proof -
  obtain u where u: "popcli (useg (pushcli (s\<lparr>cur := Some i\<rparr>))) = Ok () u"
    "t = upd_proc i (\<lambda>p. p\<lparr>pstate := RUNNING\<rparr>) u"
    using assms by (auto simp: dispatch_def usegment_def bindr_eq_Ok_iff)
  from cur_s.sel_popcli [OF u(1)] procs_s.sel_popcli [OF u(1)] u(2)
  show "cur t = Some i" "length (procs t) = length (procs s)" "j \<noteq> i \<Longrightarrow> procs t ! j = procs s ! j"
    by simp_all
qed

lemma dispatched_keeps: "dispatched s = Ok x t \<Longrightarrow> procs t = procs s"
  by (auto simp: dispatched_def usegment_def dest!: procs_s.sel_popcli)

lemma next_round_keeps: "next_round s = Ok x t \<Longrightarrow> procs t = procs s"
  by (auto simp: next_round_def bindr_eq_Ok_iff dest!: procs_s.sel_acquire procs_s.sel_release)

lemma scan_Some: "scan k s = Some i \<Longrightarrow> k \<le> i \<and> i < length (procs s) \<and> pstate (procs s ! i) = RUNNABLE \<and>
    (\<forall>j. k \<le> j \<and> j < i \<longrightarrow> pstate (procs s ! j) \<noteq> RUNNABLE)"
proof -
  assume "scan k s = Some i"
  then obtain m where m: "i = k + m" "first_index (\<lambda>p. pstate p = RUNNABLE) (drop k (procs s)) = Some m"
    by (auto simp: scan_def)
  from m(2) have "m < length (procs s) - k" "pstate (drop k (procs s) ! m) = RUNNABLE"
    "\<forall>j < m. pstate (drop k (procs s) ! j) \<noteq> RUNNABLE" by (auto simp: first_index_Some_iff)
  moreover have "pstate (procs s ! j) \<noteq> RUNNABLE" if "k \<le> j" "j < i" for j
    using calculation(3) [rule_format, of "j - k"] that m(1) calculation(1) by auto
  ultimately show ?thesis using m(1) by auto
qed

lemma scan_None:
  assumes "scan k s = None" and "k \<le> j" and "j < length (procs s)"
  shows "pstate (procs s ! j) \<noteq> RUNNABLE"
proof -
  have "drop k (procs s) ! (j - k) \<in> set (drop k (procs s))" using assms(2,3) by (intro nth_mem) simp
  then have "procs s ! j \<in> set (drop k (procs s))" using assms(2,3) by simp
  with assms(1) show ?thesis by (simp add: scan_def first_index_None_iff)
qed

text \<open>While process \<open>j\<close> waits, the scan, which started at \<open>k\<close>, has not passed it in this
  round, or in the next one when the scan started behind it; no process has been
  dispatched twice.\<close>

definition dispatched_in :: "sevent list \<Rightarrow> nat set" where
  "dispatched_in tr = {i. Disp i \<in> set tr}"

definition scan_pos :: "loc \<Rightarrow> nat" where
  "scan_pos l = (case l of Scan m \<Rightarrow> m | Run i \<Rightarrow> Suc i)"

definition waiting :: "nat \<Rightarrow> nat \<Rightarrow> nat \<Rightarrow> sevent list \<Rightarrow> loc \<Rightarrow> ('z) kproc_scheme \<Rightarrow> bool" where
  "waiting n k j tr l s \<longleftrightarrow> length (procs s) = n \<and> j < n \<and> pstate (procs s ! j) = RUNNABLE \<and> distinct tr \<and>
     (if Round \<in> set tr then j < k \<and> scan_pos l \<le> j \<and> dispatched_in tr \<subseteq> {k..<n} \<union> {..<scan_pos l}
      else k \<le> scan_pos l \<and> (k \<le> j \<longrightarrow> scan_pos l \<le> j) \<and> dispatched_in tr \<subseteq> {k..<min n (scan_pos l)}) \<and>
     (\<forall>i. l = Run i \<longrightarrow> cur s = Some i \<and> Disp i \<in> set tr)"

lemma dispatched_in_simps [simp]:
  "dispatched_in [] = {}" "dispatched_in (tr @ [Disp i]) = insert i (dispatched_in tr)"
  "dispatched_in (tr @ [Round]) = dispatched_in tr"
  by (auto simp: dispatched_in_def)

lemma waiting_pick:
  assumes w: "waiting n k j tr (Scan m) t" and i: "scan m t = Some i" "i \<noteq> j" "dispatch i t = Ok x u"
  shows "waiting n k j (tr @ [Disp i]) (Run i) u"
proof -
  have m: "m \<le> i" "i < n" "\<not> (m \<le> j \<and> j < i)" using scan_Some [OF i(1)] w by (auto simp: waiting_def)
  have new: "Disp i \<notin> set tr" using w m by (auto simp: waiting_def scan_pos_def dispatched_in_def split: if_splits)
  show ?thesis
  proof (cases "Round \<in> set tr")
    case True
    with w m i(2) new dispatch_keeps [OF i(3)] show ?thesis
      by (auto simp: waiting_def scan_pos_def)
  next
    case False
    with w m i(2) new dispatch_keeps [OF i(3)] show ?thesis
      by (auto simp: waiting_def scan_pos_def)
  qed
qed

lemma waiting_round:
  assumes w: "waiting n k j tr (Scan m) t" and r: "scan m t = None" "next_round t = Ok x u"
  shows "waiting n k j (tr @ [Round]) (Scan 0) u"
proof -
  have "\<not> m \<le> j" using scan_None [OF r(1), of j] w by (auto simp: waiting_def)
  with w next_round_keeps [OF r(2)] show ?thesis
    by (auto simp: waiting_def scan_pos_def split: if_splits)
qed

lemma sched_path_waiting:
  assumes "sched_path (Scan k) s tr l t" and "waiting n k j [] (Scan k) s" and "Disp j \<notin> set tr"
  shows "waiting n k j tr l t"
  using assms
proof (induction "Scan k" s tr l t rule: sched_path.induct)
  case (start s)
  then show ?case by simp
next
  case (pick s tr m t i x u)
  then show ?case by (intro waiting_pick) auto
next
  case (round s tr m t x u)
  then show ?case by (intro waiting_round) auto
next
  case (resched s tr i t u v x w)
  then have wt: "waiting n k j tr (Run i) t" by auto
  have tu: "keeps_runnable t u" by (rule kernel_ops_keep [OF resched.hyps(3)])
  then have "cur u = Some i" using wt by (simp add: waiting_def keeps_runnable_def)
  with gives_up_keeps [OF resched.hyps(4)] have tv: "keeps_runnable t v"
    using tu by (blast intro: keeps_runnable_trans)
  have "i \<noteq> j" using wt resched.prems(2) by (auto simp: waiting_def)
  then have "length (procs w) = length (procs t)" "pstate (procs w ! j) = RUNNABLE"
    using wt tv dispatched_keeps [OF resched.hyps(5)] by (simp_all add: waiting_def keeps_runnable_def)
  moreover have "scan_pos (Scan (i + 1)) = scan_pos (Run i)" by (simp add: scan_pos_def)
  ultimately show ?case using wt unfolding waiting_def by simp
qed

text \<open>The trace of a waiting process is short.\<close>

lemma waiting_length:
  assumes "waiting n k j tr l s" and "Disp j \<notin> set tr"
  shows "length tr \<le> n"
proof -
  have "dispatched_in tr \<subseteq> {..<n} - {j}" using assms
    by (auto simp: waiting_def dispatched_in_def split: if_splits)
  moreover have "x \<in> insert Round (Disp ` dispatched_in tr)" if "x \<in> set tr" for x
    using that by (cases x rule: sevent.exhaust) (auto simp: dispatched_in_def)
  ultimately have "set tr \<subseteq> insert Round (Disp ` ({..<n} - {j}))" by blast
  then have "card (set tr) \<le> card (insert Round (Disp ` ({..<n} - {j})))" by (rule card_mono [rotated]) simp
  also have "\<dots> \<le> Suc (card (Disp ` ({..<n} - {j})))" by (rule card_insert_le_m1) auto
  also have "\<dots> \<le> Suc (card ({..<n} - {j}))" using card_image_le [of "{..<n} - {j}" Disp] by simp
  also have "\<dots> = n" using assms(1) by (simp add: waiting_def)
  finally show ?thesis using assms(1) by (simp add: waiting_def distinct_card)
qed

text \<open>The scheduler itself is never stuck.\<close>

lemma next_round_ok:
  assumes "held PtableLock s" and "ncli (this_cpu s) = 1"
  shows "\<exists>t. next_round s = Ok () t"
proof -
  have "is_free PtableLock (sti (unlock PtableLock s))"
    using assms by (simp add: is_free_def cpu_ok_def mach_unfold Let_def)
  then show ?thesis using release_held [OF assms(1)] acquire_free by (auto simp: next_round_def)
qed

lemma scheduler_steps:
  assumes "sched_path l s tr (Scan m) t" and "held PtableLock t" and "ncli (this_cpu t) = 1"
  shows "\<exists>e l' u. sched_path l s (tr @ [e]) l' u"
proof (cases "scan m t")
  case None
  with next_round_ok [OF assms(2,3)] sched_path.round [OF assms(1)] show ?thesis by blast
next
  case (Some i)
  have "cpu_ok (t\<lparr>cur := Some i\<rparr>)" using held_cpu_ok [OF assms(2)] by simp
  then have "\<exists>u. dispatch i t = Ok () u" using usegment_ok [of "t\<lparr>cur := Some i\<rparr>"] by (simp add: dispatch_def)
  with Some sched_path.pick [OF assms(1)] show ?thesis by blast
qed

text \<open>
  C7: the scheduler is fair, on one processor.  Let process \<open>j\<close> be runnable, wherever the
  scan of the table stands.  As long as an execution has not dispatched \<open>j\<close>, whatever the
  dispatched processes do before they give up the processor in \<^verbatim>\<open>yield\<close>, \<^verbatim>\<open>sleep\<close> or
  \<^verbatim>\<open>exit\<close>, it stays runnable, no process has been dispatched twice and at most one round
  has ended, so that fewer than \<^verbatim>\<open>NPROC\<close> dispatches have happened; and when the
  processor is back at the scheduler, which holds only the lock of the table, the
  scheduler does dispatch a process or end the round.
\<close>

theorem scheduler_fair:
  assumes "sched_path (Scan k) s tr l t" and "j < length (procs s)"
    and "pstate (procs s ! j) = RUNNABLE"
  shows "Disp j \<in> set tr \<or>
    pstate (procs t ! j) = RUNNABLE \<and> distinct tr \<and> length tr \<le> length (procs s) \<and>
    (held PtableLock t \<and> ncli (this_cpu t) = 1 \<and> (\<exists>m. l = Scan m) \<longrightarrow>
       (\<exists>e l' u. sched_path (Scan k) s (tr @ [e]) l' u))"
proof (cases "Disp j \<in> set tr")
  case False
  have "waiting (length (procs s)) k j [] (Scan k) s"
    using assms(2,3) by (simp add: waiting_def scan_pos_def)
  then have w: "waiting (length (procs s)) k j tr l t" using assms(1) False by (blast intro: sched_path_waiting)
  then have "pstate (procs t ! j) = RUNNABLE" "distinct tr" by (simp_all add: waiting_def)
  with waiting_length [OF w False] scheduler_steps assms(1) show ?thesis by blast
qed simp

definition kproc1 :: kproc where
  "kproc1 = lock_st PtableLock (kproc0\<lparr>cur := None, procs := (procs kproc0)
     [1 := proc_unused\<lparr>pstate := RUNNABLE\<rparr>, 2 := proc_unused\<lparr>pstate := RUNNABLE\<rparr>]\<rparr>)"

lemma kproc1_procs: "procs kproc1 = (procs kproc0)
     [1 := proc_unused\<lparr>pstate := RUNNABLE\<rparr>, 2 := proc_unused\<lparr>pstate := RUNNABLE\<rparr>]"
  by (simp add: kproc1_def)

theorem scheduler_fair_witness:
  "\<exists>t. sched_path (Scan 0) kproc1 [Disp 1] (Run 1) t \<and> pstate (procs t ! 2) = RUNNABLE"
proof -
  have "held PtableLock kproc1" unfolding kproc1_def using kproc0_free by (intro held_lock_st) simp
  then have ok: "cpu_ok (kproc1\<lparr>cur := Some 1\<rparr>)" by (simp add: held_cpu_ok)
  have "scan 0 kproc1 = Some 1" by (simp add: scan_def kproc1_procs kproc0_procs)
  then obtain t where t: "sched_path (Scan 0) kproc1 ([] @ [Disp 1]) (Run 1) t"
    using sched_path.pick [OF sched_path.start, of 0 kproc1 1] usegment_ok [OF ok]
    by (auto simp: dispatch_def)
  have "pstate (procs kproc1 ! 2) = RUNNABLE" "2 < length (procs kproc1)"
    by (simp_all add: kproc1_procs)
  from scheduler_fair [OF t this(2,1)] t show ?thesis by auto
qed

end
