(* ===== verification/Sleepwake.thy ===== *)
theory Sleepwake
  imports Sched
begin

text \<open>
  The protocol of \<^verbatim>\<open>sleep\<close> and \<^verbatim>\<open>wakeup\<close> of \<^verbatim>\<open>src/proc.c\<close> on two processors, as a step
  relation over the single locked actions of the two functions, and the proof that no
  wakeup is lost and the two locks do not deadlock.
\<close>

section \<open>The protocol\<close>

text \<open>
  Two processors.  On one, a process waits for a condition under a lock, in the loop
  \<^verbatim>\<open>acquire(lk); while(!cond) sleep(chan, lk); release(lk)\<close>.  On the other, a process makes
  the condition true, in \<^verbatim>\<open>acquire(lk); cond = 1; wakeup(chan); release(lk)\<close>.  Each step of
  the relation is one locked action of \<^verbatim>\<open>sleep\<close>, \<^verbatim>\<open>wakeup\<close> or the scheduler, in the order
  in which these functions perform them, and the two processors interleave freely.
  \<^verbatim>\<open>S_Asleep\<close> is the sleeper after its switch to the scheduler, which releases the
  process table lock; it comes back, with that lock, when it is runnable.
\<close>

datatype who = Sleeper | Waker

datatype spc = S_Lock | S_Test | S_Ptable | S_Unlock | S_Mark | S_Switch | S_Asleep | S_Tidy | S_Relock | S_Done
datatype wpc = W_Lock | W_Set | W_Ptable | W_Wake | W_Punlock | W_Unlock | W_Done

record sleepsys =
  lk_by :: "who option"
  pt_by :: "who option"
  cond :: bool
  st :: procstate
  on_chan :: bool
  s_pc :: spc
  w_pc :: wpc

inductive sw_step :: "sleepsys \<Rightarrow> sleepsys \<Rightarrow> bool" where
  s_lock: "s_pc s = S_Lock \<Longrightarrow> lk_by s = None \<Longrightarrow> sw_step s (s\<lparr>lk_by := Some Sleeper, s_pc := S_Test\<rparr>)"
| s_true: "s_pc s = S_Test \<Longrightarrow> cond s \<Longrightarrow> sw_step s (s\<lparr>lk_by := None, s_pc := S_Done\<rparr>)"
| s_false: "s_pc s = S_Test \<Longrightarrow> \<not> cond s \<Longrightarrow> sw_step s (s\<lparr>s_pc := S_Ptable\<rparr>)"
| s_ptable: "s_pc s = S_Ptable \<Longrightarrow> pt_by s = None \<Longrightarrow> sw_step s (s\<lparr>pt_by := Some Sleeper, s_pc := S_Unlock\<rparr>)"
| s_unlock: "s_pc s = S_Unlock \<Longrightarrow> sw_step s (s\<lparr>lk_by := None, s_pc := S_Mark\<rparr>)"
| s_mark: "s_pc s = S_Mark \<Longrightarrow> sw_step s (s\<lparr>on_chan := True, st := SLEEPING, s_pc := S_Switch\<rparr>)"
| s_switch: "s_pc s = S_Switch \<Longrightarrow> sw_step s (s\<lparr>pt_by := None, s_pc := S_Asleep\<rparr>)"
| s_resume: "s_pc s = S_Asleep \<Longrightarrow> st s = RUNNABLE \<Longrightarrow> pt_by s = None \<Longrightarrow>
    sw_step s (s\<lparr>pt_by := Some Sleeper, st := RUNNING, s_pc := S_Tidy\<rparr>)"
| s_tidy: "s_pc s = S_Tidy \<Longrightarrow> sw_step s (s\<lparr>on_chan := False, pt_by := None, s_pc := S_Relock\<rparr>)"
| s_relock: "s_pc s = S_Relock \<Longrightarrow> lk_by s = None \<Longrightarrow> sw_step s (s\<lparr>lk_by := Some Sleeper, s_pc := S_Test\<rparr>)"
| w_lock: "w_pc s = W_Lock \<Longrightarrow> lk_by s = None \<Longrightarrow> sw_step s (s\<lparr>lk_by := Some Waker, w_pc := W_Set\<rparr>)"
| w_set: "w_pc s = W_Set \<Longrightarrow> sw_step s (s\<lparr>cond := True, w_pc := W_Ptable\<rparr>)"
| w_ptable: "w_pc s = W_Ptable \<Longrightarrow> pt_by s = None \<Longrightarrow> sw_step s (s\<lparr>pt_by := Some Waker, w_pc := W_Wake\<rparr>)"
| w_wake: "w_pc s = W_Wake \<Longrightarrow> sw_step s (s\<lparr>st := (if st s = SLEEPING \<and> on_chan s then RUNNABLE else st s),
    w_pc := W_Punlock\<rparr>)"
| w_punlock: "w_pc s = W_Punlock \<Longrightarrow> sw_step s (s\<lparr>pt_by := None, w_pc := W_Unlock\<rparr>)"
| w_unlock: "w_pc s = W_Unlock \<Longrightarrow> sw_step s (s\<lparr>lk_by := None, w_pc := W_Done\<rparr>)"

definition sw_init :: sleepsys where
  "sw_init = \<lparr>lk_by = None, pt_by = None, cond = False, st = RUNNING, on_chan = False,
     s_pc = S_Lock, w_pc = W_Lock\<rparr>"

inductive sw_reachable :: "sleepsys \<Rightarrow> bool" where
  sw_start: "sw_reachable sw_init"
| sw_next: "sw_reachable s \<Longrightarrow> sw_step s t \<Longrightarrow> sw_reachable t"

inductive_cases sw_stepE: "sw_step s t"

text \<open>The invariant: who holds which lock, what the sleeper's state is at each point, and
  that the condition is false while the sleeper is between its test and its sleep
  unless the waker has yet to reach \<^verbatim>\<open>wakeup1\<close>.\<close>

definition sw_inv :: "sleepsys \<Rightarrow> bool" where
  "sw_inv s \<longleftrightarrow>
     (lk_by s = Some Sleeper \<longleftrightarrow> s_pc s \<in> {S_Test, S_Ptable, S_Unlock}) \<and>
     (lk_by s = Some Waker \<longleftrightarrow> w_pc s \<in> {W_Set, W_Ptable, W_Wake, W_Punlock, W_Unlock}) \<and>
     (pt_by s = Some Sleeper \<longleftrightarrow> s_pc s \<in> {S_Unlock, S_Mark, S_Switch, S_Tidy}) \<and>
     (pt_by s = Some Waker \<longleftrightarrow> w_pc s \<in> {W_Wake, W_Punlock}) \<and>
     (st s = SLEEPING \<longrightarrow> s_pc s \<in> {S_Switch, S_Asleep} \<and> on_chan s) \<and>
     (s_pc s = S_Asleep \<longrightarrow> st s \<in> {SLEEPING, RUNNABLE}) \<and>
     (s_pc s = S_Switch \<longrightarrow> st s = SLEEPING) \<and>
     (cond s \<longleftrightarrow> w_pc s \<in> {W_Ptable, W_Wake, W_Punlock, W_Unlock, W_Done}) \<and>
     (cond s \<and> (s_pc s \<in> {S_Ptable, S_Unlock, S_Mark, S_Switch} \<or> st s = SLEEPING) \<longrightarrow>
        w_pc s \<in> {W_Ptable, W_Wake}) \<and>
     (s_pc s = S_Asleep \<and> st s = RUNNABLE \<or> s_pc s \<in> {S_Tidy, S_Relock} \<longrightarrow> cond s)"

lemma sw_inv_step: "sw_step s t \<Longrightarrow> sw_inv s \<Longrightarrow> sw_inv t"
  by (cases s, erule sw_stepE; simp add: sw_inv_def; auto)

lemma sw_reachable_inv: "sw_reachable s \<Longrightarrow> sw_inv s"
proof (induction rule: sw_reachable.induct)
  case sw_start
  then show ?case by (simp add: sw_init_def sw_inv_def)
next
  case (sw_next s t)
  then show ?case by (blast intro: sw_inv_step)
qed

text \<open>The number of steps that are left at most.\<close>

fun s_rank :: "bool \<Rightarrow> spc \<Rightarrow> nat" where
  "s_rank c S_Lock = 10"
| "s_rank c S_Test = (if c then 1 else 9)"
| "s_rank c S_Ptable = 8"
| "s_rank c S_Unlock = 7"
| "s_rank c S_Mark = 6"
| "s_rank c S_Switch = 5"
| "s_rank c S_Asleep = 4"
| "s_rank c S_Tidy = 3"
| "s_rank c S_Relock = 2"
| "s_rank c S_Done = 0"

fun w_rank :: "wpc \<Rightarrow> nat" where
  "w_rank W_Lock = 6"
| "w_rank W_Set = 5"
| "w_rank W_Ptable = 4"
| "w_rank W_Wake = 3"
| "w_rank W_Punlock = 2"
| "w_rank W_Unlock = 1"
| "w_rank W_Done = 0"

definition sw_rank :: "sleepsys \<Rightarrow> nat" where
  "sw_rank s = s_rank (cond s) (s_pc s) + w_rank (w_pc s)"

lemma s_rank_mono: "s_rank True p \<le> s_rank c p"
  by (cases p) auto

lemma sw_rank_step: "sw_step s t \<Longrightarrow> sw_inv s \<Longrightarrow> sw_rank t < sw_rank s"
proof (induction rule: sw_step.induct)
  case (w_set s)
  then show ?case using s_rank_mono [of "s_pc s" "cond s"] by (simp add: sw_rank_def)
qed (auto simp: sw_rank_def sw_inv_def)

lemma owner_None: "x \<noteq> Some Sleeper \<Longrightarrow> x \<noteq> Some Waker \<Longrightarrow> x = None"
  by (metis not_None_eq who.exhaust)

lemma sw_owners:
  assumes "sw_inv s"
  shows "lk_by s = Some Sleeper \<longleftrightarrow> s_pc s \<in> {S_Test, S_Ptable, S_Unlock}"
    and "lk_by s = Some Waker \<longleftrightarrow> w_pc s \<in> {W_Set, W_Ptable, W_Wake, W_Punlock, W_Unlock}"
    and "pt_by s = Some Sleeper \<longleftrightarrow> s_pc s \<in> {S_Unlock, S_Mark, S_Switch, S_Tidy}"
    and "pt_by s = Some Waker \<longleftrightarrow> w_pc s \<in> {W_Wake, W_Punlock}"
    and "s_pc s = S_Asleep \<Longrightarrow> w_pc s = W_Done \<Longrightarrow> st s = RUNNABLE"
  using assms by (simp_all add: sw_inv_def) auto

lemma sw_not_stuck:
  assumes "sw_inv s" and "s_pc s \<noteq> S_Done \<or> w_pc s \<noteq> W_Done"
  shows "\<exists>t. sw_step s t"
proof -
  note own = sw_owners [OF assms(1)]
  have lk: "lk_by s = None" if "s_pc s \<notin> {S_Test, S_Ptable, S_Unlock}" "w_pc s \<in> {W_Lock, W_Done}"
    using that by (intro owner_None) (simp_all only: own, auto)
  have pt: "pt_by s = None" if "s_pc s \<notin> {S_Unlock, S_Mark, S_Switch, S_Tidy}" "w_pc s \<notin> {W_Wake, W_Punlock}"
    using that by (intro owner_None) (simp_all only: own, auto)
  consider "s_pc s = S_Test" | "s_pc s = S_Unlock" | "s_pc s = S_Mark" | "s_pc s = S_Switch" | "s_pc s = S_Tidy"
    | "s_pc s \<in> {S_Lock, S_Ptable, S_Asleep, S_Relock, S_Done}" by (cases "s_pc s") auto
  then show ?thesis
  proof cases
    case 1
    then show ?thesis by (cases "cond s") (blast intro: s_true s_false)+
  next
    case 6
    show ?thesis
    proof (cases "w_pc s")
      case W_Lock
      show ?thesis
      proof (cases "s_pc s = S_Ptable")
        case True
        moreover from this have "pt_by s = None" using pt W_Lock by simp
        ultimately show ?thesis by (blast intro: s_ptable)
      next
        case False
        with 6 lk W_Lock have "lk_by s = None" by auto
        with W_Lock show ?thesis by (blast intro: w_lock)
      qed
    next
      case W_Ptable
      moreover from this have "pt_by s = None" using 6 pt by auto
      ultimately show ?thesis by (blast intro: w_ptable)
    next
      case W_Done
      then have "pt_by s = None" "s_pc s \<noteq> S_Done" "s_pc s \<noteq> S_Ptable \<Longrightarrow> lk_by s = None"
        using 6 lk pt assms(2) by auto
      with 6 own(5) [OF _ W_Done] show ?thesis
        by (blast intro: s_lock s_ptable s_resume s_relock)
    qed (blast intro: w_set w_wake w_punlock w_unlock)+
  qed (blast intro: s_unlock s_mark s_switch s_tidy)+
qed

text \<open>
  C4: no wakeup is lost.  Whatever the interleaving of \<^verbatim>\<open>sleep\<close> and \<^verbatim>\<open>wakeup\<close>, every
  execution of the sleeper and the waker comes to an end after at most sixteen steps,
  and it can only end with both of them done: the sleeper is never left asleep after
  the condition has become true, and the two locks never deadlock.
\<close>

theorem no_lost_wakeup:
  assumes "sw_reachable s"
  shows "sw_rank s \<le> 16 \<and> (\<forall>t. sw_step s t \<longrightarrow> sw_rank t < sw_rank s) \<and>
    ((\<nexists>t. sw_step s t) \<longrightarrow> s_pc s = S_Done \<and> w_pc s = W_Done)"
proof -
  have "sw_inv s" using assms by (rule sw_reachable_inv)
  moreover have "s_rank (cond s) (s_pc s) \<le> 10" "w_rank (w_pc s) \<le> 6"
    by (cases "s_pc s"; simp) (cases "w_pc s"; simp)
  then have "sw_rank s \<le> 16" by (simp add: sw_rank_def)
  ultimately show ?thesis using sw_rank_step sw_not_stuck by blast
qed

theorem no_lost_wakeup_witness:
  "\<exists>s. sw_reachable s \<and> s_pc s = S_Test \<and> (\<forall>t. sw_step s t \<longrightarrow> sw_rank t < 15)"
proof -
  let ?s = "sw_init\<lparr>lk_by := Some Sleeper, s_pc := S_Test\<rparr>"
  have r: "sw_reachable ?s"
    by (rule sw_next [OF sw_start], rule s_lock) (simp_all add: sw_init_def)
  have "sw_rank ?s = 15" by (simp add: sw_rank_def sw_init_def)
  with no_lost_wakeup [OF r] r show ?thesis by (intro exI [of _ ?s]) auto
qed

end
