(* ===== verification/Bio.thy ===== *)
theory Bio
  imports Sched
begin

text \<open>
  The disk driver, \<^verbatim>\<open>src/ide.c\<close>, and the buffer cache, \<^verbatim>\<open>src/bio.c\<close>.  The controller is the
  LBA28 task file of an ATA disk in programmed-I/O mode: the byte registers the driver
  writes select a drive and a sector, a write command followed by a sector of data
  stores it, a read command makes the sector available.  The doubly linked list of the
  cache and the request queue of the driver are kept as pointers.  That the cache list
  is a list in order of use, and the cache coherent with the disk, is shown in theory \<open>Bcache\<close>.
\<close>

section \<open>State\<close>

text \<open>
  A buffer is named by its index; \<open>Hd\<close> is the list head \<^verbatim>\<open>bcache.head\<close>.  The fields
  \<^verbatim>\<open>prev\<close>, \<^verbatim>\<open>next\<close> and \<^verbatim>\<open>qnext\<close> of all buffers are the maps \<open>bprev\<close>, \<open>bnext\<close>, \<open>qnext\<close>.
\<close>

datatype bref = Hd | Bf nat

record buf =
  bflags :: u32
  bdev :: u32
  bsector :: u32
  bdata :: "u8 list"

record idehw =
  port :: "nat \<Rightarrow> u8"
  disk :: "bool \<Rightarrow> nat \<Rightarrow> u8 list"
  ide_err :: bool

record kbuf = kproc +
  bufs :: "nat \<Rightarrow> buf"
  bnext :: "bref \<Rightarrow> bref"
  bprev :: "bref \<Rightarrow> bref"
  qnext :: "nat \<Rightarrow> nat option"
  idequeue :: "nat option"
  havedisk1 :: bool
  ide :: idehw

definition B_BUSY :: u32 where "B_BUSY = 1"
definition B_VALID :: u32 where "B_VALID = 2"
definition B_DIRTY :: u32 where "B_DIRTY = 4"

definition upd_buf :: "nat \<Rightarrow> (buf \<Rightarrow> buf) \<Rightarrow> ('z) kbuf_scheme \<Rightarrow> ('z) kbuf_scheme" where
  "upd_buf b f s = s\<lparr>bufs := (bufs s)(b := f (bufs s b))\<rparr>"

section \<open>The disk controller\<close>

definition outb :: "nat \<Rightarrow> u8 \<Rightarrow> ('z) kbuf_scheme \<Rightarrow> ('z) kbuf_scheme" where
  "outb p v s = s\<lparr>ide := (ide s)\<lparr>port := (port (ide s))(p := v)\<rparr>\<rparr>"

text \<open>The sector and the drive that the task file selects.\<close>

definition lba :: "(nat \<Rightarrow> u8) \<Rightarrow> nat" where
  "lba r = unat (r 0x1f3) + 2 ^ 8 * unat (r 0x1f4) + 2 ^ 16 * unat (r 0x1f5) + 2 ^ 24 * unat (r 0x1f6 AND 0x0f)"

definition drive :: "(nat \<Rightarrow> u8) \<Rightarrow> bool" where
  "drive r = bit (r 0x1f6) 4"

text \<open>\<^verbatim>\<open>outsl\<close> after a write command and \<^verbatim>\<open>insl\<close> after a read command.\<close>

definition ide_put :: "u8 list \<Rightarrow> ('z) kbuf_scheme \<Rightarrow> ('z) kbuf_scheme" where
  "ide_put xs s = (let h = ide s; r = port h in
     s\<lparr>ide := h\<lparr>disk := (disk h)(drive r := (disk h (drive r))(lba r := xs))\<rparr>\<rparr>)"

definition ide_get :: "('z) kbuf_scheme \<Rightarrow> u8 list" where
  "ide_get s = (let h = ide s; r = port h in disk h (drive r) (lba r))"

text \<open>\<^verbatim>\<open>idewait\<close> polls until the drive is ready; the answer is the error condition then.\<close>

definition idewait :: "bool \<Rightarrow> ('z) kbuf_scheme \<Rightarrow> int" where
  "idewait checkerr s = (if checkerr \<and> ide_err (ide s) then -1 else 0)"

section \<open>The disk driver\<close>

text \<open>\<open>present\<close>: drive 1 answers the probe.  The interrupt controllers are set up by code
  that is outside this theory.\<close>

definition ideinit :: "bool \<Rightarrow> ('z) kbuf_scheme \<Rightarrow> ('z) kbuf_scheme" where
  "ideinit present s =
     (let s = initlock IdeLock ''ide'' s;
          s = outb 0x1f6 (0xe0 OR push_bit 4 1) s;
          s = (if present then s\<lparr>havedisk1 := True\<rparr> else s)
      in outb 0x1f6 0xe0 s)"

definition idestart :: "nat option \<Rightarrow> ('z) kbuf_scheme \<Rightarrow> (unit, ('z) kbuf_scheme) res" where
  "idestart bo s =
     (case bo of
        None \<Rightarrow> Panic ''idestart''
      | Some b \<Rightarrow>
          let sec = bsector (bufs s b);
              s = outb 0x3f6 0 s;
              s = outb 0x1f2 1 s;
              s = outb 0x1f3 (ucast (sec AND 0xff)) s;
              s = outb 0x1f4 (ucast (drop_bit 8 sec AND 0xff)) s;
              s = outb 0x1f5 (ucast (drop_bit 16 sec AND 0xff)) s;
              s = outb 0x1f6 (0xe0 OR push_bit 4 (ucast (bdev (bufs s b) AND 1)) OR
                              ucast (drop_bit 24 sec AND 0x0f)) s
          in if bflags (bufs s b) AND B_DIRTY \<noteq> 0
             then Ok () (ide_put (bdata (bufs s b)) (outb 0x1f7 0x30 s))
             else Ok () (outb 0x1f7 0x20 s))"

text \<open>The interrupt handler, run when the drive has finished the request at the head of
  the queue.\<close>

definition ideintr :: "('z) kbuf_scheme \<Rightarrow> (unit, ('z) kbuf_scheme) res" where
  "ideintr s = bindr (acquire IdeLock s) (\<lambda>_ s.
     case idequeue s of
       None \<Rightarrow> release IdeLock s
     | Some b \<Rightarrow>
         let s = s\<lparr>idequeue := qnext s b\<rparr>;
             s = (if bflags (bufs s b) AND B_DIRTY = 0 \<and> idewait True s \<ge> 0
                  then upd_buf b (\<lambda>x. x\<lparr>bdata := ide_get s\<rparr>) s else s);
             s = upd_buf b (\<lambda>x. x\<lparr>bflags := bflags x OR B_VALID\<rparr>) s;
             s = upd_buf b (\<lambda>x. x\<lparr>bflags := bflags x AND NOT B_DIRTY\<rparr>) s
         in bindr (wakeup (ChBuf b) s) (\<lambda>_ s.
            bindr (if idequeue s \<noteq> None then idestart (idequeue s) s else Ok () s) (\<lambda>_ s.
              release IdeLock s)))"

text \<open>
  The waiting loop of \<^verbatim>\<open>iderw\<close> gives up the processor in \<^verbatim>\<open>sleep\<close>.  What happens until the
  process runs again is played out here for the case that the disk interrupt is the
  next event and the process is the next one to run: the scheduler takes over and ends
  its round and enables interrupts, the interrupt handler runs (the gate clears the
  interrupt flag, the return from it sets it again), the scheduler finds the process and switches
  back to it.  Between the rounds of the loop the driver has finished one request.
\<close>

definition disk_wait :: "nat \<Rightarrow> ('z) kbuf_scheme \<Rightarrow> (unit, ('z) kbuf_scheme) res" where
  "disk_wait b s = bindr (sleep_out (ChBuf b) IdeLock s) (\<lambda>_ t.
     bindr (dispatched t) (\<lambda>_ t.
     bindr (release PtableLock t) (\<lambda>_ t.
     bindr (ideintr (cli (sti t))) (\<lambda>_ t.
     bindr (acquire PtableLock (sti t)) (\<lambda>_ t.
     bindr (dispatch (cp s) t) (\<lambda>_ t. sleep_in IdeLock t))))))"

partial_function (option) iderw_loop :: "nat \<Rightarrow> ('z) kbuf_scheme \<Rightarrow> (unit, ('z) kbuf_scheme) res option" where
  "iderw_loop b s =
     (if bflags (bufs s b) AND (B_VALID OR B_DIRTY) \<noteq> B_VALID then
        (case disk_wait b s of
           Ok x s \<Rightarrow> iderw_loop b s
         | Panic m \<Rightarrow> Some (Panic m)
         | Sleep c k s \<Rightarrow> Some (Sleep c k s)
         | Hang \<Rightarrow> Some Hang)
      else Some (Ok () s))"

text \<open>The last element of the request queue.\<close>

partial_function (option) qlast :: "(nat \<Rightarrow> nat option) \<Rightarrow> nat \<Rightarrow> nat option" where
  "qlast q b = (case q b of None \<Rightarrow> Some b | Some c \<Rightarrow> qlast q c)"

definition iderw :: "nat \<Rightarrow> ('z) kbuf_scheme \<Rightarrow> (unit, ('z) kbuf_scheme) res" where
  "iderw b s =
     (if bflags (bufs s b) AND B_BUSY = 0 then Panic ''iderw: buf not busy''
      else if bflags (bufs s b) AND (B_VALID OR B_DIRTY) = B_VALID then Panic ''iderw: nothing to do''
      else if bdev (bufs s b) \<noteq> 0 \<and> \<not> havedisk1 s then Panic ''idrw: ide disk 1 not present''
      else bindr (acquire IdeLock s) (\<lambda>_ s.
        let s = s\<lparr>qnext := (qnext s)(b := None)\<rparr> in
        case (case idequeue s of
                None \<Rightarrow> Some (s\<lparr>idequeue := Some b\<rparr>)
              | Some c \<Rightarrow> map_option (\<lambda>l. s\<lparr>qnext := (qnext s)(l := Some b)\<rparr>) (qlast (qnext s) c)) of
          None \<Rightarrow> Hang
        | Some s \<Rightarrow>
            bindr (if idequeue s = Some b then idestart (Some b) s else Ok () s) (\<lambda>_ s.
              case iderw_loop b s of
                None \<Rightarrow> Hang
              | Some r \<Rightarrow> bindr r (\<lambda>_ s. release IdeLock s))))"

section \<open>The buffer cache\<close>

text \<open>One turn of the loop of \<^verbatim>\<open>binit\<close>, for each buffer in order.\<close>

definition link_front :: "nat \<Rightarrow> ('z) kbuf_scheme \<Rightarrow> ('z) kbuf_scheme" where
  "link_front b s =
     (let s = s\<lparr>bnext := (bnext s)(Bf b := bnext s Hd)\<rparr>;
          s = s\<lparr>bprev := (bprev s)(Bf b := Hd)\<rparr>;
          s = s\<lparr>bprev := (bprev s)(bnext s Hd := Bf b)\<rparr>
      in s\<lparr>bnext := (bnext s)(Hd := Bf b)\<rparr>)"

definition binit :: "('z) kbuf_scheme \<Rightarrow> ('z) kbuf_scheme" where
  "binit s =
     (let s = initlock BcacheLock ''bcache'' s;
          s = s\<lparr>bprev := (bprev s)(Hd := Hd), bnext := (bnext s)(Hd := Hd)\<rparr>
      in fold (\<lambda>b s. link_front b (upd_buf b (\<lambda>x. x\<lparr>bdev := - 1\<rparr>) s)) [0..<NBUF] s)"

text \<open>Following \<^verbatim>\<open>next\<close> or \<^verbatim>\<open>prev\<close> pointers up to the list head.\<close>

partial_function (option) find_from :: "(nat \<Rightarrow> bool) \<Rightarrow> (bref \<Rightarrow> bref) \<Rightarrow> bref \<Rightarrow> nat option option" where
  "find_from P nx r =
     (case r of Hd \<Rightarrow> Some None
              | Bf b \<Rightarrow> if P b then Some (Some b) else find_from P nx (nx r))"

text \<open>The body of \<^verbatim>\<open>bget\<close> from the label \<^verbatim>\<open>loop\<close> on.\<close>

definition bget_loop :: "u32 \<Rightarrow> u32 \<Rightarrow> ('z) kbuf_scheme \<Rightarrow> (nat, ('z) kbuf_scheme) res" where
  "bget_loop dev sector s =
     (case find_from (\<lambda>b. bdev (bufs s b) = dev \<and> bsector (bufs s b) = sector) (bnext s) (bnext s Hd) of
        None \<Rightarrow> Hang
      | Some (Some b) \<Rightarrow>
          if bflags (bufs s b) AND B_BUSY = 0 then
            bindr (release BcacheLock (upd_buf b (\<lambda>x. x\<lparr>bflags := bflags x OR B_BUSY\<rparr>) s)) (\<lambda>_ s. Ok b s)
          else bindr (sleep_out (ChBuf b) BcacheLock s) (\<lambda>_ s. Sleep (ChBuf b) 0 s)
      | Some None \<Rightarrow>
          (case find_from (\<lambda>b. bflags (bufs s b) AND B_BUSY = 0) (bprev s) (bprev s Hd) of
             None \<Rightarrow> Hang
           | Some (Some b) \<Rightarrow>
               bindr (release BcacheLock
                 (upd_buf b (\<lambda>x. x\<lparr>bdev := dev, bsector := sector, bflags := B_BUSY\<rparr>) s)) (\<lambda>_ s. Ok b s)
           | Some None \<Rightarrow> Panic ''bget: no buffers''))"

definition bget :: "u32 \<Rightarrow> u32 \<Rightarrow> ('z) kbuf_scheme \<Rightarrow> (nat, ('z) kbuf_scheme) res" where
  "bget dev sector s = bindr (acquire BcacheLock s) (\<lambda>_ s. bget_loop dev sector s)"

text \<open>After a wakeup \<^verbatim>\<open>bget\<close> goes on behind its call of \<^verbatim>\<open>sleep\<close>.\<close>

definition bget_resume :: "u32 \<Rightarrow> u32 \<Rightarrow> ('z) kbuf_scheme \<Rightarrow> (nat, ('z) kbuf_scheme) res" where
  "bget_resume dev sector s = bindr (sleep_in BcacheLock s) (\<lambda>_ s. bget_loop dev sector s)"

definition bread :: "u32 \<Rightarrow> u32 \<Rightarrow> ('z) kbuf_scheme \<Rightarrow> (nat, ('z) kbuf_scheme) res" where
  "bread dev sector s = bindr (bget dev sector s) (\<lambda>b s.
     if bflags (bufs s b) AND B_VALID = 0 then bindr (iderw b s) (\<lambda>_ s. Ok b s) else Ok b s)"

definition bwrite :: "nat \<Rightarrow> ('z) kbuf_scheme \<Rightarrow> (unit, ('z) kbuf_scheme) res" where
  "bwrite b s =
     (if bflags (bufs s b) AND B_BUSY = 0 then Panic ''bwrite''
      else iderw b (upd_buf b (\<lambda>x. x\<lparr>bflags := bflags x OR B_DIRTY\<rparr>) s))"

definition brelse :: "nat \<Rightarrow> ('z) kbuf_scheme \<Rightarrow> (unit, ('z) kbuf_scheme) res" where
  "brelse b s =
     (if bflags (bufs s b) AND B_BUSY = 0 then Panic ''brelse''
      else bindr (acquire BcacheLock s) (\<lambda>_ s.
        let s = s\<lparr>bprev := (bprev s)(bnext s (Bf b) := bprev s (Bf b))\<rparr>;
            s = s\<lparr>bnext := (bnext s)(bprev s (Bf b) := bnext s (Bf b))\<rparr>;
            s = link_front b s;
            s = upd_buf b (\<lambda>x. x\<lparr>bflags := bflags x AND NOT B_BUSY\<rparr>) s
        in bindr (wakeup (ChBuf b) s) (\<lambda>_ s. release BcacheLock s)))"

section \<open>Locks and the buffer state\<close>

text \<open>A field that later components add is not changed by scheduling either.\<close>

locale kproc_sel = kmem_sel sel for sel :: "('z) kproc_scheme \<Rightarrow> 'b" +
  assumes psel: "sel (procs_update f1 s) = sel s" "sel (cur_update f2 s) = sel s" "sel (ts_ss0_update f3 s) = sel s"
    "sel (ts_esp0_update f4 s) = sel s" "sel (gdt_update f5 s) = sel s"
begin

lemma sel_sched [simp]:
  "sel (upd_proc i f s) = sel s" "sel (useg s) = sel s" "sel (wakeup1 c s) = sel s" "sel (sched_in s) = sel s"
  by (simp_all add: upd_proc_def useg_def wakeup1_def sched_in_def psel Let_def split: option.splits)

end

interpretation bufs_u: mach_upd "bufs_update f" for f
  by unfold_locales simp_all

interpretation bufs_s: kproc_sel bufs
  by unfold_locales simp_all

interpretation bnext_u: mach_upd "bnext_update f" for f
  by unfold_locales simp_all

interpretation bnext_s: kproc_sel bnext
  by unfold_locales simp_all

interpretation bprev_u: mach_upd "bprev_update f" for f
  by unfold_locales simp_all

interpretation bprev_s: kproc_sel bprev
  by unfold_locales simp_all

interpretation qnext_u: mach_upd "qnext_update f" for f
  by unfold_locales simp_all

interpretation qnext_s: kproc_sel qnext
  by unfold_locales simp_all

interpretation idequeue_u: mach_upd "idequeue_update f" for f
  by unfold_locales simp_all

interpretation idequeue_s: kproc_sel idequeue
  by unfold_locales simp_all

interpretation havedisk1_u: mach_upd "havedisk1_update f" for f
  by unfold_locales simp_all

interpretation havedisk1_s: kproc_sel havedisk1
  by unfold_locales simp_all

interpretation ide_u: mach_upd "ide_update f" for f
  by unfold_locales simp_all

interpretation ide_s: kproc_sel ide
  by unfold_locales simp_all

interpretation upd_buf_u: mach_upd "upd_buf b f" for b f
  by unfold_locales (simp_all add: upd_buf_def)

text \<open>An example: empty buffers on zeroed disks, before the list is built.\<close>

definition kbuf0 :: kbuf where
  "kbuf0 = kproc.extend kproc0
     \<lparr>bufs = (\<lambda>_. \<lparr>bflags = 0, bdev = 0, bsector = 0, bdata = replicate 512 0\<rparr>),
      bnext = (\<lambda>_. Hd), bprev = (\<lambda>_. Hd), qnext = (\<lambda>_. None), idequeue = None, havedisk1 = True,
      ide = \<lparr>port = (\<lambda>_. 0), disk = (\<lambda>_ _. replicate 512 0), ide_err = False\<rparr>\<rparr>"

lemma kbuf0_simps [simp]:
  "procs kbuf0 = procs kproc0" "cur kbuf0 = Some 0" "cp kbuf0 = 0" "phys kbuf0 = (\<lambda>_. 0)"
  "ncli (this_cpu kbuf0) = 0" "eflags kbuf0 = 0x202" "kheap kbuf0 = kheap kmem0" "is_free l kbuf0"
  using kproc0_free [of l] kproc0_simps
  by (simp_all add: kbuf0_def kproc.extend_def is_free_def cpu_ok_def this_cpu_def cpu_id_def cp_def)



section \<open>Waiting for the disk\<close>

text \<open>
  What kernel code on behalf of one process leaves alone when it waits for the disk: memory, the
  process table up to the scheduling of the processes, and all state of the layers above.
\<close>

definition calm :: "proc \<Rightarrow> proc" where
  "calm p = p\<lparr>pstate := RUNNING, pchan := None, sv_intena := 0\<rparr>"

definition quiet :: "('z) kbuf_scheme \<Rightarrow> ('z) kbuf_scheme \<Rightarrow> bool" where
  "quiet s t \<longleftrightarrow> kheap t = kheap s \<and> phys t = phys s \<and> cur t = cur s \<and> nextpid t = nextpid s \<and>
     initproc t = initproc s \<and> tframes t = tframes s \<and> ctxs t = ctxs s \<and>
     map calm (procs t) = map calm (procs s) \<and> kbuf.more t = kbuf.more s"

interpretation kbuf_more_s: kproc_sel kbuf.more
  by unfold_locales simp_all

lemma quiet_refl [simp]: "quiet s s"
  by (simp add: quiet_def)

lemma quiet_trans [trans]: "quiet s t \<Longrightarrow> quiet t u \<Longrightarrow> quiet s u"
  by (simp add: quiet_def)

lemma quiet_upd_buf [simp]: "quiet s (upd_buf b f t) = quiet s t"
  by (simp add: quiet_def upd_buf_def)

lemma quiet_lock [simp]: "quiet s (lock_st l t) = quiet s t" "quiet s (unlock l t) = quiet s t" "quiet s (through l t) = quiet s t"
  by (simp_all add: quiet_def)

lemma quiet_length: "quiet s t \<Longrightarrow> length (procs t) = length (procs s)"
  unfolding quiet_def by (metis length_map)

lemma quiet_cproc:
  assumes "quiet s t" and "cp s < length (procs s)"
  shows "calm (cproc t) = calm (cproc s)"
proof -
  have "cp t = cp s" "length (procs t) = length (procs s)" "map calm (procs t) = map calm (procs s)"
    using assms(1) quiet_length by (auto simp: quiet_def cp_def)
  then show ?thesis using assms(2) unfolding cproc_def by (metis nth_map)
qed

lemma calm_simps [simp]:
  "calm (p\<lparr>pstate := x\<rparr>) = calm p" "calm (p\<lparr>pchan := y\<rparr>) = calm p" "calm (p\<lparr>sv_intena := z\<rparr>) = calm p"
  "calm (wake c p) = calm p" "calm (asleep c e p) = calm p"
  by (simp_all add: calm_def wake_def asleep_def)

lemma map_calm_wake [simp]: "map calm (map (wake c) ps) = map calm ps"
  by simp

lemma map_calm_upd_proc:
  assumes "\<And>p. calm (f p) = calm p"
  shows "map calm (procs (upd_proc i f s)) = map calm (procs s)"
  by (simp add: map_update assms) (metis list_update_beyond list_update_id map_update not_le)

lemma owns_sleep_out:
  fixes c :: chan
  assumes "owns (Some l) s" and "l \<noteq> PtableLock" and "cur s = Some i" and "i < length (procs s)"
  defines "t \<equiv> upd_proc i (asleep c (intena (this_cpu s))) (unlock l (lock_st PtableLock s))"
  shows "sleep_out c l s = Ok () t" and "owns (Some PtableLock) t"
proof -
  have f: "held l s" "ncli (this_cpu s) = 1" "is_free PtableLock s"
    using assms(1,2) owns_held owns_is_free [OF assms(1), of PtableLock] by auto
  show "sleep_out c l s = Ok () t" unfolding t_def by (rule sleep_out_ok [OF f(1,3,2) assms(3,4)])
  have "held PtableLock (unlock l (lock_st PtableLock s))"
    using f assms(2) by (intro held_unlock_other held_lock_st) auto
  then show "owns (Some PtableLock) t" using assms(1,2) f(2) by (auto simp: t_def owns_def)
qed

lemma owns_sleep_in:
  assumes "owns (Some PtableLock) s" and "l \<noteq> PtableLock" and "cur s = Some i" and "i < length (procs s)"
  defines "t \<equiv> lock_st l (unlock PtableLock (upd_proc i (\<lambda>p. p\<lparr>pchan := None\<rparr>) (sched_in s)))"
  shows "sleep_in l s = Ok () t" and "owns (Some l) t"
proof -
  have f: "held PtableLock s" "ncli (this_cpu s) = 1" "is_free l s"
    using assms(1,2) owns_held owns_is_free [OF assms(1), of l] by auto
  show "sleep_in l s = Ok () t" unfolding t_def by (rule sleep_in_ok [OF f(1,2) assms(2) f(3) assms(3,4)])
  have "owns (Some PtableLock) (upd_proc i (\<lambda>p. p\<lparr>pchan := None\<rparr>) (sched_in s))"
    using assms(1) by (auto simp: owns_def sched_in_def held_def holding_def)
  then show "owns (Some l) t" unfolding t_def by (intro owns_acquire owns_release)
qed

lemma owns_wakeup:
  assumes "owns h s" and "h \<noteq> Some PtableLock"
  shows "wakeup c s = Ok () (wakeup1 c (through PtableLock s))" and "owns h (wakeup1 c (through PtableLock s))"
  using assms owns_is_free [of h s PtableLock] owns_through [of h s PtableLock]
  by (auto simp: wakeup_ok wakeup1_def)

text \<open>The buffer at the head of the queue when the interrupt for it has been handled.\<close>

definition synced :: "('z) kbuf_scheme \<Rightarrow> buf \<Rightarrow> buf" where
  "synced s x = x\<lparr>bdata := (if bflags x AND B_DIRTY = 0 \<and> \<not> ide_err (ide s) then ide_get s else bdata x),
     bflags := (bflags x OR B_VALID) AND NOT B_DIRTY\<rparr>"

lemma ideintr_ok:
  assumes "owns None s" and "idequeue s = Some b" and "qnext s b = None"
  shows "ideintr s = Ok () (unlock IdeLock (wakeup1 (ChBuf b) (through PtableLock
      (upd_buf b (synced s) (lock_st IdeLock s\<lparr>idequeue := None\<rparr>)))))"
proof -
  let ?s = "lock_st IdeLock s\<lparr>idequeue := None\<rparr>" let ?t = "upd_buf b (synced s) ?s"
  have l: "acquire IdeLock s = Ok () (lock_st IdeLock s)" "owns (Some IdeLock) (lock_st IdeLock s)"
    using owns_acquire [OF assms(1)] by auto
  then have "owns (Some IdeLock) ?t" by simp
  then have w: "wakeup (ChBuf b) ?t = Ok () (wakeup1 (ChBuf b) (through PtableLock ?t))"
    "owns (Some IdeLock) (wakeup1 (ChBuf b) (through PtableLock ?t))"
    using owns_wakeup [of "Some IdeLock" ?t] by simp_all
  have "ide_get ?s = ide_get s" by (simp add: ide_get_def)
  then have body: "upd_buf b (\<lambda>x. x\<lparr>bflags := bflags x AND NOT B_DIRTY\<rparr>) (upd_buf b (\<lambda>x. x\<lparr>bflags := bflags x OR B_VALID\<rparr>)
      (if bflags (bufs ?s b) AND B_DIRTY = 0 \<and> idewait True ?s \<ge> 0
       then upd_buf b (\<lambda>x. x\<lparr>bdata := ide_get ?s\<rparr>) ?s else ?s)) = ?t"
    by (simp add: upd_buf_def synced_def idewait_def)
  have "idequeue (wakeup1 (ChBuf b) (through PtableLock ?t)) = None" by (simp add: wakeup1_def upd_buf_def)
  then show ?thesis using assms(2,3) l(1) w(1) owns_release(1) [OF w(2)]
    by (simp add: ideintr_def body [simplified] Let_def)
qed


lemma disk_wait_ok:
  assumes "owns (Some IdeLock) s" and "cur s = Some i" and "i < length (procs s)"
    and "idequeue s = Some b" and "qnext s b = None"
  shows "\<exists>t. disk_wait b s = Ok () t \<and> owns (Some IdeLock) t \<and> quiet s t \<and> idequeue t = None \<and>
    bufs t = (bufs s)(b := synced s (bufs s b)) \<and> ide t = ide s \<and> qnext t = qnext s \<and>
    bnext t = bnext s \<and> bprev t = bprev s \<and> havedisk1 t = havedisk1 s"
proof -
  define t1 where "t1 = upd_proc i (asleep (ChBuf b) (intena (this_cpu s))) (unlock IdeLock (lock_st PtableLock s))"
  define t2 where "t2 = useg (pushpop (t1\<lparr>cur := None\<rparr>))"
  define t3 where "t3 = cli (sti (unlock PtableLock t2))"
  define t4 where "t4 = unlock IdeLock (wakeup1 (ChBuf b) (through PtableLock
      (upd_buf b (synced t3) (lock_st IdeLock t3\<lparr>idequeue := None\<rparr>))))"
  define t5 where "t5 = lock_st PtableLock (sti t4)"
  define t6 where "t6 = upd_proc i (\<lambda>p. p\<lparr>pstate := RUNNING\<rparr>) (useg (pushpop (t5\<lparr>cur := Some i\<rparr>)))"
  define t7 where "t7 = lock_st IdeLock (unlock PtableLock (upd_proc i (\<lambda>p. p\<lparr>pchan := None\<rparr>) (sched_in t6)))"
  have s1: "sleep_out (ChBuf b) IdeLock s = Ok () t1" "owns (Some PtableLock) t1"
    unfolding t1_def using owns_sleep_out [OF assms(1) _ assms(2,3)] by simp_all
  have o2: "owns (Some PtableLock) t2" unfolding t2_def using owns_pushpop [OF s1(2)] by simp
  have s2: "dispatched t1 = Ok () t2"
    unfolding dispatched_def t2_def using s1(2) owns_held held_cpu_ok by (subst usegment_ok) auto
  have s3: "release PtableLock t2 = Ok () (unlock PtableLock t2)" "owns None t3"
    unfolding t3_def using owns_release [OF o2] by (simp_all add: owns_flags)
  have f3: "idequeue t3 = Some b" "qnext t3 b = None"
    using assms(4,5) by (simp_all add: t3_def t2_def t1_def)
  have s4: "ideintr t3 = Ok () t4" unfolding t4_def by (rule ideintr_ok [OF s3(2) f3])
  have o4: "owns None (sti t4)"
  proof -
    have "owns (Some IdeLock) (upd_buf b (synced t3) (lock_st IdeLock t3\<lparr>idequeue := None\<rparr>))"
      using owns_acquire(2) [OF s3(2)] by simp
    then have "owns (Some IdeLock) (wakeup1 (ChBuf b) (through PtableLock (upd_buf b (synced t3) (lock_st IdeLock t3\<lparr>idequeue := None\<rparr>))))"
      by (rule owns_wakeup) simp
    from owns_release(2) [OF this] show ?thesis by (simp only: t4_def owns_flags)
  qed
  have s5: "acquire PtableLock (sti t4) = Ok () t5" "owns (Some PtableLock) t5"
    unfolding t5_def using owns_acquire [OF o4] by auto
  have o6: "owns (Some PtableLock) t6" unfolding t6_def using owns_pushpop [OF s5(2)] by simp
  have s6: "dispatch (cp s) t5 = Ok () t6"
    unfolding dispatch_def t6_def using s5(2) owns_held held_cpu_ok assms(2) by (subst usegment_ok) (auto simp: cp_def)
  have f6: "cur t6 = Some i" "i < length (procs t6)"
    using assms(3) by (simp_all add: t6_def t5_def t4_def t3_def t2_def t1_def wakeup1_def upd_buf_def)
  have s7: "sleep_in IdeLock t6 = Ok () t7" "owns (Some IdeLock) t7"
    unfolding t7_def using owns_sleep_in [OF o6 _ f6] by simp_all
  have "disk_wait b s = Ok () t7"
    using s1(1) s2 s3(1) s4 s5(1) s6 s7(1) by (simp add: disk_wait_def t3_def)
  moreover have "quiet s t7"
  proof -
    have "map calm (procs t7) = map calm (procs t6)"
      unfolding t7_def by (simp del: upd_proc_simps add: map_calm_upd_proc) (simp add: sched_in_def)
    also have "\<dots> = map calm (procs t4)"
      unfolding t6_def t5_def by (simp del: upd_proc_simps add: map_calm_upd_proc)
    also have "\<dots> = map calm (procs t1)"
      by (simp add: t4_def t3_def t2_def wakeup1_def upd_buf_def)
    also have "\<dots> = map calm (procs s)"
      unfolding t1_def by (simp del: upd_proc_simps add: map_calm_upd_proc)
    finally have "map calm (procs t7) = map calm (procs s)" .
    then show ?thesis using assms(2)
      by (simp add: quiet_def t7_def t6_def t5_def t4_def t3_def t2_def t1_def wakeup1_def upd_buf_def sched_in_def)
  qed
  moreover have "idequeue t7 = None" "bufs t7 = (bufs s)(b := synced s (bufs s b))" "ide t7 = ide s" "qnext t7 = qnext s"
    "bnext t7 = bnext s" "bprev t7 = bprev s" "havedisk1 t7 = havedisk1 s"
    by (simp_all add: t7_def t6_def t5_def t4_def t3_def t2_def t1_def wakeup1_def upd_buf_def sched_in_def synced_def ide_get_def)
  ultimately show ?thesis using s7(2) by blast
qed


section \<open>Disk requests\<close>

lemma unat32_less: "unat (w :: u32) < 4294967296"
proof -
  have "unat w < 2 ^ LENGTH(32)" by (rule unsigned_less)
  then show ?thesis by simp
qed

lemma bit_masks:
  "bit (0xff :: int) n \<longleftrightarrow> n < 8" "bit (0x0f :: int) n \<longleftrightarrow> n < 4"
proof -
  have "(0xff :: int) = mask 8" "(0x0f :: int) = mask 4" by (simp_all add: mask_eq_exp_minus_1)
  then show "bit (0xff :: int) n \<longleftrightarrow> n < 8" "bit (0x0f :: int) n \<longleftrightarrow> n < 4"
    by (simp_all only: bit_mask_iff) auto
qed

lemma unat_byte_of: "unat (ucast (drop_bit k w AND 0xff) :: u8) = (unat w div 2 ^ k) mod 256" for w :: u32
proof -
  have "ucast (drop_bit k w AND 0xff) = (ucast (drop_bit k w) :: u8)"
    by (rule bit_word_eqI) (auto simp: bit_simps bit_masks)
  then have "unat (ucast (drop_bit k w AND 0xff) :: u8) = take_bit 8 (unat (drop_bit k w))"
    by (simp only: unsigned_ucast_eq) simp
  also have "\<dots> = (unat w div 2 ^ k) mod 256" unfolding unsigned_drop_bit_eq using unat32_less [of w] by (simp add: drop_bit_eq_div take_bit_eq_mod)
  finally show ?thesis .
qed

lemma split28: "(x :: nat) < 2 ^ 28 \<Longrightarrow>
  x mod 256 + 256 * (x div 256 mod 256) + 65536 * (x div 65536 mod 256) + 16777216 * (x div 16777216 mod 16) = x"
  using mod_mult2_eq [of x 256 256] mod_mult2_eq [of x 65536 256] mod_mult2_eq [of x 16777216 16]
  by simp

lemma sel_reg:
  fixes d w :: u32 and r :: u8
  defines "r \<equiv> 0xe0 OR push_bit 4 (ucast (d AND 1)) OR ucast (drop_bit 24 w AND 0x0f)"
  shows "r AND 0x0f = ucast (drop_bit 24 w AND 0x0f)" "bit r 4 \<longleftrightarrow> odd d"
proof -
  have d: "d AND 1 = of_bool (odd d)" by (simp add: and_one_eq odd_iff_mod_2_eq_one)
  have w: "bit (ucast (drop_bit 24 w AND 0x0f) :: u8) n \<longleftrightarrow> n < 4 \<and> bit w (24 + n)" for n
    by (auto simp: bit_simps bit_masks)
  show "r AND 0x0f = ucast (drop_bit 24 w AND 0x0f)"
  proof (rule bit_word_eqI)
    fix n assume "n < LENGTH(8)"
    then have "n < 8" by simp
    then show "bit (r AND 0x0f) n \<longleftrightarrow> bit (ucast (drop_bit 24 w AND 0x0f) :: u8) n"
      unfolding r_def d bit_and_iff bit_or_iff w
      by (cases "odd d") (auto simp: numeral_eq_Suc less_Suc_eq bit_Suc)
  qed
  show "bit r 4 \<longleftrightarrow> odd d" unfolding r_def d bit_or_iff w by (cases "odd d") simp_all
qed

text \<open>The sector of a disk that a buffer stands for.\<close>

definition on_disk :: "('z) kbuf_scheme \<Rightarrow> u32 \<Rightarrow> u32 \<Rightarrow> u8 list" where
  "on_disk s dev sec = disk (ide s) (odd dev) (unat sec)"

lemma nibble: "unat (ucast (drop_bit 24 w AND 0x0f) :: u8) = unat w div 16777216 mod 16" for w :: u32
proof -
  have "ucast (drop_bit 24 w AND 0x0f) = (take_bit 4 (ucast (drop_bit 24 w)) :: u8)"
    by (rule bit_word_eqI) (auto simp: bit_simps bit_masks)
  then have "unat (ucast (drop_bit 24 w AND 0x0f) :: u8) = take_bit 4 (take_bit 8 (unat (drop_bit 24 w)))"
    by (simp only: unsigned_take_bit_eq unsigned_ucast_eq) simp
  also have "\<dots> = unat w div 16777216 mod 16"
    unfolding unsigned_drop_bit_eq using unat32_less [of w] by (simp add: drop_bit_eq_div take_bit_eq_mod mod_mod_cancel)
  finally show ?thesis .
qed

text \<open>The task file that \<^verbatim>\<open>idestart\<close> writes selects the sector of the buffer.\<close>

definition regs :: "buf \<Rightarrow> ('z) kbuf_scheme \<Rightarrow> ('z) kbuf_scheme" where
  "regs x s = outb 0x1f6 (0xe0 OR push_bit 4 (ucast (bdev x AND 1)) OR ucast (drop_bit 24 (bsector x) AND 0x0f))
     (outb 0x1f5 (ucast (drop_bit 16 (bsector x) AND 0xff)) (outb 0x1f4 (ucast (drop_bit 8 (bsector x) AND 0xff))
     (outb 0x1f3 (ucast (bsector x AND 0xff)) (outb 0x1f2 1 (outb 0x3f6 0 s)))))"

lemma outb_simps [simp]:
  "bufs (outb p v s) = bufs s" "disk (ide (outb p v s)) = disk (ide s)" "ide_err (ide (outb p v s)) = ide_err (ide s)"
  "port (ide (outb p v s)) = (port (ide s))(p := v)" "quiet u (outb p v s) = quiet u s"
  "idequeue (outb p v s) = idequeue s" "qnext (outb p v s) = qnext s" "bnext (outb p v s) = bnext s"
  "bprev (outb p v s) = bprev s" "havedisk1 (outb p v s) = havedisk1 s" "cur (outb p v s) = cur s" "procs (outb p v s) = procs s"
  by (simp_all add: outb_def quiet_def)

interpretation outb_u: mach_upd "outb p v" for p v
  by unfold_locales (simp_all add: outb_def)

lemma regs_sector:
  assumes "unat (bsector x) < 2 ^ 28"
  shows "lba ((port (ide (regs x s)))(0x1f7 := c)) = unat (bsector x)"
    and "drive ((port (ide (regs x s)))(0x1f7 := c)) = odd (bdev x)"
  using split28 [OF assms] unat_byte_of [of 0 "bsector x"] unat_byte_of [of 8 "bsector x"] unat_byte_of [of 16 "bsector x"]
  by (simp_all add: regs_def lba_def drive_def sel_reg nibble)

lemma idestart_ok:
  assumes "unat (bsector (bufs s b)) < 2 ^ 28"
  shows "\<exists>h. idestart (Some b) s = Ok () (s\<lparr>ide := h\<rparr>) \<and> ide_err h = ide_err (ide s) \<and>
     drive (port h) = odd (bdev (bufs s b)) \<and> lba (port h) = unat (bsector (bufs s b)) \<and>
     disk h = (if bflags (bufs s b) AND B_DIRTY \<noteq> 0
       then (disk (ide s))(odd (bdev (bufs s b)) := (disk (ide s) (odd (bdev (bufs s b))))(unat (bsector (bufs s b)) := bdata (bufs s b)))
       else disk (ide s))"
proof -
  let ?x = "bufs s b" let ?s = "regs ?x s"
  have r: "idestart (Some b) s = (if bflags ?x AND B_DIRTY \<noteq> 0 then Ok () (ide_put (bdata ?x) (outb 0x1f7 0x30 ?s))
     else Ok () (outb 0x1f7 0x20 ?s))"
    by (simp add: idestart_def regs_def Let_def)
  have o: "outb p v ?s = s\<lparr>ide := ide (outb p v ?s)\<rparr>" "disk (ide ?s) = disk (ide s)" "ide_err (ide ?s) = ide_err (ide s)" for p v
    by (simp_all add: regs_def outb_def)
  show ?thesis
  proof (cases "bflags ?x AND B_DIRTY = 0")
    case True
    then show ?thesis using r o(2,3) regs_sector [OF assms, of s]
      by (intro exI [of _ "ide (outb 0x1f7 0x20 ?s)"]) (simp flip: o(1))
  next
    case False
    have p: "ide_put xs (outb p v ?s) = s\<lparr>ide := ide (ide_put xs (outb p v ?s))\<rparr>" for xs p v
      by (simp add: ide_put_def Let_def regs_def outb_def)
    show ?thesis using False r o(2,3) regs_sector [OF assms, of s]
      by (intro exI [of _ "ide (ide_put (bdata ?x) (outb 0x1f7 0x30 ?s))"] conjI)
        (simp add: p [symmetric], simp_all add: ide_put_def Let_def)
  qed
qed


text \<open>The flags as bits.\<close>

lemma bit_B: "bit B_BUSY n \<longleftrightarrow> n = 0" "bit B_VALID n \<longleftrightarrow> n = 1" "bit B_DIRTY n \<longleftrightarrow> n = 2"
proof -
  have "B_BUSY = 2 ^ 0" "B_VALID = 2 ^ 1" "B_DIRTY = 2 ^ 2" by (simp_all add: B_BUSY_def B_VALID_def B_DIRTY_def)
  note B = this
  show "bit B_BUSY n \<longleftrightarrow> n = 0" "bit B_VALID n \<longleftrightarrow> n = 1" "bit B_DIRTY n \<longleftrightarrow> n = 2"
    unfolding B bit_exp_iff possible_bit_word by auto
qed

lemma and_zero_iff: "f AND m = 0 \<longleftrightarrow> (\<forall>n. bit m n \<longrightarrow> \<not> bit f n)" for f m :: u32
  using bit_imp_le_length [of m] by (auto simp: bit_eq_iff [of _ 0] bit_and_iff)

lemma flag_tests:
  "f AND B_BUSY = 0 \<longleftrightarrow> \<not> bit f 0" "f AND B_VALID = 0 \<longleftrightarrow> \<not> bit f 1" "f AND B_DIRTY = 0 \<longleftrightarrow> \<not> bit f 2"
  "f AND (B_VALID OR B_DIRTY) = B_VALID \<longleftrightarrow> bit f 1 \<and> \<not> bit f 2"
proof -
  show "f AND B_BUSY = 0 \<longleftrightarrow> \<not> bit f 0" "f AND B_VALID = 0 \<longleftrightarrow> \<not> bit f 1" "f AND B_DIRTY = 0 \<longleftrightarrow> \<not> bit f 2"
    by (simp_all add: and_zero_iff bit_B)
  have b: "bit (f AND (B_VALID OR B_DIRTY)) n \<longleftrightarrow> bit f n \<and> (n = 1 \<or> n = 2)" for n
    by (simp add: bit_and_iff bit_or_iff bit_B)
  show "f AND (B_VALID OR B_DIRTY) = B_VALID \<longleftrightarrow> bit f 1 \<and> \<not> bit f 2"
  proof
    assume e: "f AND (B_VALID OR B_DIRTY) = B_VALID"
    show "bit f 1 \<and> \<not> bit f 2" using b [of 1] b [of 2] unfolding e by (simp add: bit_B)
  next
    assume f: "bit f 1 \<and> \<not> bit f 2"
    show "f AND (B_VALID OR B_DIRTY) = B_VALID"
      by (rule bit_word_eqI, unfold b bit_B) (use f in auto)
  qed
qed

lemma bit_flags [simp]:
  "bit (f OR B_BUSY) n \<longleftrightarrow> bit f n \<or> n = 0" "bit (f OR B_VALID) n \<longleftrightarrow> bit f n \<or> n = 1" "bit (f OR B_DIRTY) n \<longleftrightarrow> bit f n \<or> n = 2"
  "bit (f AND NOT B_BUSY) n \<longleftrightarrow> bit f n \<and> n \<noteq> 0" "bit (f AND NOT B_DIRTY) n \<longleftrightarrow> bit f n \<and> n \<noteq> 2"
  using bit_imp_le_length [of f n] by (auto simp: bit_or_iff bit_and_iff bit_not_iff bit_B)

lemma bit_synced [simp]: "bit (bflags (synced s x)) n \<longleftrightarrow> n \<noteq> 2 \<and> (bit (bflags x) n \<or> n = 1)"
  by (auto simp: synced_def)

lemma iderw_ok:
  assumes s: "owns None s" "cur s = Some i" "i < length (procs s)" "idequeue s = None"
    and x: "bit (bflags (bufs s b)) 0" "\<not> bit (bflags (bufs s b)) 1 \<or> bit (bflags (bufs s b)) 2"
    and d: "bdev (bufs s b) = 0 \<or> havedisk1 s" "unat (bsector (bufs s b)) < 2 ^ 28" "\<not> ide_err (ide s)"
  shows "\<exists>t. iderw b s = Ok () t \<and> owns None t \<and> quiet s t \<and> idequeue t = None \<and> bnext t = bnext s \<and> bprev t = bprev s \<and>
    havedisk1 t = havedisk1 s \<and> ide_err (ide t) = ide_err (ide s) \<and>
    (let x = bufs s b; dirty = bit (bflags x) 2 in
     bufs t = (bufs s)(b := x\<lparr>bdata := (if dirty then bdata x else on_disk s (bdev x) (bsector x)),
       bflags := (bflags x OR B_VALID) AND NOT B_DIRTY\<rparr>) \<and>
     (\<forall>dv sec. on_disk t dv sec = (if dirty \<and> odd dv = odd (bdev x) \<and> sec = bsector x then bdata x else on_disk s dv sec)))"
proof -
  let ?x = "bufs s b"
  define s1 where "s1 = lock_st IdeLock s\<lparr>qnext := (qnext s)(b := None), idequeue := Some b\<rparr>"
  have o1: "owns (Some IdeLock) s1" "acquire IdeLock s = Ok () (lock_st IdeLock s)"
    unfolding s1_def using owns_acquire [OF s(1)] by simp_all
  have s1: "bufs s1 = bufs s" "ide s1 = ide s" by (simp_all add: s1_def)
  from idestart_ok [of s1 b, unfolded s1, OF d(2)] obtain h where h: "idestart (Some b) s1 = Ok () (s1\<lparr>ide := h\<rparr>)" "ide_err h = ide_err (ide s)"
    "drive (port h) = odd (bdev ?x)" "lba (port h) = unat (bsector ?x)"
    "disk h = (if bflags ?x AND B_DIRTY \<noteq> 0 then (disk (ide s))(odd (bdev ?x) := (disk (ide s) (odd (bdev ?x)))(unat (bsector ?x) := bdata ?x))
       else disk (ide s))"
    by (elim exE conjE)
  define s2 where "s2 = s1\<lparr>ide := h\<rparr>"
  have "owns (Some IdeLock) s2" "cur s2 = Some i" "i < length (procs s2)" "idequeue s2 = Some b" "qnext s2 b = None"
    using o1(1) s by (simp_all add: s2_def) (simp_all add: s1_def)
  from disk_wait_ok [OF this] obtain t where t: "disk_wait b s2 = Ok () t" "owns (Some IdeLock) t" "quiet s2 t" "idequeue t = None"
    "bufs t = (bufs s2)(b := synced s2 (bufs s2 b))" "ide t = ide s2" "qnext t = qnext s2"
    "bnext t = bnext s2" "bprev t = bprev s2" "havedisk1 t = havedisk1 s2" by blast
  have b2: "bufs s2 = bufs s" "bnext s2 = bnext s" "bprev s2 = bprev s" "havedisk1 s2 = havedisk1 s" "ide s2 = h" "quiet s s2"
    by (simp_all add: s2_def s1_def quiet_def)
  have "iderw_loop b t = Some (Ok () t)"
    using t(5) by (subst iderw_loop.simps) (simp add: flag_tests)
  then have loop: "iderw_loop b s2 = Some (Ok () t)"
    using x(2) t(1) b2(1) by (subst iderw_loop.simps) (auto simp: flag_tests)
  have "iderw b s = Ok () (unlock IdeLock t)"
    using x d(1) o1(2) s(4) h(1) loop owns_release(1) [OF t(2)]
    by (auto simp: iderw_def flag_tests Let_def s1_def s2_def)
  moreover have "owns None (unlock IdeLock t)" by (rule owns_release(2) [OF t(2)])
  moreover have "bufs t = (bufs s)(b := ?x\<lparr>bdata := (if bit (bflags ?x) 2 then bdata ?x else on_disk s (bdev ?x) (bsector ?x)),
       bflags := (bflags ?x OR B_VALID) AND NOT B_DIRTY\<rparr>)"
    using t(5) b2 h(2-5) d(3) by (simp add: synced_def flag_tests ide_get_def on_disk_def Let_def)
  moreover have "on_disk (unlock IdeLock t) dv sec =
      (if bit (bflags ?x) 2 \<and> odd dv = odd (bdev ?x) \<and> sec = bsector ?x then bdata ?x else on_disk s dv sec)" for dv sec
    using t(6) b2(5) h(5) by (auto simp: on_disk_def flag_tests simp flip: word_unat_eq_iff)
  ultimately show ?thesis using t(3,4,6-10) b2 h(2) quiet_trans [OF b2(6) t(3)]
    by (intro exI [of _ "unlock IdeLock t"]) (simp add: Let_def)
qed

end
