(* ===== verification/Bcache.thy ===== *)
theory Bcache
  imports Bio
begin

text \<open>
  The buffer cache is correct: the doubly linked list of \<^verbatim>\<open>src/bio.c\<close> is a list in order of
  use, every operation returns, a buffer handed out holds the contents of its sector, and
  what is written is on the disk.  The file system sees the cache through the locale
  \<open>block_store\<close>.
\<close>

section \<open>The list of buffers\<close>

text \<open>Following the pointers \<open>nx\<close> from \<open>r\<close> visits the buffers \<open>xs\<close> and then reaches \<open>e\<close>.\<close>

fun chain :: "(bref \<Rightarrow> bref) \<Rightarrow> bref \<Rightarrow> nat list \<Rightarrow> bref \<Rightarrow> bool" where
  "chain nx r [] e \<longleftrightarrow> nx r = e"
| "chain nx r (x # xs) e \<longleftrightarrow> nx r = Bf x \<and> chain nx (Bf x) xs e"

text \<open>The cache list, from the most recently used buffer on.\<close>

definition lru :: "('z) kbuf_scheme \<Rightarrow> nat list \<Rightarrow> bool" where
  "lru s bs \<longleftrightarrow> chain (bnext s) Hd bs Hd \<and> chain (bprev s) Hd (rev bs) Hd"

definition end_of :: "bref \<Rightarrow> nat list \<Rightarrow> bref" where
  "end_of r xs = (if xs = [] then r else Bf (last xs))"

lemma end_of_simps [simp]: "end_of r [] = r" "end_of r (x # xs) = end_of (Bf x) xs" "end_of r (xs @ [x]) = Bf x"
  by (auto simp: end_of_def)

lemma chain_append: "chain nx r (xs @ y # ys) e \<longleftrightarrow> chain nx r xs (Bf y) \<and> chain nx (Bf y) ys e"
  by (induction xs arbitrary: r) auto

lemma chain_end: "chain nx r xs e \<Longrightarrow> nx (end_of r xs) = e"
  by (induction xs arbitrary: r) auto

lemma chain_cong: "nx' r' = nx r \<Longrightarrow> (\<And>x. x \<in> set xs \<Longrightarrow> nx' (Bf x) = nx (Bf x)) \<Longrightarrow> chain nx' r' xs e = chain nx r xs e"
  by (induction xs arbitrary: r r') auto

lemma chain_redirect:
  "chain nx r xs e \<Longrightarrow> distinct xs \<Longrightarrow> r \<notin> Bf ` set xs \<Longrightarrow> chain (nx(end_of r xs := e')) r xs e'"
proof (induction xs arbitrary: r)
  case (Cons x xs)
  have "end_of (Bf x) xs \<noteq> r" using Cons.prems(3) by (auto simp: end_of_def)
  with Cons show ?case by auto
qed simp

lemma chain_unlink:
  assumes "chain nx Hd (xs @ b # ys) Hd" and "distinct (xs @ b # ys)"
  shows "chain (nx(end_of Hd xs := nx (Bf b))) Hd (xs @ ys) Hd"
proof (cases ys)
  case Nil
  then show ?thesis using assms by (auto simp: chain_append intro!: chain_redirect)
next
  case (Cons y zs)
  have c: "chain nx Hd xs (Bf b)" "nx (Bf b) = Bf y" "chain nx (Bf y) zs Hd"
    using assms(1) Cons by (auto simp: chain_append)
  have d: "xs \<noteq> [] \<Longrightarrow> last xs \<notin> set (y # zs)" using assms(2) Cons last_in_set [of xs] by (auto simp del: last_in_set)
  have "chain (nx(end_of Hd xs := Bf y)) Hd xs (Bf y)"
    using c(1) assms(2) by (auto intro!: chain_redirect)
  moreover have "chain (nx(end_of Hd xs := Bf y)) (Bf y) zs Hd"
    using c(3) d
    by (subst chain_cong [where nx = nx and r = "Bf y"]) (auto simp: end_of_def)
  ultimately show ?thesis using Cons c(2) by (simp add: chain_append)
qed

lemma find_from_chain: "chain nx r xs Hd \<Longrightarrow> find_from P nx (nx r) = Some (List.find P xs)"
proof (induction xs arbitrary: r)
  case Nil
  then show ?case by (subst find_from.simps) simp
next
  case (Cons x xs)
  then show ?case by (subst find_from.simps) simp
qed

lemma lru_link_front:
  assumes "lru s bs" and "distinct bs" and "b \<notin> set bs"
  shows "lru (link_front b s) (b # bs)"
proof -
  let ?n = "bnext s" and ?p = "bprev s"
  have c: "chain ?n Hd bs Hd" "chain ?p Hd (rev bs) Hd" using assms(1) by (simp_all add: lru_def)
  have h: "?n Hd = end_of Hd (rev bs)" using c(1) by (cases bs) auto
  have e: "end_of Hd (rev bs) \<noteq> Bf b" using assms(3) by (cases bs) auto
  have "chain (?p(Bf b := Hd)) Hd (rev bs) Hd"
    using c(2) assms(3) by (subst chain_cong [where nx = ?p and r = Hd]) auto
  then have "chain (?p(Bf b := Hd, end_of Hd (rev bs) := Bf b)) Hd (rev bs) (Bf b)"
    using assms(2) by (intro chain_redirect) auto
  moreover have "chain (?n(Bf b := ?n Hd, Hd := Bf b)) (Bf b) bs Hd"
    using c(1) assms(3) by (subst chain_cong [where nx = ?n and r = Hd]) auto
  ultimately show ?thesis using h e by (simp add: lru_def link_front_def Let_def chain_append)
qed

text \<open>The first two assignments of \<^verbatim>\<open>brelse\<close>.\<close>

definition unlink_buf :: "nat \<Rightarrow> ('z) kbuf_scheme \<Rightarrow> ('z) kbuf_scheme" where
  "unlink_buf b s =
     (let s = s\<lparr>bprev := (bprev s)(bnext s (Bf b) := bprev s (Bf b))\<rparr>
      in s\<lparr>bnext := (bnext s)(bprev s (Bf b) := bnext s (Bf b))\<rparr>)"

lemma lru_unlink_buf:
  assumes "lru s (xs @ b # ys)" and "distinct (xs @ b # ys)"
  shows "lru (unlink_buf b s) (xs @ ys)"
proof -
  let ?n = "bnext s" and ?p = "bprev s"
  have c: "chain ?n Hd (xs @ b # ys) Hd" "chain ?p Hd (rev ys @ b # rev xs) Hd" using assms(1) by (simp_all add: lru_def)
  have n: "?n (Bf b) = end_of Hd (rev ys)" using c(1) by (cases ys) (auto simp: chain_append)
  have p: "?p (Bf b) = end_of Hd xs" using c(2) by (cases xs rule: rev_cases) (auto simp: chain_append)
  have ne: "end_of Hd (rev ys) \<noteq> Bf b" using assms(2) by (cases ys) auto
  have "distinct (rev ys @ b # rev xs)" using assms(2) by auto
  then show ?thesis using chain_unlink [OF c(1) assms(2)] chain_unlink [OF c(2)] n p ne
    by (simp add: lru_def unlink_buf_def Let_def)
qed


section \<open>The cache invariant\<close>

text \<open>
  \<open>bcache_ok H s\<close>: the buffers \<open>H\<close> are in use, the others are not busy; no request is pending; no two
  buffers stand for the same sector; a buffer that is valid and not in use has the
  contents of its sector.
\<close>

definition bcache_ok :: "nat set \<Rightarrow> ('z) kbuf_scheme \<Rightarrow> bool" where
  "bcache_ok H s \<longleftrightarrow> (\<exists>bs. lru s bs \<and> distinct bs \<and> set bs = {..<NBUF}) \<and> H \<subseteq> {..<NBUF} \<and>
     idequeue s = None \<and> \<not> ide_err (ide s) \<and>
     (\<forall>b < NBUF. (bit (bflags (bufs s b)) 0 \<longleftrightarrow> b \<in> H) \<and> \<not> bit (bflags (bufs s b)) 2 \<and>
        (bdev (bufs s b) = 0 \<or> bdev (bufs s b) = 1 \<and> havedisk1 s \<or> bdev (bufs s b) = - 1 \<and> \<not> bit (bflags (bufs s b)) 1) \<and>
        (b \<notin> H \<and> bit (bflags (bufs s b)) 1 \<longrightarrow> bdata (bufs s b) = on_disk s (bdev (bufs s b)) (bsector (bufs s b)))) \<and>
     (\<forall>b < NBUF. \<forall>c < NBUF. bdev (bufs s b) = bdev (bufs s c) \<and> bsector (bufs s b) = bsector (bufs s c) \<and>
        bdev (bufs s b) \<noteq> - 1 \<longrightarrow> b = c)"

text \<open>Kernel code of a process that holds no lock.\<close>

definition in_proc :: "('z) kbuf_scheme \<Rightarrow> bool" where
  "in_proc s \<longleftrightarrow> owns None s \<and> (\<exists>i. cur s = Some i \<and> i < length (procs s))"

lemma in_procD: "in_proc s \<Longrightarrow> owns None s"
  by (simp add: in_proc_def)

lemma in_proc_quiet: "in_proc s \<Longrightarrow> quiet s t \<Longrightarrow> owns None t \<Longrightarrow> in_proc t"
  using quiet_length [of s t] by (auto simp: in_proc_def quiet_def)

lemma find_Some: "List.find P xs = Some x \<Longrightarrow> P x \<and> x \<in> set xs"
  by (induction xs) (auto split: if_splits)

lemma bcache_okD:
  assumes "bcache_ok H s" and "b < NBUF"
  shows "bit (bflags (bufs s b)) 0 \<longleftrightarrow> b \<in> H" and "\<not> bit (bflags (bufs s b)) 2"
    and "bdev (bufs s b) = 0 \<or> bdev (bufs s b) = 1 \<and> havedisk1 s \<or> bdev (bufs s b) = - 1 \<and> \<not> bit (bflags (bufs s b)) 1"
    and "b \<notin> H \<Longrightarrow> bit (bflags (bufs s b)) 1 \<Longrightarrow> bdata (bufs s b) = on_disk s (bdev (bufs s b)) (bsector (bufs s b))"
  using assms by (auto simp: bcache_ok_def)

lemma bcache_ok_uniq:
  assumes "bcache_ok H s" and "b < NBUF" and "c < NBUF" and "bdev (bufs s b) = bdev (bufs s c)"
    and "bsector (bufs s b) = bsector (bufs s c)" and "bdev (bufs s c) \<noteq> - 1"
  shows "b = c"
  using assms unfolding bcache_ok_def by (elim conjE) (drule spec [of _ b], drule mp, assumption, drule spec [of _ c], simp)

text \<open>A changed buffer that is in use leaves the invariant alone as long as it keeps its key.\<close>

lemma bcache_ok_change:
  assumes "bcache_ok H s" and "b < NBUF" and "b \<in> H'" and "H' = insert b H"
    and eq: "bnext t = bnext s" "bprev t = bprev s" "idequeue t = None" "\<not> ide_err (ide t)" "havedisk1 t = havedisk1 s"
    and bufs: "bufs t = (bufs s)(b := x)" "bit (bflags x) 0" "\<not> bit (bflags x) 2"
    and dev: "bdev x = 0 \<or> bdev x = 1 \<and> havedisk1 s \<or> bdev x = - 1 \<and> \<not> bit (bflags x) 1"
    and uniq: "\<And>c. c < NBUF \<Longrightarrow> bdev (bufs s c) = bdev x \<Longrightarrow> bsector (bufs s c) = bsector x \<Longrightarrow> bdev x \<noteq> - 1 \<Longrightarrow> c = b"
    and disk: "\<And>c. c < NBUF \<Longrightarrow> c \<noteq> b \<Longrightarrow> c \<notin> H \<Longrightarrow> bit (bflags (bufs s c)) 1 \<Longrightarrow>
       on_disk t (bdev (bufs s c)) (bsector (bufs s c)) = on_disk s (bdev (bufs s c)) (bsector (bufs s c))"
  shows "bcache_ok H' t"
proof -
  have "lru t bs = lru s bs" for bs using eq by (simp add: lru_def)
  then have l: "\<exists>bs. lru t bs \<and> distinct bs \<and> set bs = {..<NBUF}" "H' \<subseteq> {..<NBUF}" using assms(1-4) by (auto simp: bcache_ok_def)
  have each: "(bit (bflags (bufs t c)) 0 \<longleftrightarrow> c \<in> H') \<and> \<not> bit (bflags (bufs t c)) 2 \<and>
        (bdev (bufs t c) = 0 \<or> bdev (bufs t c) = 1 \<and> havedisk1 t \<or> bdev (bufs t c) = - 1 \<and> \<not> bit (bflags (bufs t c)) 1) \<and>
        (c \<notin> H' \<and> bit (bflags (bufs t c)) 1 \<longrightarrow> bdata (bufs t c) = on_disk t (bdev (bufs t c)) (bsector (bufs t c)))"
    if c: "c < NBUF" for c
  proof (cases "c = b")
    case True
    then show ?thesis using bufs dev eq(5) assms(3) by simp
  next
    case False
    then show ?thesis using bcache_okD [OF assms(1) c] disk [OF c False] bufs(1) eq(5) assms(4) by auto
  qed
  have "b' = c" if "b' < NBUF" "c < NBUF" "bdev (bufs t b') = bdev (bufs t c) \<and> bsector (bufs t b') = bsector (bufs t c) \<and>
        bdev (bufs t b') \<noteq> - 1" for b' c
  proof -
    consider "b' = b" "c = b" | "b' \<noteq> b" "c = b" | "b' = b" "c \<noteq> b" | "b' \<noteq> b" "c \<noteq> b" by blast
    then show ?thesis
    proof cases
      case 2
      then show ?thesis using that uniq [of b'] bufs(1) by auto
    next
      case 3
      then show ?thesis using that uniq [of c] bufs(1) by auto
    next
      case 4
      then show ?thesis using that bcache_ok_uniq [OF assms(1), of b' c] bufs(1) by auto
    qed simp
  qed
  then show ?thesis unfolding bcache_ok_def using l each eq(3,4) by blast
qed

lemma bget_ok:
  assumes s: "in_proc s" "bcache_ok H s" and H: "card H < NBUF" "\<forall>b \<in> H. bdev (bufs s b) = dev \<longrightarrow> bsector (bufs s b) \<noteq> sec"
    and dev: "dev = 0 \<or> dev = 1 \<and> havedisk1 s"
  shows "\<exists>b x. b < NBUF \<and> b \<notin> H \<and> bget dev sec s = Ok b ((through BcacheLock s)\<lparr>bufs := (bufs s)(b := x)\<rparr>) \<and>
    bdev x = dev \<and> bsector x = sec \<and> bit (bflags x) 0 \<and> (bit (bflags x) 1 \<longrightarrow> bdata x = on_disk s dev sec) \<and>
    bcache_ok (insert b H) ((through BcacheLock s)\<lparr>bufs := (bufs s)(b := x)\<rparr>)"
proof -
  have o: "owns None s" using s(1) by (rule in_procD)
  obtain bs where bs: "lru s bs" "distinct bs" "set bs = {..<NBUF}" using s(2) by (auto simp: bcache_ok_def)
  have dm: "dev \<noteq> - 1" using dev by auto
  let ?P = "\<lambda>b. bdev (bufs s b) = dev \<and> bsector (bufs s b) = sec" and ?Q = "\<lambda>b. bflags (bufs s b) AND B_BUSY = 0"
  let ?t = "\<lambda>b x. (through BcacheLock s)\<lparr>bufs := (bufs s)(b := x)\<rparr>"
  have a: "acquire BcacheLock s = Ok () (lock_st BcacheLock s)" "owns (Some BcacheLock) (lock_st BcacheLock s)"
    using owns_acquire [OF o] by auto
  have rel: "release BcacheLock (upd_buf b f (lock_st BcacheLock s)) = Ok () (?t b (f (bufs s b)))" for b f
    using owns_release(1) [of BcacheLock "upd_buf b f (lock_st BcacheLock s)"] a(2) by (simp add: upd_buf_def through_def)
  have p: "find_from ?P (bnext s) (bnext s Hd) = Some (List.find ?P bs)"
    using bs(1) by (intro find_from_chain) (simp add: lru_def)
  have q: "find_from ?Q (bprev s) (bprev s Hd) = Some (List.find ?Q (rev bs))"
    using bs(1) by (intro find_from_chain) (simp add: lru_def)
  have ok: "bcache_ok (insert b H) (?t b x)" if "b < NBUF" "bit (bflags x) 0" "\<not> bit (bflags x) 2" "bdev x = dev"
    "\<And>c. c < NBUF \<Longrightarrow> bdev (bufs s c) = dev \<Longrightarrow> bsector (bufs s c) = bsector x \<Longrightarrow> c = b" for b x
    using that s(2) dev by (intro bcache_ok_change [OF s(2), of b _ _ x]) (auto simp: bcache_ok_def on_disk_def)
  show ?thesis
  proof (cases "List.find ?P bs")
    case (Some b)
    then have b: "?P b" "b < NBUF" using find_Some [OF Some] bs(3) by auto
    then have nb: "b \<notin> H" using H(2) by auto
    let ?x = "(bufs s b)\<lparr>bflags := bflags (bufs s b) OR B_BUSY\<rparr>"
    have "bget dev sec s = Ok b (?t b ?x)"
      using a(1) p Some rel [of b] nb bcache_okD(1) [OF s(2) b(2)] by (simp add: bget_def bget_loop_def flag_tests)
    moreover have "bcache_ok (insert b H) (?t b ?x)"
    proof (rule ok)
      fix c assume "c < NBUF" "bdev (bufs s c) = dev" "bsector (bufs s c) = bsector ?x"
      then show "c = b" using b dm by (intro bcache_ok_uniq [OF s(2)]) auto
    qed (use b bcache_okD(2) [OF s(2) b(2)] in auto)
    moreover have "bit (bflags ?x) 1 \<longrightarrow> bdata ?x = on_disk s dev sec" using bcache_okD(4) [OF s(2) b(2) nb] b(1) by simp
    ultimately show ?thesis using b nb by (intro exI [of _ b] exI [of _ ?x]) auto
  next
    case None
    then have un: "\<And>c. c < NBUF \<Longrightarrow> \<not> ?P c" using bs(3) by (auto simp: find_None_iff)
    have "\<exists>c < NBUF. c \<notin> H"
    proof (rule ccontr)
      assume "\<not> (\<exists>c < NBUF. c \<notin> H)"
      then have "{..<NBUF} \<subseteq> H" by auto
      moreover have "finite H" using s(2) finite_subset by (auto simp: bcache_ok_def)
      ultimately have "NBUF \<le> card H" using card_mono [of H "{..<NBUF}"] by simp
      with H(1) show False by simp
    qed
    then obtain c where c: "c < NBUF" "c \<notin> H" by auto
    then obtain b where b: "List.find ?Q (rev bs) = Some b"
      using bs(3) bcache_okD(1) [OF s(2) c(1)] by (cases "List.find ?Q (rev bs)") (auto simp: find_None_iff flag_tests)
    then have b': "b < NBUF" "b \<notin> H" using find_Some [OF b] bs(3) bcache_okD(1) [OF s(2), of b] by (auto simp: flag_tests)
    let ?x = "(bufs s b)\<lparr>bdev := dev, bsector := sec, bflags := B_BUSY\<rparr>"
    have "bget dev sec s = Ok b (?t b ?x)"
      using a(1) p q None b rel [of b] by (simp add: bget_def bget_loop_def)
    moreover have "bcache_ok (insert b H) (?t b ?x)"
      using b' un by (intro ok) (auto simp: bit_B)
    ultimately show ?thesis using b' by (intro exI [of _ b] exI [of _ ?x]) (auto simp: bit_B)
  qed
qed


section \<open>Reading, writing and releasing\<close>

text \<open>The two uses of \<^verbatim>\<open>iderw\<close>.\<close>

lemma iderw_read:
  assumes s: "in_proc s" "idequeue s = None" "\<not> ide_err (ide s)"
    and x: "bit (bflags (bufs s b)) 0" "\<not> bit (bflags (bufs s b)) 1" "\<not> bit (bflags (bufs s b)) 2"
    and d: "bdev (bufs s b) = 0 \<or> havedisk1 s" "unat (bsector (bufs s b)) < 2 ^ 28"
  shows "\<exists>t. iderw b s = Ok () t \<and> in_proc t \<and> quiet s t \<and> idequeue t = None \<and> bnext t = bnext s \<and> bprev t = bprev s \<and>
    havedisk1 t = havedisk1 s \<and> \<not> ide_err (ide t) \<and> on_disk t = on_disk s \<and>
    bufs t = (bufs s)(b := (bufs s b)\<lparr>bdata := on_disk s (bdev (bufs s b)) (bsector (bufs s b)),
       bflags := (bflags (bufs s b) OR B_VALID) AND NOT B_DIRTY\<rparr>)"
proof -
  obtain i where i: "cur s = Some i" "i < length (procs s)" using s(1) by (auto simp: in_proc_def)
  from iderw_ok [OF in_procD [OF s(1)] i s(2) x(1) _ d s(3)] x(2,3) in_proc_quiet [OF s(1)] s(3) show ?thesis
    by (auto simp: Let_def fun_eq_iff)
qed

lemma iderw_write:
  assumes s: "in_proc s" "idequeue s = None" "\<not> ide_err (ide s)"
    and x: "bit (bflags (bufs s b)) 0" "bit (bflags (bufs s b)) 2"
    and d: "bdev (bufs s b) = 0 \<or> havedisk1 s" "unat (bsector (bufs s b)) < 2 ^ 28"
  shows "\<exists>t. iderw b s = Ok () t \<and> in_proc t \<and> quiet s t \<and> idequeue t = None \<and> bnext t = bnext s \<and> bprev t = bprev s \<and>
    havedisk1 t = havedisk1 s \<and> \<not> ide_err (ide t) \<and>
    (\<forall>dv sc. on_disk t dv sc = (if odd dv = odd (bdev (bufs s b)) \<and> sc = bsector (bufs s b) then bdata (bufs s b) else on_disk s dv sc)) \<and>
    bufs t = (bufs s)(b := (bufs s b)\<lparr>bflags := (bflags (bufs s b) OR B_VALID) AND NOT B_DIRTY\<rparr>)"
proof -
  obtain i where i: "cur s = Some i" "i < length (procs s)" using s(1) by (auto simp: in_proc_def)
  from iderw_ok [OF in_procD [OF s(1)] i s(2) x(1) _ d s(3)] x(2) obtain t where
    t: "iderw b s = Ok () t" "owns None t" "quiet s t" "idequeue t = None" "bnext t = bnext s" "bprev t = bprev s"
    "havedisk1 t = havedisk1 s" "ide_err (ide t) = ide_err (ide s)"
    "\<forall>dv sc. on_disk t dv sc = (if odd dv = odd (bdev (bufs s b)) \<and> sc = bsector (bufs s b) then bdata (bufs s b) else on_disk s dv sc)"
    "bufs t = (bufs s)(b := (bufs s b)\<lparr>bflags := (bflags (bufs s b) OR B_VALID) AND NOT B_DIRTY\<rparr>)"
    by (simp add: Let_def) blast
  then show ?thesis using in_proc_quiet [OF s(1) t(3,2)] s(3) by blast
qed

text \<open>\<open>holds b dev sec s\<close>: the buffer stands for the sector.\<close>

definition holds :: "nat \<Rightarrow> u32 \<Rightarrow> u32 \<Rightarrow> ('z) kbuf_scheme \<Rightarrow> bool" where
  "holds b dev sec s \<longleftrightarrow> bdev (bufs s b) = dev \<and> bsector (bufs s b) = sec"

text \<open>The disks and sectors that can be addressed.\<close>

definition sector_ok :: "u32 \<Rightarrow> u32 \<Rightarrow> ('z) kbuf_scheme \<Rightarrow> bool" where
  "sector_ok dev sec s \<longleftrightarrow> (dev = 0 \<or> dev = 1 \<and> havedisk1 s) \<and> unat sec < 2 ^ 28"

lemma on_disk_through [simp]: "on_disk (through l s) = on_disk s" "on_disk (s\<lparr>bufs := f\<rparr>) = on_disk s"
  "on_disk (unlock l s) = on_disk s" "on_disk (lock_st l s) = on_disk s"
  by (simp_all add: on_disk_def fun_eq_iff)

lemma bread_ok:
  assumes s: "in_proc s" "bcache_ok H s" and H: "card H < NBUF" "\<forall>b \<in> H. \<not> holds b dev sec s"
    and sec: "sector_ok dev sec s"
  shows "\<exists>b t. bread dev sec s = Ok b t \<and> b < NBUF \<and> b \<notin> H \<and> in_proc t \<and> quiet s t \<and> bcache_ok (insert b H) t \<and>
    holds b dev sec t \<and> bit (bflags (bufs t b)) 1 \<and> bdata (bufs t b) = on_disk s dev sec \<and> on_disk t = on_disk s \<and>
    havedisk1 t = havedisk1 s \<and> (\<forall>c. c \<noteq> b \<longrightarrow> bufs t c = bufs s c)"
proof -
  have dev: "dev = 0 \<or> dev = 1 \<and> havedisk1 s" "unat sec < 2 ^ 28" using sec by (auto simp: sector_ok_def)
  have nh: "\<forall>b \<in> H. bdev (bufs s b) = dev \<longrightarrow> bsector (bufs s b) \<noteq> sec" using H(2) by (auto simp: holds_def)
  obtain b x where b: "b < NBUF" "b \<notin> H" and g: "bget dev sec s = Ok b ((through BcacheLock s)\<lparr>bufs := (bufs s)(b := x)\<rparr>)"
    and x: "bdev x = dev" "bsector x = sec" "bit (bflags x) 0" "bit (bflags x) 1 \<longrightarrow> bdata x = on_disk s dev sec"
    and ok: "bcache_ok (insert b H) ((through BcacheLock s)\<lparr>bufs := (bufs s)(b := x)\<rparr>)"
    using bget_ok [OF s H(1) nh dev(1)] by (elim exE conjE)
  define t where "t = (through BcacheLock s)\<lparr>bufs := (bufs s)(b := x)\<rparr>"
  have o: "owns None t" unfolding t_def using owns_through [of None s BcacheLock] in_procD [OF s(1)] by simp
  have q: "quiet s t" by (simp add: t_def quiet_def)
  have tb: "bufs t b = x" "on_disk t = on_disk s" "havedisk1 t = havedisk1 s" "\<And>c. c \<noteq> b \<Longrightarrow> bufs t c = bufs s c"
    by (simp_all add: t_def)
  show ?thesis
  proof (cases "bit (bflags x) 1")
    case True
    then have "bread dev sec s = Ok b t" using g x by (simp add: bread_def flag_tests t_def)
    then show ?thesis using True b x ok in_proc_quiet [OF s(1) q o] q tb by (auto simp: holds_def simp flip: t_def)
  next
    case False
    have ok': "bcache_ok (insert b H) t" using ok by (simp add: t_def)
    have "\<not> bit (bflags x) 2" using bcache_okD(2) [OF ok' b(1)] tb(1) by simp
    have f: "idequeue t = None" "\<not> ide_err (ide t)" using ok' by (auto simp: bcache_ok_def)
    have dx: "bdev (bufs t b) = 0 \<or> havedisk1 t" using tb x(1) dev(1) by auto
    let ?y = "x\<lparr>bdata := on_disk s dev sec, bflags := (bflags x OR B_VALID) AND NOT B_DIRTY\<rparr>"
    from iderw_read [OF in_proc_quiet [OF s(1) q o] f, of b, unfolded tb(1-3) x(1,2)] x(3) False \<open>\<not> bit (bflags x) 2\<close> dx dev(2) tb(1,3) x(1)
    obtain u where u: "iderw b t = Ok () u" "in_proc u" "quiet t u" "idequeue u = None" "bnext u = bnext t" "bprev u = bprev t"
      "havedisk1 u = havedisk1 s" "\<not> ide_err (ide u)" "on_disk u = on_disk s" "bufs u = (bufs t)(b := ?y)"
      by auto
    have "bcache_ok (insert b H) u"
    proof (rule bcache_ok_change [OF ok' b(1) _ _ u(5,6,4,8) _ u(10)])
      fix c assume "c < NBUF" "bdev (bufs t c) = bdev ?y" "bsector (bufs t c) = bsector ?y" "bdev ?y \<noteq> - 1"
      then show "c = b" using x tb(1) b(1) by (intro bcache_ok_uniq [OF ok']) auto
    qed (use u(7,9) x dev(1) tb in auto)
    moreover have "bread dev sec s = Ok b u" using g False u(1) by (simp add: bread_def flag_tests t_def)
    moreover have "quiet s u" by (rule quiet_trans [OF q u(3)])
    ultimately show ?thesis using b u(2,7,9,10) x tb by (intro exI [of _ b] exI [of _ u]) (auto simp: holds_def)
  qed
qed

lemma bwrite_ok:
  assumes s: "in_proc s" "bcache_ok H s" "b \<in> H" "holds b dev sec s" and sec: "sector_ok dev sec s"
  shows "\<exists>t. bwrite b s = Ok () t \<and> in_proc t \<and> quiet s t \<and> bcache_ok H t \<and> holds b dev sec t \<and>
    bit (bflags (bufs t b)) 1 \<and> bdata (bufs t b) = bdata (bufs s b) \<and> havedisk1 t = havedisk1 s \<and>
    on_disk t dev sec = bdata (bufs s b) \<and>
    (\<forall>d' s'. d' \<in> {0, 1} \<longrightarrow> (d', s') \<noteq> (dev, sec) \<longrightarrow> on_disk t d' s' = on_disk s d' s') \<and> (\<forall>c. c \<noteq> b \<longrightarrow> bufs t c = bufs s c)"
proof -
  let ?x = "bufs s b"
  define t where "t = upd_buf b (\<lambda>x. x\<lparr>bflags := bflags x OR B_DIRTY\<rparr>) s"
  have b: "b < NBUF" using s(2,3) by (auto simp: bcache_ok_def)
  have busy: "bit (bflags ?x) 0" using bcache_okD(1) [OF s(2) b] s(3) by simp
  have x: "bdev ?x = dev" "bsector ?x = sec" "dev = 0 \<or> dev = 1 \<and> havedisk1 s" "unat sec < 2 ^ 28"
    using s(4) sec by (auto simp: holds_def sector_ok_def)
  have tb: "bufs t b = ?x\<lparr>bflags := bflags ?x OR B_DIRTY\<rparr>" "havedisk1 t = havedisk1 s" "on_disk t = on_disk s"
    "owns None t" "quiet s t" "\<And>c. c \<noteq> b \<Longrightarrow> bufs t c = bufs s c" "bnext t = bnext s" "bprev t = bprev s"
    using in_procD [OF s(1)] by (simp_all add: t_def) (simp_all add: upd_buf_def fun_eq_iff on_disk_def)
  have f: "idequeue t = None" "\<not> ide_err (ide t)" using s(2) by (auto simp: bcache_ok_def t_def upd_buf_def)
  have fx: "bit (bflags (bufs t b)) 0" "bit (bflags (bufs t b)) 2" using busy tb(1) by auto
  let ?y = "?x\<lparr>bflags := ((bflags ?x OR B_DIRTY) OR B_VALID) AND NOT B_DIRTY\<rparr>"
  have dx: "bdev (bufs t b) = 0 \<or> havedisk1 t" "unat (bsector (bufs t b)) < 2 ^ 28" using x tb(1,2) by auto
  from iderw_write [OF in_proc_quiet [OF s(1) tb(5,4)] f fx dx] obtain u where
    u: "iderw b t = Ok () u" "in_proc u" "quiet t u" "idequeue u = None" "bnext u = bnext t" "bprev u = bprev t"
      "havedisk1 u = havedisk1 t" "\<not> ide_err (ide u)"
      "\<forall>dv sc. on_disk u dv sc = (if odd dv = odd (bdev (bufs t b)) \<and> sc = bsector (bufs t b) then bdata (bufs t b) else on_disk t dv sc)"
      "bufs u = (bufs t)(b := (bufs t b)\<lparr>bflags := (bflags (bufs t b) OR B_VALID) AND NOT B_DIRTY\<rparr>)" by (elim exE conjE)
  have du: "on_disk u dv sc = (if odd dv = odd dev \<and> sc = sec then bdata ?x else on_disk s dv sc)" for dv sc
    using u(9) x(1,2) tb(1,3) by simp
  have q: "quiet s u" by (rule quiet_trans [OF tb(5) u(3)])
  have bu: "bufs u = (bufs s)(b := ?y)" using u(10) tb(1) by (simp add: t_def upd_buf_def)
  have "bcache_ok H u"
  proof (rule bcache_ok_change [OF s(2) b s(3) _ _ _ u(4,8) _ bu])
    fix c assume "c < NBUF" "bdev (bufs s c) = bdev ?y" "bsector (bufs s c) = bsector ?y" "bdev ?y \<noteq> - 1"
    then show "c = b" using b by (intro bcache_ok_uniq [OF s(2)]) auto
  next
    fix c assume c: "c < NBUF" "c \<noteq> b" "bit (bflags (bufs s c)) 1"
    have "bdev (bufs s c) = dev \<longrightarrow> bsector (bufs s c) \<noteq> sec"
      using bcache_ok_uniq [OF s(2) c(1) b] c(2) x by auto
    moreover have "bdev (bufs s c) = 0 \<or> bdev (bufs s c) = 1" using bcache_okD(3) [OF s(2) c(1)] c(3) by auto
    ultimately show "on_disk u (bdev (bufs s c)) (bsector (bufs s c)) = on_disk s (bdev (bufs s c)) (bsector (bufs s c))"
      unfolding du using x(3) by auto
  qed (use s(3) u(5-7) tb x busy in auto)
  moreover have "bwrite b s = Ok () u" using busy u(1) by (simp add: bwrite_def flag_tests t_def)
  moreover have "on_disk u d' s' = on_disk s d' s'" if "d' \<in> {0, 1}" "(d', s') \<noteq> (dev, sec)" for d' s'
    unfolding du using that x(3) by auto
  ultimately show ?thesis using q u(2,7) du bu x tb(2) by (intro exI [of _ u]) (simp add: holds_def)
qed


interpretation link_front_u: mach_upd "link_front b" for b
  by unfold_locales (simp_all add: link_front_def Let_def)

interpretation unlink_buf_u: mach_upd "unlink_buf b" for b
  by unfold_locales (simp_all add: unlink_buf_def Let_def)

lemma links_simps [simp]:
  "bufs (link_front b s) = bufs s" "ide (link_front b s) = ide s" "idequeue (link_front b s) = idequeue s"
  "havedisk1 (link_front b s) = havedisk1 s" "quiet u (link_front b s) = quiet u s"
  "bufs (unlink_buf b s) = bufs s" "ide (unlink_buf b s) = ide s" "idequeue (unlink_buf b s) = idequeue s"
  "havedisk1 (unlink_buf b s) = havedisk1 s" "quiet u (unlink_buf b s) = quiet u s"
  by (simp_all add: link_front_def unlink_buf_def quiet_def Let_def)

lemma quiet_wakeup1 [simp]: "quiet s (wakeup1 c t) = quiet s t"
proof -
  have "calm \<circ> wake c = calm" by (simp add: fun_eq_iff)
  then show ?thesis by (simp add: quiet_def wakeup1_def)
qed

interpretation wakeup1_u: mach_upd "wakeup1 c" for c
  by unfold_locales (simp_all add: wakeup1_def)

lemma lru_cong: "bnext t = bnext s \<Longrightarrow> bprev t = bprev s \<Longrightarrow> lru t bs = lru s bs"
  by (simp add: lru_def)

lemma brelse_eq:
  assumes "owns None s" and "bit (bflags (bufs s b)) 0"
  defines "t \<equiv> wakeup1 (ChBuf b) (through PtableLock (upd_buf b (\<lambda>x. x\<lparr>bflags := bflags x AND NOT B_BUSY\<rparr>)
      (link_front b (unlink_buf b (lock_st BcacheLock s)))))"
  shows "brelse b s = Ok () (unlock BcacheLock t)" and "owns None (unlock BcacheLock t)"
proof -
  let ?u = "upd_buf b (\<lambda>x. x\<lparr>bflags := bflags x AND NOT B_BUSY\<rparr>) (link_front b (unlink_buf b (lock_st BcacheLock s)))"
  have o: "owns (Some BcacheLock) ?u" using owns_acquire(2) [OF assms(1)] by simp
  have w: "wakeup (ChBuf b) ?u = Ok () t" "owns (Some BcacheLock) t"
    unfolding t_def using owns_wakeup [OF o, of "ChBuf b"] by simp_all
  show "owns None (unlock BcacheLock t)" by (rule owns_release(2) [OF w(2)])
  show "brelse b s = Ok () (unlock BcacheLock t)"
    using assms(2) owns_acquire(1) [OF assms(1)] owns_release(1) [OF w(2)] w(1)
    by (simp add: brelse_def flag_tests unlink_buf_def Let_def)
qed

lemma brelse_ok:
  assumes s: "in_proc s" "bcache_ok H s" "b \<in> H"
    and coh: "bit (bflags (bufs s b)) 1 \<longrightarrow> bdata (bufs s b) = on_disk s (bdev (bufs s b)) (bsector (bufs s b))"
  shows "\<exists>t. brelse b s = Ok () t \<and> in_proc t \<and> quiet s t \<and> bcache_ok (H - {b}) t \<and> on_disk t = on_disk s \<and>
    havedisk1 t = havedisk1 s \<and> (\<forall>c. c \<noteq> b \<longrightarrow> bufs t c = bufs s c) \<and>
    (\<forall>bs. lru s bs \<and> distinct bs \<and> b \<in> set bs \<longrightarrow> lru t (b # remove1 b bs))"
proof -
  define t where "t = unlock BcacheLock (wakeup1 (ChBuf b) (through PtableLock (upd_buf b (\<lambda>x. x\<lparr>bflags := bflags x AND NOT B_BUSY\<rparr>)
      (link_front b (unlink_buf b (lock_st BcacheLock s))))))"
  have b: "b < NBUF" using s(2,3) by (auto simp: bcache_ok_def)
  have busy: "bit (bflags (bufs s b)) 0" using bcache_okD(1) [OF s(2) b] s(3) by simp
  have r: "brelse b s = Ok () t" "owns None t" unfolding t_def using brelse_eq [OF in_procD [OF s(1)] busy] by auto
  have q: "quiet s t" by (simp add: t_def)
  have f: "bufs t = (bufs s)(b := (bufs s b)\<lparr>bflags := bflags (bufs s b) AND NOT B_BUSY\<rparr>)" "idequeue t = idequeue s"
    "ide t = ide s" "havedisk1 t = havedisk1 s" by (simp_all add: t_def) (simp_all add: upd_buf_def)
  have links: "bnext t = bnext (link_front b (unlink_buf b s))" "bprev t = bprev (link_front b (unlink_buf b s))"
    by (simp_all add: t_def) (simp_all add: upd_buf_def link_front_def unlink_buf_def Let_def)
  have lru: "lru t (b # remove1 b bs)" if bs: "lru s bs" "distinct bs" "b \<in> set bs" for bs
  proof -
    obtain xs ys where x: "bs = xs @ b # ys" "b \<notin> set xs" using split_list_first [OF bs(3)] by auto
    then have "remove1 b bs = xs @ ys" by (simp add: remove1_append)
    moreover have "lru (link_front b (unlink_buf b s)) (b # xs @ ys)"
      using bs x lru_unlink_buf [of s xs b ys] by (intro lru_link_front) auto
    ultimately show ?thesis using lru_cong [OF links] by simp
  qed
  have od: "on_disk t = on_disk s" using f(3) by (simp add: on_disk_def fun_eq_iff)
  have "bcache_ok (H - {b}) t"
  proof -
    obtain bs where bs: "lru s bs" "distinct bs" "set bs = {..<NBUF}" using s(2) by (auto simp: bcache_ok_def)
    have l: "lru t (b # remove1 b bs)" "distinct (b # remove1 b bs)" "set (b # remove1 b bs) = {..<NBUF}"
      using lru [OF bs(1,2)] bs b by auto
    have k: "bdev (bufs t c) = bdev (bufs s c)" "bsector (bufs t c) = bsector (bufs s c)" "bdata (bufs t c) = bdata (bufs s c)" for c
      using f(1) by auto
    have each: "(bit (bflags (bufs t c)) 0 \<longleftrightarrow> c \<in> H - {b}) \<and> \<not> bit (bflags (bufs t c)) 2 \<and>
        (bdev (bufs t c) = 0 \<or> bdev (bufs t c) = 1 \<and> havedisk1 t \<or> bdev (bufs t c) = - 1 \<and> \<not> bit (bflags (bufs t c)) 1) \<and>
        (c \<notin> H - {b} \<and> bit (bflags (bufs t c)) 1 \<longrightarrow> bdata (bufs t c) = on_disk t (bdev (bufs t c)) (bsector (bufs t c)))"
      if c: "c < NBUF" for c
      unfolding k od f(4) using bcache_okD [OF s(2) c] coh f(1) by (cases "c = b") auto
    have "b' = c" if "b' < NBUF" "c < NBUF" "bdev (bufs t b') = bdev (bufs t c) \<and> bsector (bufs t b') = bsector (bufs t c) \<and>
        bdev (bufs t b') \<noteq> - 1" for b' c
      using that bcache_ok_uniq [OF s(2) that(1,2)] unfolding k by auto
    moreover have "H - {b} \<subseteq> {..<NBUF}" "idequeue t = None" "\<not> ide_err (ide t)" using s(2) f by (auto simp: bcache_ok_def)
    ultimately show ?thesis unfolding bcache_ok_def using l each by blast
  qed
  then show ?thesis using r q in_proc_quiet [OF s(1) q r(2)] f od lru by (intro exI [of _ t]) auto
qed


section \<open>The interface of the cache\<close>

text \<open>
  What the file system relies on.  \<open>ok H s\<close> is the invariant while the client has the buffers \<open>H\<close>,
  \<open>at s d n\<close> the contents of sector \<open>n\<close> of disk \<open>d\<close>, \<open>val s b\<close> those of buffer \<open>b\<close>, \<open>key s b\<close> the sector
  it stands for; \<open>frame\<close> relates states that differ in nothing but the cache and the disk.
\<close>

definition same_on :: "('s \<Rightarrow> nat \<Rightarrow> 'k) \<Rightarrow> ('s \<Rightarrow> nat \<Rightarrow> 'v) \<Rightarrow> nat set \<Rightarrow> 's \<Rightarrow> 's \<Rightarrow> bool" where
  "same_on key val H s t \<longleftrightarrow> (\<forall>c \<in> H. key t c = key s c \<and> val t c = val s c)"

locale block_store =
  fixes ok :: "nat set \<Rightarrow> 's \<Rightarrow> bool" and at :: "'s \<Rightarrow> u32 \<times> u32 \<Rightarrow> u8 list" and val :: "'s \<Rightarrow> nat \<Rightarrow> u8 list"
    and key :: "'s \<Rightarrow> nat \<Rightarrow> u32 \<times> u32" and valid :: "u32 \<times> u32 \<Rightarrow> 's \<Rightarrow> bool" and frame :: "'s \<Rightarrow> 's \<Rightarrow> bool"
    and rd :: "u32 \<Rightarrow> u32 \<Rightarrow> 's \<Rightarrow> (nat, 's) res" and wr :: "nat \<Rightarrow> 's \<Rightarrow> (unit, 's) res" and rel :: "nat \<Rightarrow> 's \<Rightarrow> (unit, 's) res"
    and upd :: "nat \<Rightarrow> (u8 list \<Rightarrow> u8 list) \<Rightarrow> 's \<Rightarrow> 's"
  assumes frame_refl: "frame s s" and frame_trans: "frame s t \<Longrightarrow> frame t u \<Longrightarrow> frame s u"
    and frame_valid: "frame s t \<Longrightarrow> valid k t = valid k s"
    and rd: "ok H s \<Longrightarrow> card H < NBUF \<Longrightarrow> (d, n) \<notin> key s ` H \<Longrightarrow> valid (d, n) s \<Longrightarrow>
      \<exists>b t. rd d n s = Ok b t \<and> b \<notin> H \<and> ok (insert b H) t \<and> frame s t \<and> at t = at s \<and> key t b = (d, n) \<and> val t b = at s (d, n) \<and>
        (\<forall>c \<in> H. key t c = key s c \<and> val t c = val s c)"
    and wr: "ok H s \<Longrightarrow> b \<in> H \<Longrightarrow> valid (key s b) s \<Longrightarrow>
      \<exists>t. wr b s = Ok () t \<and> ok H t \<and> frame s t \<and> at t = (at s)(key s b := val s b) \<and> (\<forall>c. key t c = key s c \<and> val t c = val s c)"
    and rel: "ok H s \<Longrightarrow> b \<in> H \<Longrightarrow> val s b = at s (key s b) \<Longrightarrow>
      \<exists>t. rel b s = Ok () t \<and> ok (H - {b}) t \<and> frame s t \<and> at t = at s \<and> (\<forall>c. c \<noteq> b \<longrightarrow> key t c = key s c \<and> val t c = val s c)"
    and upd: "b \<in> H \<Longrightarrow> ok H (upd b f s) = ok H s" "frame s (upd b f s)" "at (upd b f s) = at s" "key (upd b f s) = key s"
      "val (upd b f s) = (val s)(b := f (val s b))"
begin

lemma read_block:
  assumes "ok H s" and "card H < NBUF" and "(d, n) \<notin> key s ` H" and "valid (d, n) s"
  shows "\<exists>b t u. rd d n s = Ok b t \<and> val t b = at s (d, n) \<and> frame s t \<and> rel b t = Ok () u \<and> ok H u \<and> frame s u \<and> at u = at s \<and> same_on key val H s u"
proof -
  from rd [OF assms] obtain b t where t: "rd d n s = Ok b t" "b \<notin> H" "ok (insert b H) t" "frame s t" "at t = at s" "key t b = (d, n)"
    "val t b = at s (d, n)" "\<forall>c \<in> H. key t c = key s c \<and> val t c = val s c" by (elim exE conjE)
  have "b \<in> insert b H" "val t b = at t (key t b)" using t(5-7) by simp_all
  from rel [OF t(3) this] obtain u where u: "rel b t = Ok () u" "ok (insert b H - {b}) u" "frame t u" "at u = at t"
    "\<forall>c. c \<noteq> b \<longrightarrow> key u c = key t c \<and> val u c = val t c" by (elim exE conjE)
  have "insert b H - {b} = H" using t(2) by simp
  moreover have "same_on key val H s u" using t(2,8) u(5) unfolding same_on_def by metis
  ultimately show ?thesis using t u frame_trans [OF t(4) u(3)] by (intro exI [of _ b] exI [of _ t] exI [of _ u]) simp
qed

lemma update_block:
  assumes "ok H s" and "card H < NBUF" and "(d, n) \<notin> key s ` H" and "valid (d, n) s"
  shows "\<exists>b t u v. rd d n s = Ok b t \<and> val t b = at s (d, n) \<and> frame s t \<and> wr b (upd b f t) = Ok () u \<and> rel b u = Ok () v \<and>
    ok H v \<and> frame s v \<and> at v = (at s)((d, n) := f (at s (d, n))) \<and> same_on key val H s v"
proof -
  from rd [OF assms] obtain b t where t: "rd d n s = Ok b t" "b \<notin> H" "ok (insert b H) t" "frame s t" "at t = at s" "key t b = (d, n)"
    "val t b = at s (d, n)" "\<forall>c \<in> H. key t c = key s c \<and> val t c = val s c" by (elim exE conjE)
  let ?t = "upd b f t"
  have t': "ok (insert b H) ?t" "frame s ?t" "at ?t = at s" "key ?t = key t" "val ?t = (val t)(b := f (at s (d, n)))"
    using t upd(1) [of b "insert b H"] upd(2-5) frame_trans [OF t(4)] by auto
  have bH: "b \<in> insert b H" by simp
  have "valid (key ?t b) ?t" using frame_valid [OF t'(2), of "(d, n)"] assms(4) t'(4) t(6) by simp
  from wr [OF t'(1) bH this] obtain u where u: "wr b ?t = Ok () u" "ok (insert b H) u" "frame ?t u"
    "at u = (at ?t)(key ?t b := val ?t b)" "\<forall>c. key u c = key ?t c \<and> val u c = val ?t c" by (elim exE conjE)
  have "val u b = at u (key u b)" using u(4,5) by simp
  from rel [OF u(2) bH this] obtain v where v: "rel b u = Ok () v" "ok (insert b H - {b}) v" "frame u v" "at v = at u"
    "\<forall>c. c \<noteq> b \<longrightarrow> key v c = key u c \<and> val v c = val u c" by (elim exE conjE)
  have "insert b H - {b} = H" using t(2) by simp
  moreover have "same_on key val H s v"
    unfolding same_on_def
  proof
    fix c assume c: "c \<in> H"
    then have "c \<noteq> b" using t(2) by auto
    then show "key v c = key s c \<and> val v c = val s c" using v(5) u(5) t'(4,5) t(8) c by simp
  qed
  moreover have "frame s v" using frame_trans [OF frame_trans [OF t'(2) u(3)] v(3)] .
  ultimately show ?thesis using t u v t'(3-5)
    by (intro exI [of _ b] exI [of _ t] exI [of _ u] exI [of _ v]) simp
qed

end


text \<open>
  A history of accesses: reading a sector, and replacing the contents of one.  \<open>run_blocks\<close> runs it
  with the operations of a cache, \<open>run_disk\<close> directly on the contents of the disks.
\<close>

datatype bop = BRead u32 u32 | BWrite u32 u32 "u8 list"

fun bop_key :: "bop \<Rightarrow> u32 \<times> u32" where
  "bop_key (BRead d n) = (d, n)"
| "bop_key (BWrite d n xs) = (d, n)"

fun run_blocks :: "(u32 \<Rightarrow> u32 \<Rightarrow> 's \<Rightarrow> (nat, 's) res) \<Rightarrow> (nat \<Rightarrow> 's \<Rightarrow> (unit, 's) res) \<Rightarrow> (nat \<Rightarrow> 's \<Rightarrow> (unit, 's) res) \<Rightarrow>
    (nat \<Rightarrow> (u8 list \<Rightarrow> u8 list) \<Rightarrow> 's \<Rightarrow> 's) \<Rightarrow> ('s \<Rightarrow> nat \<Rightarrow> u8 list) \<Rightarrow> bop list \<Rightarrow> 's \<Rightarrow> (u8 list list, 's) res" where
  "run_blocks rd wr rel upd val [] s = Ok [] s"
| "run_blocks rd wr rel upd val (BRead d n # ops) s =
     bindr (rd d n s) (\<lambda>b s. let x = val s b in bindr (rel b s) (\<lambda>_ s.
       bindr (run_blocks rd wr rel upd val ops s) (\<lambda>xs s. Ok (x # xs) s)))"
| "run_blocks rd wr rel upd val (BWrite d n xs # ops) s =
     bindr (rd d n s) (\<lambda>b s. bindr (wr b (upd b (\<lambda>_. xs) s)) (\<lambda>_ s. bindr (rel b s) (\<lambda>_ s.
       run_blocks rd wr rel upd val ops s)))"

fun run_disk :: "bop list \<Rightarrow> (u32 \<times> u32 \<Rightarrow> u8 list) \<Rightarrow> u8 list list \<times> (u32 \<times> u32 \<Rightarrow> u8 list)" where
  "run_disk [] D = ([], D)"
| "run_disk (BRead d n # ops) D = (let r = run_disk ops D in (D (d, n) # fst r, snd r))"
| "run_disk (BWrite d n xs # ops) D = run_disk ops (D((d, n) := xs))"

context block_store
begin

lemma run_blocks_ok:
  assumes "ok {} s" and "\<forall>op \<in> set ops. valid (bop_key op) s"
  shows "\<exists>t. run_blocks rd wr rel upd val ops s = Ok (fst (run_disk ops (at s))) t \<and> ok {} t \<and> frame s t \<and>
    at t = snd (run_disk ops (at s))"
  using assms
proof (induction ops arbitrary: s)
  case Nil
  then show ?case using frame_refl by simp
next
  case (Cons op ops)
  have v: "valid (bop_key op) s" using Cons.prems(2) by simp
  have ih: "\<exists>t. run_blocks rd wr rel upd val ops u = Ok (fst (run_disk ops (at u))) t \<and> ok {} t \<and> frame s t \<and>
      at t = snd (run_disk ops (at u))" if "ok {} u" "frame s u" for u
    using Cons.IH [OF that(1)] Cons.prems(2) frame_valid [OF that(2)] frame_trans [OF that(2)] by auto
  have c: "card ({} :: nat set) < NBUF" by simp
  show ?case
  proof (cases op)
    case (BRead d n)
    from read_block [OF Cons.prems(1) c, of d n] v BRead obtain b t u where
      u: "rd d n s = Ok b t" "val t b = at s (d, n)" "rel b t = Ok () u" "ok {} u" "frame s u" "at u = at s" by auto
    then show ?thesis using ih [OF u(4,5)] BRead by (auto simp: Let_def)
  next
    case (BWrite d n xs)
    from update_block [OF Cons.prems(1) c, of d n "\<lambda>_. xs"] v BWrite obtain b t u v' where
      u: "rd d n s = Ok b t" "wr b (upd b (\<lambda>_. xs) t) = Ok () u" "rel b u = Ok () v'" "ok {} v'" "frame s v'"
        "at v' = (at s)((d, n) := xs)" by auto
    then show ?thesis using ih [OF u(4,5)] BWrite by auto
  qed
qed

end

text \<open>The contents of the sectors of the two disks.\<close>

definition contents :: "('z) kbuf_scheme \<Rightarrow> u32 \<times> u32 \<Rightarrow> u8 list" where
  "contents s k = (if fst k = 0 \<or> fst k = 1 then on_disk s (fst k) (snd k) else [])"

definition bkey :: "('z) kbuf_scheme \<Rightarrow> nat \<Rightarrow> u32 \<times> u32" where
  "bkey s b = (bdev (bufs s b), bsector (bufs s b))"

definition bval :: "('z) kbuf_scheme \<Rightarrow> nat \<Rightarrow> u8 list" where
  "bval s b = bdata (bufs s b)"

definition cache_ok :: "nat set \<Rightarrow> ('z) kbuf_scheme \<Rightarrow> bool" where
  "cache_ok H s \<longleftrightarrow> in_proc s \<and> bcache_ok H s"

definition bframe :: "('z) kbuf_scheme \<Rightarrow> ('z) kbuf_scheme \<Rightarrow> bool" where
  "bframe s t \<longleftrightarrow> quiet s t \<and> havedisk1 t = havedisk1 s"

definition upd_data :: "nat \<Rightarrow> (u8 list \<Rightarrow> u8 list) \<Rightarrow> ('z) kbuf_scheme \<Rightarrow> ('z) kbuf_scheme" where
  "upd_data b f s = upd_buf b (\<lambda>x. x\<lparr>bdata := f (bdata x)\<rparr>) s"

lemma contents_cong: "on_disk t = on_disk s \<Longrightarrow> contents t = contents s"
  by (simp add: contents_def fun_eq_iff)

lemma in_proc_upd_data: "in_proc (upd_data b f s) = in_proc s"
  by (simp add: in_proc_def upd_data_def) (simp add: upd_buf_def)

lemma bcache_ok_upd_data:
  assumes "b \<in> H"
  shows "bcache_ok H (upd_data b f s) = bcache_ok H s"
proof -
  let ?t = "upd_data b f s"
  have k: "bflags (bufs ?t c) = bflags (bufs s c)" "bdev (bufs ?t c) = bdev (bufs s c)" "bsector (bufs ?t c) = bsector (bufs s c)"
    "c \<notin> H \<Longrightarrow> bdata (bufs ?t c) = bdata (bufs s c)" for c
    using assms by (auto simp: upd_data_def upd_buf_def)
  have e: "lru ?t bs = lru s bs" "idequeue ?t = idequeue s" "ide ?t = ide s" "havedisk1 ?t = havedisk1 s" "on_disk ?t = on_disk s" for bs
    by (simp_all add: upd_data_def upd_buf_def lru_def on_disk_def fun_eq_iff)
  show ?thesis unfolding bcache_ok_def k(1-3) e using k(4) by (simp cong: conj_cong imp_cong)
qed

interpretation bc: block_store cache_ok contents bval bkey "\<lambda>k. sector_ok (fst k) (snd k)" bframe bread bwrite brelse upd_data
proof unfold_locales
  show "bframe s s" for s :: "('z) kbuf_scheme" by (simp add: bframe_def)
  show "bframe s u" if "bframe s t" "bframe t u" for s t u :: "('z) kbuf_scheme"
    using that quiet_trans by (auto simp: bframe_def)
  show "sector_ok (fst k) (snd k) t = sector_ok (fst k) (snd k) s" if "bframe s t" for k and s t :: "('z) kbuf_scheme"
    using that by (simp add: bframe_def sector_ok_def)
next
  fix H d n and s :: "('z) kbuf_scheme"
  assume a: "cache_ok H s" "card H < NBUF" "(d, n) \<notin> bkey s ` H" "sector_ok (fst (d, n)) (snd (d, n)) s"
  then have "\<forall>b \<in> H. \<not> holds b d n s" by (auto simp: holds_def bkey_def)
  with a bread_ok [of s H d n] obtain b t where t: "bread d n s = Ok b t" "b \<notin> H" "in_proc t" "quiet s t" "bcache_ok (insert b H) t"
    "holds b d n t" "bdata (bufs t b) = on_disk s d n" "on_disk t = on_disk s" "havedisk1 t = havedisk1 s" "\<forall>c. c \<noteq> b \<longrightarrow> bufs t c = bufs s c"
    unfolding cache_ok_def fst_conv snd_conv by blast
  have "d = 0 \<or> d = 1" using a(4) by (auto simp: sector_ok_def)
  then show "\<exists>b t. bread d n s = Ok b t \<and> b \<notin> H \<and> cache_ok (insert b H) t \<and> bframe s t \<and> contents t = contents s \<and> bkey t b = (d, n) \<and>
      bval t b = contents s (d, n) \<and> (\<forall>c \<in> H. bkey t c = bkey s c \<and> bval t c = bval s c)"
    using t contents_cong [OF t(8)]
    by (intro exI [of _ b] exI [of _ t]) (auto simp: cache_ok_def bframe_def bkey_def bval_def holds_def contents_def)
next
  fix H b and s :: "('z) kbuf_scheme"
  assume a: "cache_ok H s" "b \<in> H" "sector_ok (fst (bkey s b)) (snd (bkey s b)) s"
  obtain d n where k: "bkey s b = (d, n)" by fastforce
  then have h: "holds b d n s" "sector_ok d n s" using a(3) by (auto simp: holds_def bkey_def)
  from bwrite_ok [of s H b d n] a h obtain t where t: "bwrite b s = Ok () t" "in_proc t" "quiet s t" "bcache_ok H t" "holds b d n t"
    "bdata (bufs t b) = bdata (bufs s b)" "havedisk1 t = havedisk1 s" "on_disk t d n = bdata (bufs s b)"
    "\<forall>d' s'. d' \<in> {0, 1} \<longrightarrow> (d', s') \<noteq> (d, n) \<longrightarrow> on_disk t d' s' = on_disk s d' s'" "\<forall>c. c \<noteq> b \<longrightarrow> bufs t c = bufs s c"
    unfolding cache_ok_def by blast
  have d: "d = 0 \<or> d = 1" using h(2) by (auto simp: sector_ok_def)
  have "contents t k' = ((contents s)((d, n) := bval s b)) k'" for k'
    using t(8) t(9) [rule_format, of "fst k'" "snd k'"] d by (cases "k' = (d, n)") (auto simp: contents_def bval_def)
  moreover have "bkey t c = bkey s c \<and> bval t c = bval s c" for c
    using t(5,6,10) h(1) by (cases "c = b") (auto simp: bkey_def bval_def holds_def)
  ultimately show "\<exists>t. bwrite b s = Ok () t \<and> cache_ok H t \<and> bframe s t \<and> contents t = (contents s)(bkey s b := bval s b) \<and>
      (\<forall>c. bkey t c = bkey s c \<and> bval t c = bval s c)"
    using t k by (intro exI [of _ t]) (auto simp: cache_ok_def bframe_def fun_eq_iff)
next
  fix H b and s :: "('z) kbuf_scheme"
  assume a: "cache_ok H s" "b \<in> H" "bval s b = contents s (bkey s b)"
  have "b < NBUF" using a(1,2) by (auto simp: cache_ok_def bcache_ok_def)
  then have "bit (bflags (bufs s b)) 1 \<longrightarrow> bdata (bufs s b) = on_disk s (bdev (bufs s b)) (bsector (bufs s b))"
    using bcache_okD(3) [of H s b] a by (auto simp: cache_ok_def bval_def bkey_def contents_def)
  with a brelse_ok [of s H b] obtain t where t: "brelse b s = Ok () t" "in_proc t" "quiet s t" "bcache_ok (H - {b}) t" "on_disk t = on_disk s"
    "havedisk1 t = havedisk1 s" "\<forall>c. c \<noteq> b \<longrightarrow> bufs t c = bufs s c" unfolding cache_ok_def by blast
  then show "\<exists>t. brelse b s = Ok () t \<and> cache_ok (H - {b}) t \<and> bframe s t \<and> contents t = contents s \<and>
      (\<forall>c. c \<noteq> b \<longrightarrow> bkey t c = bkey s c \<and> bval t c = bval s c)"
    using contents_cong [OF t(5)] by (intro exI [of _ t]) (auto simp: cache_ok_def bframe_def bkey_def bval_def)
next
  fix b H f and s :: "('z) kbuf_scheme"
  show "cache_ok H (upd_data b f s) = cache_ok H s" if "b \<in> H"
    using that by (simp add: cache_ok_def bcache_ok_upd_data in_proc_upd_data)
qed (auto simp: upd_data_def upd_buf_def bframe_def quiet_def contents_def bkey_def bval_def on_disk_def fun_eq_iff)


section \<open>The cache from its initialisation on\<close>

definition binit_step :: "nat \<Rightarrow> ('z) kbuf_scheme \<Rightarrow> ('z) kbuf_scheme" where
  "binit_step b s = link_front b (upd_buf b (\<lambda>x. x\<lparr>bdev := - 1\<rparr>) s)"

lemma binit_steps:
  "lru s bs \<Longrightarrow> distinct bs \<Longrightarrow> distinct xs \<Longrightarrow> set xs \<inter> set bs = {} \<Longrightarrow> lru (fold binit_step xs s) (rev xs @ bs)"
proof (induction xs arbitrary: s bs)
  case (Cons x xs)
  have "lru (upd_buf x (\<lambda>y. y\<lparr>bdev := - 1\<rparr>) s) bs" using Cons.prems(1) by (simp add: lru_def upd_buf_def)
  then have "lru (binit_step x s) (x # bs)" unfolding binit_step_def using Cons.prems by (intro lru_link_front) auto
  then show ?case using Cons.IH [of "binit_step x s" "x # bs"] Cons.prems by auto
qed simp

lemma binit_fields:
  "bufs (fold binit_step xs s) b = (if b \<in> set xs then (bufs s b)\<lparr>bdev := - 1\<rparr> else bufs s b)"
  "idequeue (fold binit_step xs s) = idequeue s" "ide (fold binit_step xs s) = ide s"
  "havedisk1 (fold binit_step xs s) = havedisk1 s" "owns h (fold binit_step xs s) = owns h s" "quiet u (fold binit_step xs s) = quiet u s"
  by (induction xs arbitrary: s) (auto simp: binit_step_def, auto simp: upd_buf_def)

lemma binit_eq: "binit s = fold binit_step [0..<NBUF] ((initlock BcacheLock ''bcache'' s)\<lparr>bprev := (bprev s)(Hd := Hd), bnext := (bnext s)(Hd := Hd)\<rparr>)"
  by (simp add: binit_def binit_step_def [abs_def] Let_def initlock_def set_lock_def)

lemma binit_ok:
  assumes "in_proc s" and "idequeue s = None" and "\<not> ide_err (ide s)" and "\<forall>b < NBUF. bflags (bufs s b) = 0"
  shows "cache_ok {} (binit s)" and "contents (binit s) = contents s" and "bframe s (binit s)"
proof -
  let ?s = "(initlock BcacheLock ''bcache'' s)\<lparr>bprev := (bprev s)(Hd := Hd), bnext := (bnext s)(Hd := Hd)\<rparr>"
  have "lru ?s []" by (simp add: lru_def)
  then have l: "lru (binit s) (rev [0..<NBUF])" unfolding binit_eq using binit_steps [of ?s "[]" "[0..<NBUF]"] by simp
  have o: "owns None ?s" using assms(1) by (auto simp: in_proc_def owns_def initlock_def set_lock_def this_cpu_def cpu_id_def)
  have q: "quiet s (binit s)" by (simp add: binit_eq binit_fields) (simp add: quiet_def initlock_def set_lock_def)
  have f: "bufs (binit s) b = (if b < NBUF then (bufs s b)\<lparr>bdev := - 1\<rparr> else bufs s b)" "idequeue (binit s) = None"
    "ide (binit s) = ide s" "havedisk1 (binit s) = havedisk1 s" "owns None (binit s)" for b
    using assms(2) o by (auto simp: binit_eq binit_fields) (simp_all add: initlock_def set_lock_def)
  have "bcache_ok {} (binit s)"
    unfolding bcache_ok_def using l f assms(3,4) by (auto intro!: exI [of _ "rev [0..<NBUF]"])
  then show "cache_ok {} (binit s)" using in_proc_quiet [OF assms(1) q f(5)] by (simp add: cache_ok_def)
  show "contents (binit s) = contents s" by (rule contents_cong) (simp add: on_disk_def f fun_eq_iff)
  show "bframe s (binit s)" using q f(4) by (simp add: bframe_def)
qed

text \<open>
  C3: the buffer cache is transparent.  After \<^verbatim>\<open>binit\<close>, with a disk that reports no errors, every
  sequence of accesses, each of them getting the sector with \<^verbatim>\<open>bread\<close>, perhaps replacing its data
  with \<^verbatim>\<open>bwrite\<close>, and giving it back with \<^verbatim>\<open>brelse\<close>, runs to its end without a panic, reads exactly what
  direct access to the disks would read, and leaves the disks as direct access would, whatever is
  cached and recycled on the way; memory, the other processes and the state of the layers above
  are as before.
\<close>

theorem cache_transparent:
  assumes "in_proc s" and "idequeue s = None" and "\<not> ide_err (ide s)" and "\<forall>b < NBUF. bflags (bufs s b) = 0"
    and "\<forall>op \<in> set ops. sector_ok (fst (bop_key op)) (snd (bop_key op)) s"
  shows "\<exists>t. run_blocks bread bwrite brelse upd_data bval ops (binit s) = Ok (fst (run_disk ops (contents s))) t \<and>
    contents t = snd (run_disk ops (contents s)) \<and> cache_ok {} t \<and> quiet s t"
proof -
  note b = binit_ok [OF assms(1-4)]
  have "\<forall>op \<in> set ops. sector_ok (fst (bop_key op)) (snd (bop_key op)) (binit s)"
    using assms(5) b(3) by (simp add: bframe_def sector_ok_def)
  from bc.run_blocks_ok [OF b(1) this] b(2) bc.frame_trans [OF b(3)] show ?thesis by (auto simp: bframe_def)
qed

theorem cache_transparent_witness:
  "\<exists>t. run_blocks bread bwrite brelse upd_data bval [BRead 0 7, BWrite 0 7 [1], BWrite 1 7 [2], BRead 0 7] (binit kbuf0)
     = Ok [replicate 512 0, [1]] t \<and> contents t (1, 7) = [2]"
proof -
  let ?ops = "[BRead 0 7, BWrite 0 7 [1], BWrite 1 7 [2], BRead 0 7]"
  have k: "in_proc kbuf0" "idequeue kbuf0 = None" "\<not> ide_err (ide kbuf0)" "\<forall>b < NBUF. bflags (bufs kbuf0 b) = 0" "havedisk1 kbuf0"
    by (simp add: in_proc_def owns_None) (simp_all add: kbuf0_def kproc.extend_def)
  then have "\<forall>op \<in> set ?ops. sector_ok (fst (bop_key op)) (snd (bop_key op)) kbuf0" by (simp add: sector_ok_def)
  from cache_transparent [OF k(1-4) this] obtain t where
    t: "run_blocks bread bwrite brelse upd_data bval ?ops (binit kbuf0) = Ok (fst (run_disk ?ops (contents kbuf0))) t"
      "contents t = snd (run_disk ?ops (contents kbuf0))" by (elim exE conjE)
  have c: "contents kbuf0 (0, 7) = replicate 512 0" by (simp add: contents_def on_disk_def kbuf0_def kproc.extend_def)
  have "fst (run_disk ?ops (contents kbuf0)) = [replicate 512 0, [1]]" "snd (run_disk ?ops (contents kbuf0)) (1, 7) = [2]"
    unfolding run_disk.simps Let_def by (simp_all add: c)
  then show ?thesis using t by (metis (no_types))
qed

end
