(* ===== verification/Fs.thy ===== *)
theory Fs
  imports Bcache
begin

text \<open>
  The file system, \<^verbatim>\<open>src/fs.c\<close>, with the disk format of \<^verbatim>\<open>src/fs.h\<close> and the in-core inodes of
  \<^verbatim>\<open>src/fsvar.h\<close>: blocks and the free-block bitmap, inodes, file contents, directories
  and path names.  Disk blocks are lists of 512 bytes; the structures stored in them are
  read and written at their byte offsets, in little-endian order.
\<close>

section \<open>Disk format\<close>

abbreviation (input) BSIZE :: nat where "BSIZE \<equiv> 512"
abbreviation (input) NDIRECT :: nat where "NDIRECT \<equiv> 12"
abbreviation (input) NINDIRECT :: nat where "NINDIRECT \<equiv> 128"
abbreviation (input) MAXFILE :: nat where "MAXFILE \<equiv> 140"
abbreviation (input) IPB :: nat where "IPB \<equiv> 8"
abbreviation (input) BPB :: nat where "BPB \<equiv> 4096"
abbreviation (input) DIRSIZ :: nat where "DIRSIZ \<equiv> 14"
abbreviation (input) T_DIR :: u16 where "T_DIR \<equiv> 1"
abbreviation (input) T_FILE :: u16 where "T_FILE \<equiv> 2"
abbreviation (input) T_DEV :: u16 where "T_DEV \<equiv> 3"
abbreviation (input) ROOTDEV :: u32 where "ROOTDEV \<equiv> 1"
abbreviation (input) ROOTINO :: u32 where "ROOTINO \<equiv> 1"

text \<open>Little-endian fields of a byte list.\<close>

definition get16 :: "nat \<Rightarrow> u8 list \<Rightarrow> u16" where
  "get16 o' xs = ucast (xs ! o') OR push_bit 8 (ucast (xs ! (o' + 1)))"

definition get32 :: "nat \<Rightarrow> u8 list \<Rightarrow> u32" where
  "get32 o' xs = ucast (xs ! o') OR push_bit 8 (ucast (xs ! (o' + 1)))
     OR push_bit 16 (ucast (xs ! (o' + 2))) OR push_bit 24 (ucast (xs ! (o' + 3)))"

definition put16 :: "nat \<Rightarrow> u16 \<Rightarrow> u8 list \<Rightarrow> u8 list" where
  "put16 o' v xs = xs[o' := ucast v, o' + 1 := ucast (drop_bit 8 v)]"

definition put32 :: "nat \<Rightarrow> u32 \<Rightarrow> u8 list \<Rightarrow> u8 list" where
  "put32 o' v xs = xs[o' := ucast v, o' + 1 := ucast (drop_bit 8 v),
     o' + 2 := ucast (drop_bit 16 v), o' + 3 := ucast (drop_bit 24 v)]"

record superblock =
  sb_size :: u32
  sb_nblocks :: u32
  sb_ninodes :: u32

definition IBLOCK :: "nat \<Rightarrow> nat" where
  "IBLOCK i = i div IPB + 2"

definition BBLOCK :: "nat \<Rightarrow> nat \<Rightarrow> nat" where
  "BBLOCK b ninodes = b div BPB + ninodes div IPB + 3"

section \<open>In-core inodes\<close>

record inode =
  idev :: u32
  inum :: u32
  iref :: int
  iflags :: u32
  itype :: u16
  imajor :: u16
  iminor :: u16
  inlink :: u16
  isize :: u32
  iaddrs :: "u32 list"

definition I_BUSY :: u32 where "I_BUSY = 1"
definition I_VALID :: u32 where "I_VALID = 2"

record kfs = kbuf +
  inodes :: "inode list"

definition upd_inode :: "nat \<Rightarrow> (inode \<Rightarrow> inode) \<Rightarrow> ('z) kfs_scheme \<Rightarrow> ('z) kfs_scheme" where
  "upd_inode i f s = s\<lparr>inodes := (inodes s)[i := f (inodes s ! i)]\<rparr>"

section \<open>Blocks\<close>

definition readsb :: "u32 \<Rightarrow> ('z) kbuf_scheme \<Rightarrow> (superblock, ('z) kbuf_scheme) res" where
  "readsb dev s = bindr (bread dev 1 s) (\<lambda>bp s.
     let d = bdata (bufs s bp);
         sb = \<lparr>sb_size = get32 0 d, sb_nblocks = get32 4 d, sb_ninodes = get32 8 d\<rparr>
     in bindr (brelse bp s) (\<lambda>_ s. Ok sb s))"

definition bzero :: "u32 \<Rightarrow> u32 \<Rightarrow> ('z) kbuf_scheme \<Rightarrow> (unit, ('z) kbuf_scheme) res" where
  "bzero dev bno s = bindr (bread dev bno s) (\<lambda>bp s.
     let s = upd_data bp (\<lambda>_. replicate BSIZE 0) s in
     bindr (bwrite bp s) (\<lambda>_ s. brelse bp s))"

text \<open>Bit \<open>bi\<close> of a bitmap block.\<close>

definition bit_set :: "u8 list \<Rightarrow> nat \<Rightarrow> bool" where
  "bit_set d bi = bit (d ! (bi div 8)) (bi mod 8)"

definition balloc_bit :: "u8 list \<Rightarrow> nat option" where
  "balloc_bit d = find (\<lambda>bi. \<not> bit_set d bi) [0..<BPB]"

function balloc_loop :: "u32 \<Rightarrow> superblock \<Rightarrow> nat \<Rightarrow> ('z) kbuf_scheme \<Rightarrow> (u32, ('z) kbuf_scheme) res" where
  "balloc_loop dev sb b s =
     (if b < unat (sb_size sb) then
        bindr (bread dev (of_nat (BBLOCK b (unat (sb_ninodes sb)))) s) (\<lambda>bp s.
          case balloc_bit (bdata (bufs s bp)) of
            Some bi \<Rightarrow>
              let s = upd_data bp (\<lambda>d. d[bi div 8 := (d ! (bi div 8)) OR push_bit (bi mod 8) 1]) s in
              bindr (bwrite bp s) (\<lambda>_ s. bindr (brelse bp s) (\<lambda>_ s. Ok (of_nat (b + bi)) s))
          | None \<Rightarrow> bindr (brelse bp s) (\<lambda>_ s. balloc_loop dev sb (b + BPB) s))
      else Panic ''balloc: out of blocks'')"
  by pat_completeness auto
termination
  by (relation "measure (\<lambda>(dev, sb, b, s). unat (sb_size sb) - b)") auto

definition balloc :: "u32 \<Rightarrow> ('z) kbuf_scheme \<Rightarrow> (u32, ('z) kbuf_scheme) res" where
  "balloc dev s = bindr (readsb dev s) (\<lambda>sb s. balloc_loop dev sb 0 s)"

definition bfree :: "u32 \<Rightarrow> u32 \<Rightarrow> ('z) kbuf_scheme \<Rightarrow> (unit, ('z) kbuf_scheme) res" where
  "bfree dev b s = bindr (bzero dev b s) (\<lambda>_ s.
     bindr (readsb dev s) (\<lambda>sb s.
     bindr (bread dev (of_nat (BBLOCK (unat b) (unat (sb_ninodes sb)))) s) (\<lambda>bp s.
       let bi = unat b mod BPB in
       if \<not> bit_set (bdata (bufs s bp)) bi then Panic ''freeing free block''
       else
         let s = upd_data bp (\<lambda>d. d[bi div 8 := (d ! (bi div 8)) AND NOT (push_bit (bi mod 8) 1)]) s in
         bindr (bwrite bp s) (\<lambda>_ s. brelse bp s))))"

section \<open>Inodes\<close>

definition iinit :: "('z) kfs_scheme \<Rightarrow> ('z) kfs_scheme" where
  "iinit s = initlock IcacheLock ''icache'' s"

definition iget :: "u32 \<Rightarrow> u32 \<Rightarrow> ('z) kfs_scheme \<Rightarrow> (nat, ('z) kfs_scheme) res" where
  "iget dev n s = bindr (acquire IcacheLock s) (\<lambda>_ s.
     case first_index (\<lambda>ip. 0 < iref ip \<and> idev ip = dev \<and> inum ip = n) (inodes s) of
       Some i \<Rightarrow>
         bindr (release IcacheLock (upd_inode i (\<lambda>ip. ip\<lparr>iref := iref ip + 1\<rparr>) s)) (\<lambda>_ s. Ok i s)
     | None \<Rightarrow>
         (case first_index (\<lambda>ip. iref ip = 0) (inodes s) of
            None \<Rightarrow> Panic ''iget: no inodes''
          | Some i \<Rightarrow>
              bindr (release IcacheLock
                (upd_inode i (\<lambda>ip. ip\<lparr>idev := dev, inum := n, iref := 1, iflags := 0\<rparr>) s)) (\<lambda>_ s. Ok i s)))"

definition idup :: "nat \<Rightarrow> ('z) kfs_scheme \<Rightarrow> (nat, ('z) kfs_scheme) res" where
  "idup i s = bindr (acquire IcacheLock s) (\<lambda>_ s.
     bindr (release IcacheLock (upd_inode i (\<lambda>ip. ip\<lparr>iref := iref ip + 1\<rparr>) s)) (\<lambda>_ s. Ok i s))"

text \<open>The on-disk inode in slot \<open>k\<close> of an inode block, copied to and from an in-core inode.\<close>

definition get_dinode :: "nat \<Rightarrow> u8 list \<Rightarrow> inode \<Rightarrow> inode" where
  "get_dinode k d ip =
     (let o' = 64 * k in
      ip\<lparr>itype := get16 o' d, imajor := get16 (o' + 2) d, iminor := get16 (o' + 4) d,
         inlink := get16 (o' + 6) d, isize := get32 (o' + 8) d,
         iaddrs := map (\<lambda>j. get32 (o' + 12 + 4 * j) d) [0..<NDIRECT + 1]\<rparr>)"

definition put_dinode :: "nat \<Rightarrow> inode \<Rightarrow> u8 list \<Rightarrow> u8 list" where
  "put_dinode k ip d =
     (let o' = 64 * k;
          d = put16 o' (itype ip) d; d = put16 (o' + 2) (imajor ip) d; d = put16 (o' + 4) (iminor ip) d;
          d = put16 (o' + 6) (inlink ip) d; d = put32 (o' + 8) (isize ip) d
      in fold (\<lambda>j d. put32 (o' + 12 + 4 * j) (iaddrs ip ! j) d) [0..<NDIRECT + 1] d)"

text \<open>\<^verbatim>\<open>ilock\<close> behind its waiting loop: the inode is marked busy and read from disk if needed.\<close>

definition ilock_read :: "nat \<Rightarrow> ('z) kfs_scheme \<Rightarrow> (unit, ('z) kfs_scheme) res" where
  "ilock_read i s =
     bindr (release IcacheLock (upd_inode i (\<lambda>ip. ip\<lparr>iflags := iflags ip OR I_BUSY\<rparr>) s)) (\<lambda>_ s.
       let ip = inodes s ! i in
       if iflags ip AND I_VALID = 0 then
         bindr (bread (idev ip) (of_nat (IBLOCK (unat (inum ip)))) s) (\<lambda>bp s.
           let s = upd_inode i (get_dinode (unat (inum ip) mod IPB) (bdata (bufs s bp))) s in
           bindr (brelse bp s) (\<lambda>_ s.
             let s = upd_inode i (\<lambda>ip. ip\<lparr>iflags := iflags ip OR I_VALID\<rparr>) s in
             if itype (inodes s ! i) = 0 then Panic ''ilock: no type'' else Ok () s))
       else Ok () s)"

definition ilock_loop :: "nat \<Rightarrow> ('z) kfs_scheme \<Rightarrow> (unit, ('z) kfs_scheme) res" where
  "ilock_loop i s =
     (if iflags (inodes s ! i) AND I_BUSY \<noteq> 0
      then bindr (sleep_out (ChInode i) IcacheLock s) (\<lambda>_ s. Sleep (ChInode i) 0 s)
      else ilock_read i s)"

definition ilock :: "nat \<Rightarrow> ('z) kfs_scheme \<Rightarrow> (unit, ('z) kfs_scheme) res" where
  "ilock i s =
     (if iref (inodes s ! i) < 1 then Panic ''ilock''
      else bindr (acquire IcacheLock s) (\<lambda>_ s. ilock_loop i s))"

definition ilock_resume :: "nat \<Rightarrow> ('z) kfs_scheme \<Rightarrow> (unit, ('z) kfs_scheme) res" where
  "ilock_resume i s = bindr (sleep_in IcacheLock s) (\<lambda>_ s. ilock_loop i s)"

definition iunlock :: "nat \<Rightarrow> ('z) kfs_scheme \<Rightarrow> (unit, ('z) kfs_scheme) res" where
  "iunlock i s =
     (if iflags (inodes s ! i) AND I_BUSY = 0 \<or> iref (inodes s ! i) < 1 then Panic ''iunlock''
      else bindr (acquire IcacheLock s) (\<lambda>_ s.
        bindr (wakeup (ChInode i) (upd_inode i (\<lambda>ip. ip\<lparr>iflags := iflags ip AND NOT I_BUSY\<rparr>) s)) (\<lambda>_ s.
          release IcacheLock s)))"

definition iupdate :: "nat \<Rightarrow> ('z) kfs_scheme \<Rightarrow> (unit, ('z) kfs_scheme) res" where
  "iupdate i s =
     (let ip = inodes s ! i in
      bindr (bread (idev ip) (of_nat (IBLOCK (unat (inum ip)))) s) (\<lambda>bp s.
        let s = upd_data bp (put_dinode (unat (inum ip) mod IPB) (inodes s ! i)) s in
        bindr (bwrite bp s) (\<lambda>_ s. brelse bp s)))"

text \<open>The two loops of \<^verbatim>\<open>itrunc\<close>, over the direct blocks and over the entries of the
  indirect block.\<close>

fun itrunc_direct :: "nat \<Rightarrow> nat list \<Rightarrow> ('z) kfs_scheme \<Rightarrow> (unit, ('z) kfs_scheme) res" where
  "itrunc_direct i [] s = Ok () s"
| "itrunc_direct i (k # ks) s =
     (let ip = inodes s ! i in
      if iaddrs ip ! k \<noteq> 0 then
        bindr (bfree (idev ip) (iaddrs ip ! k) s) (\<lambda>_ s.
          itrunc_direct i ks (upd_inode i (\<lambda>ip. ip\<lparr>iaddrs := (iaddrs ip)[k := 0]\<rparr>) s))
      else itrunc_direct i ks s)"

fun itrunc_indirect :: "nat \<Rightarrow> nat \<Rightarrow> nat list \<Rightarrow> ('z) kfs_scheme \<Rightarrow> (unit, ('z) kfs_scheme) res" where
  "itrunc_indirect i bp [] s = Ok () s"
| "itrunc_indirect i bp (j # js) s =
     (let a = get32 (4 * j) (bdata (bufs s bp)) in
      if a \<noteq> 0 then bindr (bfree (idev (inodes s ! i)) a s) (\<lambda>_ s. itrunc_indirect i bp js s)
      else itrunc_indirect i bp js s)"

definition itrunc :: "nat \<Rightarrow> ('z) kfs_scheme \<Rightarrow> (unit, ('z) kfs_scheme) res" where
  "itrunc i s = bindr (itrunc_direct i [0..<NDIRECT] s) (\<lambda>_ s.
     let ip = inodes s ! i; finish = (\<lambda>s. iupdate i (upd_inode i (\<lambda>ip. ip\<lparr>isize := 0\<rparr>) s)) in
     if iaddrs ip ! NDIRECT \<noteq> 0 then
       bindr (bread (idev ip) (iaddrs ip ! NDIRECT) s) (\<lambda>bp s.
       bindr (itrunc_indirect i bp [0..<NINDIRECT] s) (\<lambda>_ s.
       bindr (brelse bp s) (\<lambda>_ s.
       bindr (bfree (idev ip) (iaddrs ip ! NDIRECT) s) (\<lambda>_ s.
         finish (upd_inode i (\<lambda>ip. ip\<lparr>iaddrs := (iaddrs ip)[NDIRECT := 0]\<rparr>) s)))))
     else finish s)"

definition iput :: "nat \<Rightarrow> ('z) kfs_scheme \<Rightarrow> (unit, ('z) kfs_scheme) res" where
  "iput i s = bindr (acquire IcacheLock s) (\<lambda>_ s.
     let ip = inodes s ! i; drop = (\<lambda>s. release IcacheLock (upd_inode i (\<lambda>ip. ip\<lparr>iref := iref ip - 1\<rparr>) s)) in
     if iref ip = 1 \<and> iflags ip AND I_VALID \<noteq> 0 \<and> inlink ip = 0 then
       (if iflags ip AND I_BUSY \<noteq> 0 then Panic ''iput busy''
        else
          bindr (release IcacheLock (upd_inode i (\<lambda>ip. ip\<lparr>iflags := iflags ip OR I_BUSY\<rparr>) s)) (\<lambda>_ s.
          bindr (itrunc i s) (\<lambda>_ s.
          bindr (iupdate i (upd_inode i (\<lambda>ip. ip\<lparr>itype := 0\<rparr>) s)) (\<lambda>_ s.
          bindr (acquire IcacheLock s) (\<lambda>_ s.
          bindr (wakeup (ChInode i) (upd_inode i (\<lambda>ip. ip\<lparr>iflags := 0\<rparr>) s)) (\<lambda>_ s. drop s))))))
     else drop s)"

definition iunlockput :: "nat \<Rightarrow> ('z) kfs_scheme \<Rightarrow> (unit, ('z) kfs_scheme) res" where
  "iunlockput i s = bindr (iunlock i s) (\<lambda>_ s. iput i s)"

function ialloc_loop :: "u32 \<Rightarrow> u16 \<Rightarrow> nat \<Rightarrow> nat \<Rightarrow> ('z) kfs_scheme \<Rightarrow> (nat, ('z) kfs_scheme) res" where
  "ialloc_loop dev ty ninodes n s =
     (if n < ninodes then
        bindr (bread dev (of_nat (IBLOCK n)) s) (\<lambda>bp s.
          let o' = 64 * (n mod IPB) in
          if get16 o' (bdata (bufs s bp)) = 0 then
            let s = upd_data bp (\<lambda>d. put16 o' ty (take o' d @ replicate 64 0 @ drop (o' + 64) d)) s in
            bindr (bwrite bp s) (\<lambda>_ s. bindr (brelse bp s) (\<lambda>_ s. iget dev (of_nat n) s))
          else bindr (brelse bp s) (\<lambda>_ s. ialloc_loop dev ty ninodes (n + 1) s))
      else Panic ''ialloc: no inodes'')"
  by pat_completeness auto
termination
  by (relation "measure (\<lambda>(dev, ty, ninodes, n, s). ninodes - n)") auto

definition ialloc :: "u32 \<Rightarrow> u16 \<Rightarrow> ('z) kfs_scheme \<Rightarrow> (nat, ('z) kfs_scheme) res" where
  "ialloc dev ty s = bindr (readsb dev s) (\<lambda>sb s. ialloc_loop dev ty (unat (sb_ninodes sb)) 1 s)"

section \<open>File contents\<close>

definition bmap :: "nat \<Rightarrow> nat \<Rightarrow> ('z) kfs_scheme \<Rightarrow> (u32, ('z) kfs_scheme) res" where
  "bmap i bn s =
     (let dev = idev (inodes s ! i) in
      if bn < NDIRECT then
        (let a = iaddrs (inodes s ! i) ! bn in
         if a = 0 then
           bindr (balloc dev s) (\<lambda>a s.
             Ok a (upd_inode i (\<lambda>ip. ip\<lparr>iaddrs := (iaddrs ip)[bn := a]\<rparr>) s))
         else Ok a s)
      else if bn - NDIRECT < NINDIRECT then
        (let k = bn - NDIRECT; a = iaddrs (inodes s ! i) ! NDIRECT in
         bindr (if a = 0 then
                  bindr (balloc dev s) (\<lambda>a s.
                    Ok a (upd_inode i (\<lambda>ip. ip\<lparr>iaddrs := (iaddrs ip)[NDIRECT := a]\<rparr>) s))
                else Ok a s) (\<lambda>a s.
         bindr (bread dev a s) (\<lambda>bp s.
           let c = get32 (4 * k) (bdata (bufs s bp)) in
           bindr (if c = 0 then
                    bindr (balloc dev s) (\<lambda>c s.
                      bindr (bwrite bp (upd_data bp (put32 (4 * k) c) s)) (\<lambda>_ s. Ok c s))
                  else Ok c s) (\<lambda>c s.
           bindr (brelse bp s) (\<lambda>_ s. Ok c s)))))
      else Panic ''bmap: out of range'')"

record stat =
  st_dev :: u32
  st_ino :: u32
  st_type :: u16
  st_nlink :: u16
  st_size :: u32

definition stati :: "nat \<Rightarrow> ('z) kfs_scheme \<Rightarrow> stat" where
  "stati i s = (let ip = inodes s ! i in
     \<lparr>st_dev = idev ip, st_ino = inum ip, st_type = itype ip, st_nlink = inlink ip, st_size = isize ip\<rparr>)"

text \<open>
  The loops of \<^verbatim>\<open>readi\<close> and \<^verbatim>\<open>writei\<close>.  The bytes read are collected instead of being
  stored through the destination pointer; the bytes to write are at address \<open>src\<close> of a memory \<open>m\<close>.
  \<open>n\<close> counts the bytes that are still to be transferred.
\<close>

lemma chunk_pos: "0 < n \<Longrightarrow> 0 < min n (BSIZE - off mod BSIZE)" for n off :: nat
  by simp

function readi_loop :: "nat \<Rightarrow> nat \<Rightarrow> nat \<Rightarrow> u8 list \<Rightarrow> ('z) kfs_scheme \<Rightarrow> (u8 list, ('z) kfs_scheme) res" where
  "readi_loop i off n acc s =
     (if 0 < n then
        bindr (bmap i (off div BSIZE) s) (\<lambda>a s.
        bindr (bread (idev (inodes s ! i)) a s) (\<lambda>bp s.
          let m = min n (BSIZE - off mod BSIZE);
              xs = take m (drop (off mod BSIZE) (bdata (bufs s bp)))
          in bindr (brelse bp s) (\<lambda>_ s. readi_loop i (off + m) (n - m) (acc @ xs) s)))
      else Ok acc s)"
  by pat_completeness auto
termination
proof (relation "measure (\<lambda>(i, off, n, acc, s). n)")
  fix n off x :: nat
  assume "0 < n" "x = min n (BSIZE - off mod BSIZE)"
  then have "n - x < n" using chunk_pos [of n off] by linarith
  then show "((i, off + x, n - x, acc @ xs, u), (i, off, n, acc, s)) \<in> measure (\<lambda>(i, off, n, acc, s). n)"
    for i acc xs u s by simp
qed simp

function writei_loop :: "nat \<Rightarrow> mem \<Rightarrow> addr \<Rightarrow> nat \<Rightarrow> nat \<Rightarrow> ('z) kfs_scheme \<Rightarrow> (nat, ('z) kfs_scheme) res" where
  "writei_loop i m src off n s =
     (if 0 < n then
        bindr (bmap i (off div BSIZE) s) (\<lambda>a s.
        bindr (bread (idev (inodes s ! i)) a s) (\<lambda>bp s.
          let l = min n (BSIZE - off mod BSIZE); k = off mod BSIZE;
              s = upd_data bp (\<lambda>d. take k d @ bytes m src l @ drop (k + l) d) s
          in bindr (bwrite bp s) (\<lambda>_ s. bindr (brelse bp s) (\<lambda>_ s.
               writei_loop i m (src + l) (off + l) (n - l) s))))
      else Ok off s)"
  by pat_completeness auto
termination
proof (relation "measure (\<lambda>(i, m, src, off, n, s). n)")
  fix n off x :: nat
  assume "0 < n" "x = min n (BSIZE - off mod BSIZE)"
  then have "n - x < n" using chunk_pos [of n off] by linarith
  then show "((i, m, src + x, off + x, n - x, u), (i, m, src, off, n, s)) \<in> measure (\<lambda>(i, m, src, off, n, s). n)"
    for i m src u s by simp
qed simp

text \<open>\<^verbatim>\<open>readi\<close> and \<^verbatim>\<open>writei\<close> on an inode that is not a device.\<close>

definition readi_data :: "nat \<Rightarrow> u32 \<Rightarrow> u32 \<Rightarrow> ('z) kfs_scheme \<Rightarrow> (int \<times> u8 list, ('z) kfs_scheme) res" where
  "readi_data i off n s =
     (let sz = isize (inodes s ! i) in
      if off > sz \<or> off + n < off then Ok (-1, []) s
      else
        let n = (if off + n > sz then sz - off else n) in
        bindr (readi_loop i (unat off) (unat n) [] s) (\<lambda>xs s. Ok (sint n, xs) s))"

definition writei_data :: "nat \<Rightarrow> mem \<Rightarrow> addr \<Rightarrow> u32 \<Rightarrow> u32 \<Rightarrow> ('z) kfs_scheme \<Rightarrow> (int, ('z) kfs_scheme) res" where
  "writei_data i m src off n s =
     (if off > isize (inodes s ! i) \<or> off + n < off then Ok (-1) s
      else
        let n = (if off + n > of_nat (MAXFILE * BSIZE) then of_nat (MAXFILE * BSIZE) - off else n) in
        bindr (writei_loop i m src (unat off) (unat n) s) (\<lambda>off s.
          if n > 0 \<and> of_nat off > isize (inodes s ! i)
          then bindr (iupdate i (upd_inode i (\<lambda>ip. ip\<lparr>isize := of_nat off\<rparr>) s)) (\<lambda>_ s. Ok (sint n) s)
          else Ok (sint n) s))"

text \<open>
  The whole functions.  \<open>rd\<close> and \<open>wr\<close> are the device switch: the read and write functions
  of the devices by major number.
\<close>

definition readi :: "(int \<Rightarrow> (nat \<Rightarrow> u32 \<Rightarrow> ('z) kfs_scheme \<Rightarrow> (int \<times> u8 list, ('z) kfs_scheme) res) option) \<Rightarrow>
    nat \<Rightarrow> u32 \<Rightarrow> u32 \<Rightarrow> ('z) kfs_scheme \<Rightarrow> (int \<times> u8 list, ('z) kfs_scheme) res" where
  "readi rd i off n s =
     (let ip = inodes s ! i in
      if itype ip = T_DEV then
        (if sint (imajor ip) < 0 \<or> sint (imajor ip) \<ge> int NDEV then Ok (-1, []) s
         else case rd (sint (imajor ip)) of None \<Rightarrow> Ok (-1, []) s | Some f \<Rightarrow> f i n s)
      else readi_data i off n s)"

definition writei :: "(int \<Rightarrow> (nat \<Rightarrow> mem \<Rightarrow> addr \<Rightarrow> u32 \<Rightarrow> ('z) kfs_scheme \<Rightarrow> (int, ('z) kfs_scheme) res) option) \<Rightarrow>
    nat \<Rightarrow> mem \<Rightarrow> addr \<Rightarrow> u32 \<Rightarrow> u32 \<Rightarrow> ('z) kfs_scheme \<Rightarrow> (int, ('z) kfs_scheme) res" where
  "writei wr i m src off n s =
     (let ip = inodes s ! i in
      if itype ip = T_DEV then
        (if sint (imajor ip) < 0 \<or> sint (imajor ip) \<ge> int NDEV then Ok (-1) s
         else case wr (sint (imajor ip)) of None \<Rightarrow> Ok (-1) s | Some f \<Rightarrow> f i m src n s)
      else writei_data i m src off n s)"

section \<open>Directories\<close>

text \<open>\<^verbatim>\<open>strncmp\<close> on byte lists, which end where a NUL byte would stand.\<close>

definition hd0 :: "u8 list \<Rightarrow> u8" where
  "hd0 xs = (case xs of [] \<Rightarrow> 0 | x # _ \<Rightarrow> x)"

fun strncmp_l :: "nat \<Rightarrow> u8 list \<Rightarrow> u8 list \<Rightarrow> int" where
  "strncmp_l 0 p q = 0"
| "strncmp_l (Suc n) p q =
     (if hd0 p \<noteq> 0 \<and> hd0 p = hd0 q then strncmp_l n (tl p) (tl q) else uint (hd0 p) - uint (hd0 q))"

definition namecmp :: "u8 list \<Rightarrow> u8 list \<Rightarrow> int" where
  "namecmp s t = strncmp_l DIRSIZ s t"

text \<open>The entries of a directory block: the inode number and the name of entry \<open>k\<close>.\<close>

definition de_inum :: "u8 list \<Rightarrow> nat \<Rightarrow> u16" where
  "de_inum d k = get16 (16 * k) d"

definition de_name :: "u8 list \<Rightarrow> nat \<Rightarrow> u8 list" where
  "de_name d k = take DIRSIZ (drop (16 * k + 2) d)"

definition find_dirent :: "u8 list \<Rightarrow> u8 list \<Rightarrow> nat option" where
  "find_dirent name d = find (\<lambda>k. de_inum d k \<noteq> 0 \<and> namecmp name (de_name d k) = 0) [0..<32]"

text \<open>The result is the inode and the byte offset of its entry.\<close>

function dirlookup_loop :: "nat \<Rightarrow> u8 list \<Rightarrow> nat \<Rightarrow> nat \<Rightarrow> ('z) kfs_scheme \<Rightarrow>
    ((nat \<times> nat) option, ('z) kfs_scheme) res" where
  "dirlookup_loop dp name sz off s =
     (if off < sz then
        bindr (bmap dp (off div BSIZE) s) (\<lambda>a s.
        bindr (bread (idev (inodes s ! dp)) a s) (\<lambda>bp s.
          case find_dirent name (bdata (bufs s bp)) of
            Some k \<Rightarrow>
              let n = de_inum (bdata (bufs s bp)) k in
              bindr (brelse bp s) (\<lambda>_ s.
              bindr (iget (idev (inodes s ! dp)) (ucast n) s) (\<lambda>ip s. Ok (Some (ip, off + 16 * k)) s))
          | None \<Rightarrow> bindr (brelse bp s) (\<lambda>_ s. dirlookup_loop dp name sz (off + BSIZE) s)))
      else Ok None s)"
  by pat_completeness auto
termination
  by (relation "measure (\<lambda>(dp, name, sz, off, s). sz - off)") auto

definition dirlookup :: "nat \<Rightarrow> u8 list \<Rightarrow> ('z) kfs_scheme \<Rightarrow> ((nat \<times> nat) option, ('z) kfs_scheme) res" where
  "dirlookup dp name s =
     (if itype (inodes s ! dp) \<noteq> T_DIR then Panic ''dirlookup not DIR''
      else dirlookup_loop dp name (unat (isize (inodes s ! dp))) 0 s)"

text \<open>
  \<^verbatim>\<open>dirlink\<close> reads and writes the directory with \<^verbatim>\<open>readi\<close> and \<^verbatim>\<open>writei\<close>; the directory is
  not a device, as \<^verbatim>\<open>dirlookup\<close> has checked.  The loop looks for an unused entry.
\<close>

function dirlink_loop :: "nat \<Rightarrow> nat \<Rightarrow> nat \<Rightarrow> ('z) kfs_scheme \<Rightarrow> (nat, ('z) kfs_scheme) res" where
  "dirlink_loop dp sz off s =
     (if off < sz then
        bindr (readi_data dp (of_nat off) 16 s) (\<lambda>(r, de) s.
          if r \<noteq> 16 then Panic ''dirlink read''
          else if get16 0 de = 0 then Ok off s
          else dirlink_loop dp sz (off + 16) s)
      else Ok off s)"
  by pat_completeness auto
termination
  by (relation "measure (\<lambda>(dp, sz, off, s). sz - off)") auto

definition pad_name :: "u8 list \<Rightarrow> u8 list" where
  "pad_name name = take DIRSIZ (takeWhile (\<lambda>c. c \<noteq> 0) name @ replicate DIRSIZ 0)"

text \<open>A directory entry in a variable of its own.\<close>

definition dirent :: "u16 \<Rightarrow> u8 list \<Rightarrow> mem" where
  "dirent n name = (!) (put16 0 n [0, 0] @ pad_name name)"

definition dirlink :: "nat \<Rightarrow> u8 list \<Rightarrow> u32 \<Rightarrow> ('z) kfs_scheme \<Rightarrow> (int, ('z) kfs_scheme) res" where
  "dirlink dp name n s = bindr (dirlookup dp name s) (\<lambda>r s.
     case r of
       Some (ip, _) \<Rightarrow> bindr (iput ip s) (\<lambda>_ s. Ok (-1) s)
     | None \<Rightarrow>
         bindr (dirlink_loop dp (unat (isize (inodes s ! dp))) 0 s) (\<lambda>off s.
         bindr (writei_data dp (dirent (ucast n) name) 0 (of_nat off) 16 s) (\<lambda>r s.
           if r \<noteq> 16 then Panic ''dirlink'' else Ok 0 s)))"

section \<open>Path names\<close>

text \<open>
  \<^verbatim>\<open>skipelem\<close> on a path without its final NUL: the next element, cut at \<^verbatim>\<open>DIRSIZ\<close> bytes,
  and the path behind it.
\<close>

definition skipelem :: "u8 list \<Rightarrow> (u8 list \<times> u8 list) option" where
  "skipelem path =
     (let path = dropWhile (\<lambda>c. c = 47) path in
      if path = [] then None
      else
        let name = takeWhile (\<lambda>c. c \<noteq> 47) path; path = dropWhile (\<lambda>c. c \<noteq> 47) path
        in Some (take DIRSIZ name, dropWhile (\<lambda>c. c = 47) path))"

lemma skipelem_shorter: "skipelem path = Some (name, rest) \<Longrightarrow> length rest < length path"
proof -
  assume a: "skipelem path = Some (name, rest)"
  let ?p = "dropWhile (\<lambda>c. c = 47) path"
  from a have ne: "?p \<noteq> []" and r: "rest = dropWhile (\<lambda>c. c = 47) (dropWhile (\<lambda>c. c \<noteq> 47) ?p)"
    by (auto simp: skipelem_def Let_def split: if_splits)
  have "hd ?p \<noteq> 47" using hd_dropWhile [OF ne] .
  then have tl: "dropWhile (\<lambda>c. c \<noteq> 47) ?p = dropWhile (\<lambda>c. c \<noteq> 47) (tl ?p)" using ne by (cases ?p) auto
  have "length rest \<le> length (tl ?p)"
    unfolding r tl by (rule le_trans [OF length_dropWhile_le length_dropWhile_le])
  also have "\<dots> < length ?p" using ne by simp
  also have "\<dots> \<le> length path" by (rule length_dropWhile_le)
  finally show ?thesis .
qed

function namex_loop :: "u8 list \<Rightarrow> bool \<Rightarrow> nat \<Rightarrow> ('z) kfs_scheme \<Rightarrow> ((nat \<times> u8 list) option, ('z) kfs_scheme) res" where
  "namex_loop path par ip s =
     (case skipelem path of
        None \<Rightarrow> if par then bindr (iput ip s) (\<lambda>_ s. Ok None s) else Ok (Some (ip, [])) s
      | Some (name, rest) \<Rightarrow>
          bindr (ilock ip s) (\<lambda>_ s.
            if itype (inodes s ! ip) \<noteq> T_DIR then bindr (iunlockput ip s) (\<lambda>_ s. Ok None s)
            else if par \<and> rest = [] then bindr (iunlock ip s) (\<lambda>_ s. Ok (Some (ip, name)) s)
            else bindr (dirlookup ip name s) (\<lambda>r s.
              case r of
                None \<Rightarrow> bindr (iunlockput ip s) (\<lambda>_ s. Ok None s)
              | Some (nxt, _) \<Rightarrow> bindr (iunlockput ip s) (\<lambda>_ s. namex_loop rest par nxt s))))"
  by pat_completeness auto
termination
  by (relation "measure (\<lambda>(path, par, ip, s). length path)") (auto simp: skipelem_shorter)

definition namex :: "u8 list \<Rightarrow> bool \<Rightarrow> ('z) kfs_scheme \<Rightarrow> ((nat \<times> u8 list) option, ('z) kfs_scheme) res" where
  "namex path par s =
     bindr (if hd0 path = 47 then iget ROOTDEV ROOTINO s else idup (the (cwd (cproc s))) s) (\<lambda>ip s.
       namex_loop path par ip s)"

definition namei :: "u8 list \<Rightarrow> ('z) kfs_scheme \<Rightarrow> (nat option, ('z) kfs_scheme) res" where
  "namei path s = bindr (namex path False s) (\<lambda>r s. Ok (map_option fst r) s)"

definition nameiparent :: "u8 list \<Rightarrow> ('z) kfs_scheme \<Rightarrow> ((nat \<times> u8 list) option, ('z) kfs_scheme) res" where
  "nameiparent path s = namex path True s"

section \<open>Locks and the inode table\<close>

interpretation inodes_u: mach_upd "inodes_update f" for f
  by unfold_locales simp_all

interpretation inodes_s: kmem_sel inodes
  by unfold_locales simp_all

interpretation upd_inode_u: mach_upd "upd_inode i f" for i f
  by unfold_locales (simp_all add: upd_inode_def)

text \<open>An example with an unused inode table.\<close>

definition inode0 :: inode where
  "inode0 = \<lparr>idev = 0, inum = 0, iref = 0, iflags = 0, itype = 0, imajor = 0, iminor = 0, inlink = 0,
     isize = 0, iaddrs = replicate 13 0\<rparr>"

definition kfs0 :: kfs where
  "kfs0 = kbuf.extend kbuf0 \<lparr>inodes = replicate 50 inode0\<rparr>"

lemma kfs0_simps [simp]:
  "procs kfs0 = procs kproc0" "cur kfs0 = Some 0" "cp kfs0 = 0" "phys kfs0 = (\<lambda>_. 0)"
  "ncli (this_cpu kfs0) = 0" "eflags kfs0 = 0x202" "kheap kfs0 = kheap kmem0" "is_free l kfs0"
  "inodes kfs0 = replicate 50 inode0"
  using kbuf0_simps
  by (simp_all add: kfs0_def kbuf.extend_def is_free_def cpu_ok_def this_cpu_def cpu_id_def cp_def)



section \<open>Numbers in blocks\<close>

lemma split32: "ucast (ucast v :: u8) OR push_bit 8 (ucast (ucast (drop_bit 8 v) :: u8))
     OR push_bit 16 (ucast (ucast (drop_bit 16 v) :: u8)) OR push_bit 24 (ucast (ucast (drop_bit 24 v) :: u8)) = v"
  for v :: u32
proof (rule bit_word_eqI)
  fix n assume n: "n < LENGTH(32)"
  have c: "bit (ucast (ucast (drop_bit k v) :: u8) :: u32) i \<longleftrightarrow> i < 8 \<and> bit v (k + i)" for i k
    using bit_imp_le_length [of v "k + i"] by (auto simp: bit_ucast_iff bit_drop_bit_eq)
  have c0: "bit (ucast (ucast v :: u8) :: u32) i \<longleftrightarrow> i < 8 \<and> bit v i" for i
    using c [of 0 i] by simp
  consider "n < 8" | "8 \<le> n" "n < 16" | "16 \<le> n" "n < 24" | "24 \<le> n" by linarith
  then show "bit (ucast (ucast v :: u8) OR push_bit 8 (ucast (ucast (drop_bit 8 v) :: u8))
     OR push_bit 16 (ucast (ucast (drop_bit 16 v) :: u8)) OR push_bit 24 (ucast (ucast (drop_bit 24 v) :: u8)) :: u32) n \<longleftrightarrow> bit v n"
    using n by cases (auto simp: bit_or_iff bit_push_bit_iff c c0)
qed

lemma split16: "ucast (ucast v :: u8) OR push_bit 8 (ucast (ucast (drop_bit 8 v) :: u8)) = v" for v :: u16
proof (rule bit_word_eqI)
  fix n assume n: "n < LENGTH(16)"
  have c: "bit (ucast (ucast (drop_bit k v) :: u8) :: u16) i \<longleftrightarrow> i < 8 \<and> bit v (k + i)" for i k
    using bit_imp_le_length [of v "k + i"] by (auto simp: bit_ucast_iff bit_drop_bit_eq)
  have c0: "bit (ucast (ucast v :: u8) :: u16) i \<longleftrightarrow> i < 8 \<and> bit v i" for i
    using c [of 0 i] by simp
  show "bit (ucast (ucast v :: u8) OR push_bit 8 (ucast (ucast (drop_bit 8 v) :: u8)) :: u16) n \<longleftrightarrow> bit v n"
    using n by (cases "n < 8") (auto simp: bit_or_iff bit_push_bit_iff c c0)
qed

lemma length_put16 [simp]: "length (put16 p v xs) = length xs"
  by (simp add: put16_def)

lemma length_put32 [simp]: "length (put32 p v xs) = length xs"
  by (simp add: put32_def)

lemma get16_put16 [simp]: "p + 2 \<le> length xs \<Longrightarrow> get16 p (put16 p v xs) = v"
  using split16 [of v] by (simp add: get16_def put16_def)

lemma get32_put32 [simp]: "p + 4 \<le> length xs \<Longrightarrow> get32 p (put32 p v xs) = v"
  using split32 [of v] by (simp add: get32_def put32_def)

lemma get16_put_other [simp]:
  "q + 2 \<le> p \<or> p + 2 \<le> q \<Longrightarrow> get16 q (put16 p v xs) = get16 q xs"
  "q + 2 \<le> p \<or> p + 4 \<le> q \<Longrightarrow> get16 q (put32 p w xs) = get16 q xs"
  by (auto simp: get16_def put16_def put32_def)

lemma get32_put_other [simp]:
  "q + 4 \<le> p \<or> p + 2 \<le> q \<Longrightarrow> get32 q (put16 p v xs) = get32 q xs"
  "q + 4 \<le> p \<or> p + 4 \<le> q \<Longrightarrow> get32 q (put32 p w xs) = get32 q xs"
  by (auto simp: get32_def put16_def put32_def)

end
