(* ===== verification/Fifo.thy ===== *)
theory Fifo
  imports Prelude
begin

text \<open>
  The interface of the kernel's ring buffers: bounded queues with a test for full and
  empty.  The contract says how the operations act on the list of queued elements; what
  follows for whole histories of operations is proved once from it.
\<close>

datatype 'a qop = Put 'a | Get

text \<open>A history of operations, where a put into a full queue and a get from an empty one
  do nothing: the elements put, the elements got, and the final queue.\<close>

fun run_queue :: "('q \<Rightarrow> bool) \<Rightarrow> ('q \<Rightarrow> bool) \<Rightarrow> ('a \<Rightarrow> 'q \<Rightarrow> 'q) \<Rightarrow> ('q \<Rightarrow> 'a \<times> 'q) \<Rightarrow> 'a qop list \<Rightarrow> 'q \<Rightarrow>
    'a list \<times> 'a list \<times> 'q" where
  "run_queue isfull isempty put get [] q = ([], [], q)"
| "run_queue isfull isempty put get (Put x # ops) q =
     (if isfull q then run_queue isfull isempty put get ops q
      else let (ins, outs, q) = run_queue isfull isempty put get ops (put x q) in (x # ins, outs, q))"
| "run_queue isfull isempty put get (Get # ops) q =
     (if isempty q then run_queue isfull isempty put get ops q
      else let (x, q) = get q; (ins, outs, q) = run_queue isfull isempty put get ops q in (ins, x # outs, q))"

locale fifo =
  fixes cap :: nat
    and wfq :: "'q \<Rightarrow> bool"
    and contents :: "'q \<Rightarrow> 'a list"
    and isfull :: "'q \<Rightarrow> bool"
    and isempty :: "'q \<Rightarrow> bool"
    and put :: "'a \<Rightarrow> 'q \<Rightarrow> 'q"
    and get :: "'q \<Rightarrow> 'a \<times> 'q"
  assumes bounded: "wfq q \<Longrightarrow> length (contents q) \<le> cap"
    and full_iff: "wfq q \<Longrightarrow> isfull q \<longleftrightarrow> length (contents q) = cap"
    and empty_iff: "wfq q \<Longrightarrow> isempty q \<longleftrightarrow> contents q = []"
    and put_wf: "wfq q \<Longrightarrow> \<not> isfull q \<Longrightarrow> wfq (put x q)"
    and put_contents: "wfq q \<Longrightarrow> \<not> isfull q \<Longrightarrow> contents (put x q) = contents q @ [x]"
    and get_wf: "wfq q \<Longrightarrow> \<not> isempty q \<Longrightarrow> wfq (snd (get q))"
    and get_contents: "wfq q \<Longrightarrow> \<not> isempty q \<Longrightarrow> contents q = fst (get q) # contents (snd (get q))"
begin

lemma run_fifo:
  "wfq q \<Longrightarrow> run_queue isfull isempty put get ops q = (ins, outs, q') \<Longrightarrow>
     wfq q' \<and> contents q @ ins = outs @ contents q' \<and> length (contents q') \<le> cap"
proof (induction ops arbitrary: q ins outs)
  case Nil
  then show ?case using bounded by auto
next
  case (Cons op ops)
  show ?case
  proof (cases op)
    case (Put x)
    show ?thesis
    proof (cases "isfull q")
      case True
      then show ?thesis using Cons Put by simp
    next
      case False
      obtain i1 o1 q2 where r: "run_queue isfull isempty put get ops (put x q) = (i1, o1, q2)"
        by (cases "run_queue isfull isempty put get ops (put x q)")
      have "ins = x # i1" "outs = o1" "q' = q2" using Cons(3) Put False r by simp_all
      then show ?thesis using Cons(1) [OF put_wf [OF Cons(2) False]] put_contents [OF Cons(2) False] r by simp
    qed
  next
    case Get
    show ?thesis
    proof (cases "isempty q")
      case True
      then show ?thesis using Cons Get by simp
    next
      case False
      obtain x q1 where g: "get q = (x, q1)" by (cases "get q")
      obtain i1 o1 q2 where r: "run_queue isfull isempty put get ops q1 = (i1, o1, q2)"
        by (cases "run_queue isfull isempty put get ops q1")
      have "wfq q1" "contents q = x # contents q1"
        using get_wf [OF Cons(2) False] get_contents [OF Cons(2) False] g by simp_all
      moreover have "ins = i1" "outs = x # o1" "q' = q2" using Cons(3) Get False g r by simp_all
      ultimately show ?thesis using Cons(1) [of q1 i1 o1] r by simp
    qed
  qed
qed

lemma put_room: "wfq q \<Longrightarrow> \<not> isfull q \<Longrightarrow> length (contents q) < cap"
  using bounded full_iff by (metis le_neq_implies_less)

end

end
