(* ===== verification/Pipe.thy ===== *)
theory Pipe
  imports Fs Fifo
begin

text \<open>
  Pipes, \<^verbatim>\<open>src/pipe.c\<close>: a ring buffer of 512 bytes between two 32-bit counters that only
  ever grow and wrap around.  \<^verbatim>\<open>pipewrite\<close> and \<^verbatim>\<open>piperead\<close> are given from the start and,
  for a process that is woken up, from the point behind their call of \<^verbatim>\<open>sleep\<close>.
  (\<^verbatim>\<open>pipealloc\<close> also allocates file structures and is in the theory of files.)
\<close>

section \<open>State\<close>

abbreviation (input) PIPESIZE :: nat where "PIPESIZE \<equiv> 512"

record pipe =
  readopen :: int
  writeopen :: int
  writep :: u32
  readp :: u32
  pdata :: "u8 list"

record kpipe = kfs +
  pipes :: "addr \<Rightarrow> pipe"

definition upd_pipe :: "addr \<Rightarrow> (pipe \<Rightarrow> pipe) \<Rightarrow> ('z) kpipe_scheme \<Rightarrow> ('z) kpipe_scheme" where
  "upd_pipe p f s = s\<lparr>pipes := (pipes s)(p := f (pipes s p))\<rparr>"

section \<open>Operations\<close>

definition pipeclose :: "addr \<Rightarrow> bool \<Rightarrow> ('z) kpipe_scheme \<Rightarrow> (unit, ('z) kpipe_scheme) res" where
  "pipeclose p wr s = bindr (acquire (PipeLock p) s) (\<lambda>_ s.
     bindr (if wr then wakeup (ChPipeRead p) (upd_pipe p (\<lambda>q. q\<lparr>writeopen := 0\<rparr>) s)
            else wakeup (ChPipeWrite p) (upd_pipe p (\<lambda>q. q\<lparr>readopen := 0\<rparr>) s)) (\<lambda>_ s.
       if readopen (pipes s p) = 0 \<and> writeopen (pipes s p) = 0
       then bindr (release (PipeLock p) s) (\<lambda>_ s. kfree p (int PAGE) s)
       else release (PipeLock p) s))"

text \<open>One byte into and out of the ring.\<close>

definition pipe_put :: "u8 \<Rightarrow> pipe \<Rightarrow> pipe" where
  "pipe_put x q = q\<lparr>pdata := (pdata q)[unat (writep q) mod PIPESIZE := x], writep := writep q + 1\<rparr>"

definition pipe_get :: "pipe \<Rightarrow> u8 \<times> pipe" where
  "pipe_get q = (pdata q ! (unat (readp q) mod PIPESIZE), q\<lparr>readp := readp q + 1\<rparr>)"

definition pipe_full :: "pipe \<Rightarrow> bool" where
  "pipe_full q \<longleftrightarrow> writep q = readp q + of_nat PIPESIZE"

definition pipe_empty :: "pipe \<Rightarrow> bool" where
  "pipe_empty q \<longleftrightarrow> readp q = writep q"

function pipewrite_loop :: "addr \<Rightarrow> u8 list \<Rightarrow> nat \<Rightarrow> ('z) kpipe_scheme \<Rightarrow> (int, ('z) kpipe_scheme) res" where
  "pipewrite_loop p xs i s =
     (if i < length xs then
        (if pipe_full (pipes s p) then
           (if readopen (pipes s p) = 0 \<or> killed (cproc s) \<noteq> 0
            then bindr (release (PipeLock p) s) (\<lambda>_ s. Ok (-1) s)
            else bindr (wakeup (ChPipeRead p) s) (\<lambda>_ s.
                 bindr (sleep_out (ChPipeWrite p) (PipeLock p) s) (\<lambda>_ s. Sleep (ChPipeWrite p) i s)))
         else pipewrite_loop p xs (i + 1) (upd_pipe p (pipe_put (xs ! i)) s))
      else bindr (wakeup (ChPipeRead p) s) (\<lambda>_ s.
           bindr (release (PipeLock p) s) (\<lambda>_ s. Ok (int i) s)))"
  by pat_completeness auto
termination
  by (relation "measure (\<lambda>(p, xs, i, s). length xs - i)") auto

definition pipewrite :: "addr \<Rightarrow> u8 list \<Rightarrow> ('z) kpipe_scheme \<Rightarrow> (int, ('z) kpipe_scheme) res" where
  "pipewrite p xs s = bindr (acquire (PipeLock p) s) (\<lambda>_ s. pipewrite_loop p xs 0 s)"

definition pipewrite_resume :: "addr \<Rightarrow> u8 list \<Rightarrow> nat \<Rightarrow> ('z) kpipe_scheme \<Rightarrow> (int, ('z) kpipe_scheme) res" where
  "pipewrite_resume p xs i s = bindr (sleep_in (PipeLock p) s) (\<lambda>_ s. pipewrite_loop p xs i s)"

text \<open>The copying loop of \<^verbatim>\<open>piperead\<close>: at most \<open>n\<close> bytes, fewer when the pipe runs empty.\<close>

fun pipe_take :: "nat \<Rightarrow> pipe \<Rightarrow> u8 list \<times> pipe" where
  "pipe_take 0 q = ([], q)"
| "pipe_take (Suc n) q =
     (if pipe_empty q then ([], q)
      else let (x, q) = pipe_get q; (xs, q) = pipe_take n q in (x # xs, q))"

definition piperead_loop :: "addr \<Rightarrow> int \<Rightarrow> ('z) kpipe_scheme \<Rightarrow> (int \<times> u8 list, ('z) kpipe_scheme) res" where
  "piperead_loop p n s =
     (if pipe_empty (pipes s p) \<and> writeopen (pipes s p) \<noteq> 0 then
        (if killed (cproc s) \<noteq> 0 then bindr (release (PipeLock p) s) (\<lambda>_ s. Ok (-1, []) s)
         else bindr (sleep_out (ChPipeRead p) (PipeLock p) s) (\<lambda>_ s. Sleep (ChPipeRead p) 0 s))
      else
        let (xs, q) = pipe_take (nat n) (pipes s p); s = upd_pipe p (\<lambda>_. q) s in
        bindr (wakeup (ChPipeWrite p) s) (\<lambda>_ s.
        bindr (release (PipeLock p) s) (\<lambda>_ s. Ok (int (length xs), xs) s)))"

definition piperead :: "addr \<Rightarrow> int \<Rightarrow> ('z) kpipe_scheme \<Rightarrow> (int \<times> u8 list, ('z) kpipe_scheme) res" where
  "piperead p n s = bindr (acquire (PipeLock p) s) (\<lambda>_ s. piperead_loop p n s)"

definition piperead_resume :: "addr \<Rightarrow> int \<Rightarrow> ('z) kpipe_scheme \<Rightarrow> (int \<times> u8 list, ('z) kpipe_scheme) res" where
  "piperead_resume p n s = bindr (sleep_in (PipeLock p) s) (\<lambda>_ s. piperead_loop p n s)"

section \<open>The ring as a queue\<close>

definition pipe_wf :: "pipe \<Rightarrow> bool" where
  "pipe_wf q \<longleftrightarrow> length (pdata q) = PIPESIZE \<and> unat (writep q - readp q) \<le> PIPESIZE"

text \<open>The bytes in the pipe, oldest first.\<close>

definition pipe_contents :: "pipe \<Rightarrow> u8 list" where
  "pipe_contents q = map (\<lambda>i. pdata q ! ((unat (readp q) + i) mod PIPESIZE)) [0..<unat (writep q - readp q)]"

lemma length_pipe_contents: "length (pipe_contents q) = unat (writep q - readp q)"
  by (simp add: pipe_contents_def)

text \<open>The size divides the range of the counters, so positions survive the wrap-around.\<close>

lemma unat_add_mod_512: "unat (a + b) mod 512 = (unat a + unat b) mod 512" for a b :: u32
  by (simp add: unat_word_ariths mod_mod_cancel)

lemma mod_512_neq: "i < j \<Longrightarrow> j - i < 512 \<Longrightarrow> (r + i) mod 512 \<noteq> (r + j) mod 512" for i j r :: nat
proof
  assume a: "i < j" "j - i < 512" and eq: "(r + i) mod 512 = (r + j) mod 512"
  define c where "c = (r + i) mod 512"
  have c: "c < 512" by (simp add: c_def)
  have "(r + j) mod 512 = (r + i + (j - i)) mod 512" using a by simp
  also have "\<dots> = (c + (j - i)) mod 512" unfolding c_def by (simp only: mod_add_left_eq)
  also have "\<dots> = (if c + (j - i) < 512 then c + (j - i) else c + (j - i) - 512)" using c a by (simp add: mod_if)
  finally have "c = (if c + (j - i) < 512 then c + (j - i) else c + (j - i) - 512)" using eq c_def by simp
  with a show False by (simp split: if_splits)
qed

lemma pipe_full_iff: "pipe_full q \<longleftrightarrow> unat (writep q - readp q) = PIPESIZE"
proof -
  have "pipe_full q \<longleftrightarrow> writep q - readp q = of_nat PIPESIZE"
    by (auto simp: pipe_full_def algebra_simps)
  also have "\<dots> \<longleftrightarrow> unat (writep q - readp q) = PIPESIZE"
    by (simp add: word_unat_eq_iff)
  finally show ?thesis .
qed

lemma pipe_empty_iff: "pipe_empty q \<longleftrightarrow> unat (writep q - readp q) = 0"
  by (auto simp: pipe_empty_def unsigned_eq_0_iff)

lemma pipe_put_ok:
  assumes "pipe_wf q" and "\<not> pipe_full q"
  shows "pipe_wf (pipe_put x q)" and "pipe_contents (pipe_put x q) = pipe_contents q @ [x]"
proof -
  let ?d = "writep q - readp q" and ?r = "unat (readp q)"
  have d: "unat ?d < 512" "length (pdata q) = 512" using assms by (auto simp: pipe_wf_def pipe_full_iff)
  have "writep q + 1 - readp q = ?d + 1" by simp
  moreover have "unat (?d + 1) = unat ?d + 1" using d(1) by (simp add: unat_word_ariths)
  ultimately have n: "unat (writep q + 1 - readp q) = unat ?d + 1" by metis
  have w: "unat (writep q) mod 512 = (?r + unat ?d) mod 512"
    using unat_add_mod_512 [of "readp q" ?d] by simp
  show "pipe_wf (pipe_put x q)" using d n by (simp add: pipe_wf_def pipe_put_def)
  have "(pdata q)[(?r + unat ?d) mod 512 := x] ! ((?r + i) mod 512) = pdata q ! ((?r + i) mod 512)" if "i < unat ?d" for i
  proof -
    have "unat ?d - i < 512" using d(1) by simp
    then show ?thesis by (rule nth_list_update_neq [OF not_sym [OF mod_512_neq [OF that]]])
  qed
  then show "pipe_contents (pipe_put x q) = pipe_contents q @ [x]"
    using d(2) by (simp add: pipe_contents_def pipe_put_def n w)
qed

lemma pipe_get_ok:
  assumes "pipe_wf q" and "\<not> pipe_empty q"
  shows "pipe_wf (snd (pipe_get q))" and "pipe_contents q = fst (pipe_get q) # pipe_contents (snd (pipe_get q))"
proof -
  let ?d = "writep q - readp q" and ?r = "unat (readp q)"
  have d: "0 < unat ?d" "unat ?d \<le> 512" using assms by (auto simp: pipe_wf_def pipe_empty_iff)
  have "writep q - (readp q + 1) = ?d - 1" by simp
  moreover have "unat (?d - 1) = unat ?d - 1" using d(1) by (intro unat_minus_one) auto
  ultimately have n: "unat (writep q - (readp q + 1)) = unat ?d - 1" by metis
  have r: "(unat (readp q + 1) + i) mod 512 = (?r + Suc i) mod 512" for i
  proof -
    have "(unat (readp q + 1) + i) mod 512 = (unat (readp q + 1) mod 512 + i) mod 512" by (simp only: mod_add_left_eq)
    also have "\<dots> = ((?r + 1) mod 512 + i) mod 512" by (simp only: unat_add_mod_512 unsigned_1)
    also have "\<dots> = (?r + 1 + i) mod 512" by (simp only: mod_add_left_eq)
    finally show ?thesis by simp
  qed
  show "pipe_wf (snd (pipe_get q))" using assms d n by (simp add: pipe_wf_def pipe_get_def)
  have "[0..<unat ?d] = 0 # map Suc [0..<unat ?d - 1]"
    using d(1) by (simp add: map_Suc_upt upt_conv_Cons)
  then show "pipe_contents q = fst (pipe_get q) # pipe_contents (snd (pipe_get q))"
    by (simp add: pipe_contents_def pipe_get_def n r del: upt_Suc)
qed

interpretation pq: fifo PIPESIZE pipe_wf pipe_contents pipe_full pipe_empty pipe_put pipe_get
proof unfold_locales
  fix q :: pipe and x :: u8
  assume wf: "pipe_wf q"
  show "length (pipe_contents q) \<le> PIPESIZE" using wf by (simp add: pipe_wf_def length_pipe_contents)
  show "pipe_full q \<longleftrightarrow> length (pipe_contents q) = PIPESIZE" by (simp add: pipe_full_iff length_pipe_contents)
  show "pipe_empty q \<longleftrightarrow> pipe_contents q = []"
    using length_pipe_contents [of q] by (simp add: pipe_empty_iff flip: length_0_conv)
  show "\<not> pipe_full q \<Longrightarrow> pipe_wf (pipe_put x q)" using pipe_put_ok(1) [OF wf] .
  show "\<not> pipe_full q \<Longrightarrow> pipe_contents (pipe_put x q) = pipe_contents q @ [x]" using pipe_put_ok(2) [OF wf] .
  show "\<not> pipe_empty q \<Longrightarrow> pipe_wf (snd (pipe_get q))" using pipe_get_ok(1) [OF wf] .
  show "\<not> pipe_empty q \<Longrightarrow> pipe_contents q = fst (pipe_get q) # pipe_contents (snd (pipe_get q))"
    using pipe_get_ok(2) [OF wf] .
qed

lemma fold_put:
  "pipe_wf q \<Longrightarrow> length (pipe_contents q) + length xs \<le> PIPESIZE \<Longrightarrow>
     pipe_wf (fold pipe_put xs q) \<and> pipe_contents (fold pipe_put xs q) = pipe_contents q @ xs"
proof (induction xs arbitrary: q)
  case (Cons x xs)
  have nf: "\<not> pipe_full q" using Cons(3) pq.full_iff [OF Cons(2)] by simp
  from Cons(1) [OF pipe_put_ok(1) [OF Cons(2) nf]] Cons(3) show ?case
    using pipe_put_ok(2) [OF Cons(2) nf, of x] by simp
qed simp

lemma pipe_put_open [simp]:
  "readopen (pipe_put x q) = readopen q" "writeopen (pipe_put x q) = writeopen q"
  by (simp_all add: pipe_put_def)

lemma fold_put_open [simp]:
  "readopen (fold pipe_put xs q) = readopen q" "writeopen (fold pipe_put xs q) = writeopen q"
  by (induction xs arbitrary: q) simp_all

lemma pipe_take_ok:
  "pipe_wf q \<Longrightarrow> fst (pipe_take n q) = take n (pipe_contents q) \<and>
     pipe_contents (snd (pipe_take n q)) = drop n (pipe_contents q) \<and> pipe_wf (snd (pipe_take n q)) \<and>
     readopen (snd (pipe_take n q)) = readopen q \<and> writeopen (snd (pipe_take n q)) = writeopen q"
proof (induction n arbitrary: q)
  case (Suc n)
  show ?case
  proof (cases "pipe_empty q")
    case True
    then show ?thesis using Suc(2) pq.empty_iff by simp
  next
    case False
    obtain x q1 where g: "pipe_get q = (x, q1)" by (cases "pipe_get q")
    have "readopen q1 = readopen q" "writeopen q1 = writeopen q" using g by (auto simp: pipe_get_def)
    then show ?thesis using Suc(1) [of q1] pipe_get_ok [OF Suc(2) False] False g
      by (simp add: case_prod_beta)
  qed
qed simp

section \<open>Locks and the pipe state\<close>

interpretation pipes_u: mach_upd "pipes_update f" for f
  by unfold_locales simp_all

interpretation pipes_s: kmem_sel pipes
  by unfold_locales simp_all

interpretation upd_pipe_u: mach_upd "upd_pipe p f" for p f
  by unfold_locales (simp_all add: upd_pipe_def)

lemma upd_pipe_simps [simp]:
  "pipes (upd_pipe p f s) = (pipes s)(p := f (pipes s p))" "procs (upd_pipe p f s) = procs s"
  "cur (upd_pipe p f s) = cur s" "kheap (upd_pipe p f s) = kheap s" "phys (upd_pipe p f s) = phys s"
  "cp (upd_pipe p f s) = cp s" "cproc (upd_pipe p f s) = cproc s"
  "upd_pipe p f (upd_pipe p g s) = upd_pipe p (\<lambda>q. f (g q)) s"
  by (simp_all add: upd_pipe_def cp_def cproc_def)

lemma pipes_proc [simp]: "pipes (upd_proc i f s) = pipes s" "pipes (wakeup1 c s) = pipes s"
  by (simp_all add: upd_proc_def wakeup1_def)

declare pipewrite_loop.simps [simp del]

text \<open>How many bytes a call of \<^verbatim>\<open>pipewrite\<close> puts in before it returns or sleeps.\<close>

definition room :: "pipe \<Rightarrow> nat" where
  "room q = PIPESIZE - length (pipe_contents q)"

text \<open>The loop puts in what fits and then either has finished or finds the pipe full.\<close>

lemma pipewrite_loop_puts:
  assumes "pipe_wf (pipes s p)" and "i \<le> length xs"
  shows "pipewrite_loop p xs i s =
    pipewrite_loop p xs (i + min (room (pipes s p)) (length xs - i))
      (upd_pipe p (fold pipe_put (take (room (pipes s p)) (drop i xs))) s)"
  using assms
proof (induction "length xs - i" arbitrary: i s)
  case 0
  then show ?case by (simp add: upd_pipe_def)
next
  case (Suc k)
  let ?q = "pipes s p"
  have i: "i < length xs" using Suc(2) by simp
  show ?case
  proof (cases "pipe_full ?q")
    case True
    then have "room ?q = 0" by (simp add: room_def pq.full_iff [OF Suc(3)])
    then show ?thesis by (simp add: upd_pipe_def)
  next
    case False
    let ?s = "upd_pipe p (pipe_put (xs ! i)) s"
    have wf: "pipe_wf (pipes ?s p)" using pipe_put_ok(1) [OF Suc(3) False] by simp
    have r: "room ?q = Suc (room (pipes ?s p))"
      using pipe_put_ok(2) [OF Suc(3) False, of "xs ! i"] pq.put_room [OF Suc(3) False]
      by (simp add: room_def)
    have "pipewrite_loop p xs i s = pipewrite_loop p xs (Suc i) ?s"
      using i False by (subst pipewrite_loop.simps) simp
    also have "\<dots> = pipewrite_loop p xs (Suc i + min (room (pipes ?s p)) (length xs - Suc i))
        (upd_pipe p (fold pipe_put (take (room (pipes ?s p)) (drop (Suc i) xs))) ?s)"
      using Suc(1) [of "Suc i" ?s] Suc(2) wf i by simp
    also have "Suc i + min (room (pipes ?s p)) (length xs - Suc i) = i + min (room ?q) (length xs - i)"
      using r i by simp
    also have "upd_pipe p (fold pipe_put (take (room (pipes ?s p)) (drop (Suc i) xs))) ?s
        = upd_pipe p (fold pipe_put (take (room ?q) (drop i xs))) s"
      using r Cons_nth_drop_Suc [OF i, symmetric] by (simp add: comp_def)
    finally show ?thesis .
  qed
qed

section \<open>Writing and reading\<close>

text \<open>The states in which the loops run: the pipe is locked and nothing else, and a process
  is running.\<close>

definition pipe_env :: "addr \<Rightarrow> ('z) kpipe_scheme \<Rightarrow> bool" where
  "pipe_env p s \<longleftrightarrow> held (PipeLock p) s \<and> is_free PtableLock s \<and> ncli (this_cpu s) = 1 \<and>
     cur s \<noteq> None \<and> cp s < length (procs s) \<and> pipe_wf (pipes s p)"

definition pipe_ready :: "addr \<Rightarrow> ('z) kpipe_scheme \<Rightarrow> bool" where
  "pipe_ready p s \<longleftrightarrow> is_free (PipeLock p) s \<and> is_free PtableLock s \<and> ncli (this_cpu s) = 0 \<and>
     cur s \<noteq> None \<and> cp s < length (procs s) \<and> pipe_wf (pipes s p)"

lemma pipe_env_lock: "pipe_ready p s \<Longrightarrow> pipe_env p (lock_st (PipeLock p) s)"
  by (auto simp: pipe_ready_def pipe_env_def cp_def intro: held_lock_st is_free_lock_st_other)

lemma pipewrite_ready: "pipe_ready p s \<Longrightarrow> pipewrite p xs s = pipewrite_loop p xs 0 (lock_st (PipeLock p) s)"
  by (simp add: pipewrite_def pipe_ready_def acquire_free)

lemma piperead_ready: "pipe_ready p s \<Longrightarrow> piperead p n s = piperead_loop p n (lock_st (PipeLock p) s)"
  by (simp add: piperead_def pipe_ready_def acquire_free)

interpretation wakeup1_u: mach_upd "wakeup1 c" for c
  by unfold_locales (simp_all add: wakeup1_def)

lemma wakeup1_simps [simp]: "cur (wakeup1 c s) = cur s" "cp (wakeup1 c s) = cp s"
  "length (procs (wakeup1 c s)) = length (procs s)" "procs (wakeup1 c s) = map (wake c) (procs s)"
  by (simp_all add: wakeup1_def cp_def)

text \<open>The states after a wakeup and the release of the pipe, and after a wakeup and going to
  sleep.\<close>

lemma wake_release:
  assumes "held (PipeLock p) s" and "is_free PtableLock s"
  shows "bindr (wakeup c s) (\<lambda>_ s. bindr (release (PipeLock p) s) (\<lambda>_ s. Ok r s)) =
    Ok r (unlock (PipeLock p) (wakeup1 c (through PtableLock s)))"
proof -
  have "held (PipeLock p) (wakeup1 c (through PtableLock s))"
    using assms held_through [OF assms(1), of PtableLock] by simp
  then show ?thesis by (simp add: wakeup_ok [OF assms(2)] release_held)
qed

lemma wake_sleep:
  assumes "pipe_env p s"
  shows "bindr (wakeup c s) (\<lambda>_ s. bindr (sleep_out d (PipeLock p) s) (\<lambda>_ s. Sleep d k s)) =
    Sleep d k (upd_proc (cp s) (asleep d (intena (this_cpu (through PtableLock s))))
      (unlock (PipeLock p) (lock_st PtableLock (wakeup1 c (through PtableLock s)))))"
proof -
  have e: "held (PipeLock p) s" "is_free PtableLock s" "ncli (this_cpu s) = 1" "cur s = Some (cp s)"
    "cp s < length (procs s)" using assms by (auto simp: pipe_env_def cp_def)
  let ?t = "wakeup1 c (through PtableLock s)"
  have "sleep_out d (PipeLock p) ?t = Ok () (upd_proc (cp s) (asleep d (intena (this_cpu ?t)))
      (unlock (PipeLock p) (lock_st PtableLock ?t)))"
    by (rule sleep_out_ok) (use e held_through [OF e(1), of PtableLock] is_free_through [OF e(2)] in simp_all)
  then show ?thesis by (simp add: wakeup_ok [OF e(2)])
qed

text \<open>The process table when process \<open>i\<close> has gone to sleep on a channel.\<close>

definition put_asleep :: "nat \<Rightarrow> chan \<Rightarrow> proc list \<Rightarrow> proc list \<Rightarrow> bool" where
  "put_asleep i c ps ps' \<longleftrightarrow> (\<exists>e. ps' = ps[i := asleep c e (ps ! i)])"

text \<open>Nothing of the pipes changes but the ring of pipe \<open>p\<close>.\<close>

definition ring_only :: "addr \<Rightarrow> ('z) kpipe_scheme \<Rightarrow> ('z) kpipe_scheme \<Rightarrow> bool" where
  "ring_only p s t \<longleftrightarrow> (\<forall>q. q \<noteq> p \<longrightarrow> pipes t q = pipes s q) \<and>
     readopen (pipes t p) = readopen (pipes s p) \<and> writeopen (pipes t p) = writeopen (pipes s p)"

text \<open>The loop of \<^verbatim>\<open>pipewrite\<close>, entered after the call or after a wakeup with \<open>i\<close> bytes already
  written.\<close>

lemma pipewrite_spec:
  assumes env: "pipe_env p s" and "i \<le> length xs"
  defines "n \<equiv> min (room (pipes s p)) (length xs - i)"
  shows "\<exists>t. pipe_wf (pipes t p) \<and> pipe_contents (pipes t p) = pipe_contents (pipes s p) @ take n (drop i xs) \<and>
    is_free (PipeLock p) t \<and> ring_only p s t \<and>
    (if i + n = length xs
     then pipewrite_loop p xs i s = Ok (int (length xs)) t \<and> procs t = map (wake (ChPipeRead p)) (procs s)
     else if readopen (pipes s p) = 0 \<or> killed (cproc s) \<noteq> 0
     then pipewrite_loop p xs i s = Ok (-1) t \<and> procs t = procs s
     else pipewrite_loop p xs i s = Sleep (ChPipeWrite p) (i + n) t \<and>
       put_asleep (cp s) (ChPipeWrite p) (map (wake (ChPipeRead p)) (procs s)) (procs t))"
proof -
  let ?q = "pipes s p" and ?ys = "take n (drop i xs)"
  let ?u = "upd_pipe p (fold pipe_put ?ys) s"
  have wf: "pipe_wf ?q" using env by (simp add: pipe_env_def)
  have tk: "take (room ?q) (drop i xs) = ?ys" by (simp add: n_def min_def)
  have "length (pipe_contents ?q) + length ?ys \<le> PIPESIZE"
    using pq.bounded [OF wf] by (simp add: n_def room_def)
  note c = fold_put [OF wf this]
  have loop: "pipewrite_loop p xs i s = pipewrite_loop p xs (i + n) ?u"
    using pipewrite_loop_puts [OF wf assms(2)] by (simp only: n_def [symmetric] tk)
  have envu: "pipe_env p ?u" using env c by (simp add: pipe_env_def)
  then have h: "held (PipeLock p) ?u" "is_free PtableLock ?u" by (simp_all add: pipe_env_def)
  show ?thesis
  proof (cases "i + n = length xs")
    case True
    let ?t = "unlock (PipeLock p) (wakeup1 (ChPipeRead p) (through PtableLock ?u))"
    have "pipewrite_loop p xs (i + n) ?u = Ok (int (length xs)) ?t"
      using wake_release [OF h] True by (subst pipewrite_loop.simps) simp
    moreover have "is_free (PipeLock p) ?t"
      by (rule is_free_unlock) (use held_through [OF h(1), of PtableLock] in simp)
    ultimately show ?thesis using loop c True by (intro exI [of _ ?t]) (simp add: ring_only_def)
  next
    case False
    then have lt: "i + n < length xs" "n = room ?q" using assms(2) by (auto simp: n_def min_def split: if_splits)
    have full: "pipe_full (pipes ?u p)"
      using c lt pq.bounded [OF wf] pq.full_iff by (simp add: room_def)
    show ?thesis
    proof (cases "readopen ?q = 0 \<or> killed (cproc s) \<noteq> 0")
      case True
      have "pipewrite_loop p xs (i + n) ?u = Ok (-1) (unlock (PipeLock p) ?u)"
        using lt full True release_held [OF h(1)] by (subst pipewrite_loop.simps) simp
      then show ?thesis using loop c False True is_free_unlock [OF h(1)]
        by (intro exI [of _ "unlock (PipeLock p) ?u"]) (simp add: ring_only_def)
    next
      case alive: False
      let ?t = "upd_proc (cp s) (asleep (ChPipeWrite p) (intena (this_cpu (through PtableLock ?u))))
        (unlock (PipeLock p) (lock_st PtableLock (wakeup1 (ChPipeRead p) (through PtableLock ?u))))"
      have "pipewrite_loop p xs (i + n) ?u = Sleep (ChPipeWrite p) (i + n) ?t"
        using lt full alive wake_sleep [OF envu] by (subst pipewrite_loop.simps) simp
      moreover have "is_free (PipeLock p) ?t"
        using is_free_unlock [OF held_lock_st_other [OF held_through [OF h(1), of PtableLock], of PtableLock]] by simp
      moreover have "put_asleep (cp s) (ChPipeWrite p) (map (wake (ChPipeRead p)) (procs s)) (procs ?t)"
        unfolding put_asleep_def by (intro exI [of _ "intena (this_cpu (through PtableLock ?u))"]) simp
      ultimately show ?thesis using loop c False alive by (intro exI [of _ ?t]) (simp add: ring_only_def)
    qed
  qed
qed

text \<open>The loop of \<^verbatim>\<open>piperead\<close>.\<close>

lemma piperead_spec:
  assumes env: "pipe_env p s"
  defines "xs \<equiv> pipe_contents (pipes s p)"
  shows "\<exists>t. pipe_wf (pipes t p) \<and> is_free (PipeLock p) t \<and> ring_only p s t \<and>
    (if xs = [] \<and> writeopen (pipes s p) \<noteq> 0
     then pipes t = pipes s \<and>
       (if killed (cproc s) \<noteq> 0 then piperead_loop p n s = Ok (-1, []) t \<and> procs t = procs s
        else piperead_loop p n s = Sleep (ChPipeRead p) 0 t \<and>
          put_asleep (cp s) (ChPipeRead p) (procs s) (procs t))
     else piperead_loop p n s = Ok (int (length (take (nat n) xs)), take (nat n) xs) t \<and>
       pipe_contents (pipes t p) = drop (nat n) xs \<and> procs t = map (wake (ChPipeWrite p)) (procs s))"
proof -
  let ?q = "pipes s p"
  have wf: "pipe_wf ?q" and h: "held (PipeLock p) s" "is_free PtableLock s"
    using env by (simp_all add: pipe_env_def)
  show ?thesis
  proof (cases "xs = [] \<and> writeopen ?q \<noteq> 0")
    case True
    then have e: "pipe_empty ?q" using pq.empty_iff [OF wf] xs_def by simp
    show ?thesis
    proof (cases "killed (cproc s) \<noteq> 0")
      case killed: True
      then have "piperead_loop p n s = Ok (-1, []) (unlock (PipeLock p) s)"
        using e True release_held [OF h(1)] by (simp add: piperead_loop_def)
      then show ?thesis using True killed wf is_free_unlock [OF h(1)]
        by (intro exI [of _ "unlock (PipeLock p) s"]) (simp add: ring_only_def)
    next
      case alive: False
      let ?t = "upd_proc (cp s) (asleep (ChPipeRead p) (intena (this_cpu s))) (unlock (PipeLock p) (lock_st PtableLock s))"
      have "sleep_out (ChPipeRead p) (PipeLock p) s = Ok () ?t"
        by (rule sleep_out_ok) (use env in \<open>auto simp: pipe_env_def cp_def\<close>)
      then have "piperead_loop p n s = Sleep (ChPipeRead p) 0 ?t"
        using e True alive by (simp add: piperead_loop_def)
      moreover have "is_free (PipeLock p) ?t"
        using is_free_unlock [OF held_lock_st_other [OF h(1), of PtableLock]] by simp
      moreover have "put_asleep (cp s) (ChPipeRead p) (procs s) (procs ?t)"
        unfolding put_asleep_def by (intro exI [of _ "intena (this_cpu s)"]) simp
      ultimately show ?thesis using True alive wf by (intro exI [of _ ?t]) (simp add: ring_only_def)
    qed
  next
    case False
    then have ne: "\<not> (pipe_empty ?q \<and> writeopen ?q \<noteq> 0)" using pq.empty_iff [OF wf] xs_def by simp
    obtain ys q where tk: "pipe_take (nat n) ?q = (ys, q)" by (cases "pipe_take (nat n) ?q")
    have q: "ys = take (nat n) xs" "pipe_contents q = drop (nat n) xs" "pipe_wf q"
      "readopen q = readopen ?q" "writeopen q = writeopen ?q"
      using pipe_take_ok [OF wf, of "nat n"] tk by (simp_all add: xs_def)
    let ?u = "upd_pipe p (\<lambda>_. q) s"
    let ?t = "unlock (PipeLock p) (wakeup1 (ChPipeWrite p) (through PtableLock ?u))"
    have hu: "held (PipeLock p) ?u" "is_free PtableLock ?u" using h by simp_all
    have "piperead_loop p n s = Ok (int (length ys), ys) ?t"
      unfolding piperead_loop_def if_not_P [OF ne] tk Let_def prod.case
      by (rule wake_release [OF hu])
    moreover have "is_free (PipeLock p) ?t"
      by (rule is_free_unlock) (use held_through [OF h(1), of PtableLock] in simp)
    ultimately show ?thesis using False q by (intro exI [of _ ?t]) (simp add: ring_only_def)
  qed
qed

section \<open>Histories\<close>

text \<open>
  A history of a pipe: calls of the two loops, each with the state it ends in, whether it
  returns or sleeps, and between them arbitrary activity that leaves the pipe alone.  The two
  lists are the bytes put in and taken out.
\<close>

definition ends_in :: "('a, 's) res \<Rightarrow> 's \<Rightarrow> bool" where
  "ends_in r t \<longleftrightarrow> (case r of Ok _ u \<Rightarrow> t = u | Sleep _ _ u \<Rightarrow> t = u | _ \<Rightarrow> False)"

inductive pipe_hist :: "addr \<Rightarrow> ('z) kpipe_scheme \<Rightarrow> u8 list \<Rightarrow> u8 list \<Rightarrow> ('z) kpipe_scheme \<Rightarrow> bool" for p s where
  hist_start: "pipe_hist p s [] [] s"
| hist_other: "pipe_hist p s ws rs t \<Longrightarrow> pipes u p = pipes t p \<Longrightarrow> pipe_hist p s ws rs u"
| hist_write: "pipe_hist p s ws rs t \<Longrightarrow> pipe_env p t \<Longrightarrow> i \<le> length xs \<Longrightarrow> ends_in (pipewrite_loop p xs i t) u \<Longrightarrow>
    pipe_hist p s (ws @ take (min (room (pipes t p)) (length xs - i)) (drop i xs)) rs u"
| hist_read: "pipe_hist p s ws rs t \<Longrightarrow> pipe_env p t \<Longrightarrow> piperead_loop p n t = Ok (r, xs) u \<Longrightarrow>
    pipe_hist p s ws (rs @ xs) u"
| hist_wait: "pipe_hist p s ws rs t \<Longrightarrow> pipe_env p t \<Longrightarrow> piperead_loop p n t = Sleep c k u \<Longrightarrow> pipe_hist p s ws rs u"

lemma pipe_hist_inv:
  assumes "pipe_hist p s ws rs t" and "pipe_wf (pipes s p)"
  shows "pipe_wf (pipes t p) \<and> pipe_contents (pipes s p) @ ws = rs @ pipe_contents (pipes t p)"
  using assms(1)
proof (induction rule: pipe_hist.induct)
  case (hist_write ws rs t i xs u)
  from pipewrite_spec [OF hist_write(2,3)] obtain v
    where v: "pipe_wf (pipes v p)" "pipe_contents (pipes v p) = pipe_contents (pipes t p) @
        take (min (room (pipes t p)) (length xs - i)) (drop i xs)"
      and e: "ends_in (pipewrite_loop p xs i t) w \<Longrightarrow> w = v" for w
    by (auto simp: ends_in_def split: if_splits)
  have "u = v" by (rule e [OF hist_write(4)])
  with v hist_write(5) show ?case by simp
next
  case (hist_read ws rs t n r xs u)
  from piperead_spec [OF hist_read(2), of n] hist_read(3,4) show ?case
    by (auto split: if_splits)
next
  case (hist_wait ws rs t n c k u)
  from piperead_spec [OF hist_wait(2), of n] hist_wait(3,4) show ?case
    by (auto split: if_splits)
qed (use assms(2) in auto)

text \<open>
  C5: a pipe is a faithful byte stream.  Over any history of writes and reads, with their
  sleeping and waking and with arbitrary other activity in between, and however often the
  32-bit counters have wrapped around, the bytes read followed by the bytes still in the
  pipe are the bytes that were in it followed by the bytes written: none is lost,
  duplicated or reordered.  The pipe never holds more than 512 bytes.
\<close>

theorem pipe_stream:
  assumes "pipe_hist p s ws rs t" and "pipe_wf (pipes s p)"
  shows "rs @ pipe_contents (pipes t p) = pipe_contents (pipes s p) @ ws \<and>
    length (pipe_contents (pipes t p)) \<le> PIPESIZE"
  using pipe_hist_inv [OF assms] pq.bounded by simp

text \<open>
  C31: \<^verbatim>\<open>pipewrite\<close> puts into the pipe, behind what is there, as many bytes as fit.  If all fit
  it returns their number, and exactly the processes asleep on the reading end have been
  made runnable.  Otherwise it returns -1 with no process changed when the reading end is
  closed or the process has been killed; in all other cases it wakes the same processes and
  then sleeps on the writing end.  The pipe is unlocked, and no other pipe has changed.
\<close>

theorem pipewrite_correct:
  assumes "pipe_ready p s"
  shows "\<exists>t. pipe_contents (pipes t p) = pipe_contents (pipes s p) @ take (room (pipes s p)) xs \<and>
    pipe_wf (pipes t p) \<and> is_free (PipeLock p) t \<and> ring_only p s t \<and>
    (if length xs \<le> room (pipes s p)
     then pipewrite p xs s = Ok (int (length xs)) t \<and> procs t = map (wake (ChPipeRead p)) (procs s)
     else if readopen (pipes s p) = 0 \<or> killed (cproc s) \<noteq> 0
     then pipewrite p xs s = Ok (-1) t \<and> procs t = procs s
     else pipewrite p xs s = Sleep (ChPipeWrite p) (room (pipes s p)) t \<and>
       put_asleep (cp s) (ChPipeWrite p) (map (wake (ChPipeRead p)) (procs s)) (procs t))"
proof -
  have "cproc (lock_st (PipeLock p) s) = cproc s" "cp (lock_st (PipeLock p) s) = cp s"
    by (simp_all add: cproc_def cp_def)
  with pipewrite_spec [OF pipe_env_lock [OF assms], of 0 xs] show ?thesis
    unfolding pipewrite_ready [OF assms] by (auto simp: min_def ring_only_def split: if_splits)
qed

text \<open>
  C32: \<^verbatim>\<open>piperead\<close> sleeps on the reading end if the pipe is empty and can still be written to,
  or returns -1 with no process changed if in that case the process has been killed.
  Otherwise it returns the oldest \<open>n\<close> bytes, or all if there are fewer, takes them out of the
  pipe and makes exactly the processes runnable that are asleep on the writing end; with the
  writing end closed an empty pipe gives 0 bytes.  No other pipe has changed.
\<close>

theorem piperead_correct:
  assumes "pipe_ready p s"
  defines "xs \<equiv> pipe_contents (pipes s p)"
  shows "\<exists>t. pipe_wf (pipes t p) \<and> is_free (PipeLock p) t \<and> ring_only p s t \<and>
    (if xs = [] \<and> writeopen (pipes s p) \<noteq> 0
     then pipes t = pipes s \<and>
       (if killed (cproc s) \<noteq> 0 then piperead p n s = Ok (-1, []) t \<and> procs t = procs s
        else piperead p n s = Sleep (ChPipeRead p) 0 t \<and> put_asleep (cp s) (ChPipeRead p) (procs s) (procs t))
     else piperead p n s = Ok (int (length (take (nat n) xs)), take (nat n) xs) t \<and>
       pipe_contents (pipes t p) = drop (nat n) xs \<and> procs t = map (wake (ChPipeWrite p)) (procs s))"
proof -
  have "cproc (lock_st (PipeLock p) s) = cproc s" "cp (lock_st (PipeLock p) s) = cp s"
    by (simp_all add: cproc_def cp_def)
  with piperead_spec [OF pipe_env_lock [OF assms(1)], of n] show ?thesis
    unfolding piperead_ready [OF assms(1)] xs_def by (auto simp: ring_only_def split: if_splits)
qed

text \<open>
  C33: a killed writer can leave a reader asleep in front of a full pipe.  When \<^verbatim>\<open>pipewrite\<close> fills
  the pipe and then finds that its process has been killed, it returns without the wakeup
  that it performs on all other ways out, so a reader that went to sleep on the empty
  pipe stays asleep although the pipe is full.
\<close>

theorem pipewrite_killed_no_wakeup:
  assumes "pipe_ready p s" and "room (pipes s p) < length xs" and "killed (cproc s) \<noteq> 0"
    and "pstate (procs s ! j) = SLEEPING" and "pchan (procs s ! j) = Some (ChPipeRead p)"
  shows "\<exists>t. pipewrite p xs s = Ok (-1) t \<and> pipe_full (pipes t p) \<and>
    pstate (procs t ! j) = SLEEPING \<and> pchan (procs t ! j) = Some (ChPipeRead p)"
proof -
  let ?s = "lock_st (PipeLock p) s"
  have cps: "cproc ?s = cproc s" by (simp add: cproc_def cp_def)
  have wf: "pipe_wf (pipes s p)" using assms(1) by (simp add: pipe_ready_def)
  have "0 + min (room (pipes ?s p)) (length xs - 0) \<noteq> length xs" using assms(2) by simp
  with pipewrite_spec [OF pipe_env_lock [OF assms(1)], of 0 xs] cps assms(3) obtain t
    where t: "pipewrite_loop p xs 0 ?s = Ok (-1) t" "procs t = procs ?s" "pipe_wf (pipes t p)"
      "pipe_contents (pipes t p) = pipe_contents (pipes ?s p) @ take (min (room (pipes ?s p)) (length xs)) xs"
    by auto
  have "length (pipe_contents (pipes t p)) = PIPESIZE"
    using t(4) assms(2) pq.bounded [OF wf] by (simp add: room_def)
  with t assms(4,5) pq.full_iff show ?thesis by (auto simp: pipewrite_ready [OF assms(1)])
qed

section \<open>Examples\<close>

text \<open>A pipe whose counters are about to wrap around; process 1 sleeps on the reading end of
  pipe 0 in the second state, whose running process has been killed.\<close>

definition kpipe0 :: kpipe where
  "kpipe0 = kfs.extend kfs0
     \<lparr>pipes = (\<lambda>_. \<lparr>readopen = 1, writeopen = 1, writep = - 2, readp = - 2, pdata = replicate 512 0\<rparr>)\<rparr>"

definition kpipe1 :: kpipe where
  "kpipe1 = upd_proc 0 (\<lambda>p. p\<lparr>killed := 1\<rparr>) (upd_proc 1 (\<lambda>p. p\<lparr>pchan := Some (ChPipeRead 0)\<rparr>) kpipe0)"

lemma kpipe0_simps [simp]:
  "procs kpipe0 = procs kproc0" "cur kpipe0 = Some 0" "cp kpipe0 = 0" "ncli (this_cpu kpipe0) = 0"
  "is_free l kpipe0" "pipes kpipe0 p = \<lparr>readopen = 1, writeopen = 1, writep = - 2, readp = - 2, pdata = replicate 512 0\<rparr>"
  using kfs0_simps
  by (simp_all add: kpipe0_def kfs.extend_def is_free_def cpu_ok_def this_cpu_def cpu_id_def cp_def)

lemma kpipe0_ready: "pipe_ready p kpipe0" "pipe_contents (pipes kpipe0 p) = []" "room (pipes kpipe0 p) = 512"
  by (simp_all add: pipe_ready_def pipe_wf_def pipe_contents_def room_def)

lemma kpipe1_simps [simp]:
  "procs kpipe1 ! 0 = (procs kproc0 ! 0)\<lparr>killed := 1\<rparr>" "cproc kpipe1 = (procs kproc0 ! 0)\<lparr>killed := 1\<rparr>"
  "procs kpipe1 ! 1 = (procs kproc0 ! 1)\<lparr>pchan := Some (ChPipeRead 0)\<rparr>"
  "procs kpipe1 ! Suc 0 = (procs kproc0 ! 1)\<lparr>pchan := Some (ChPipeRead 0)\<rparr>" "pipes kpipe1 = pipes kpipe0"
  by (simp_all add: kpipe1_def cproc_def)

lemma kpipe1_ready: "pipe_ready p kpipe1"
  using kpipe0_ready(1) [of p] by (simp add: kpipe1_def pipe_ready_def)

theorem pipewrite_correct_witness:
  "\<exists>t. pipewrite 0 [1, 2, 3] kpipe0 = Ok 3 t \<and> pipe_contents (pipes t 0) = [1, 2, 3]"
  using pipewrite_correct [OF kpipe0_ready(1), of 0 "[1, 2, 3]"] kpipe0_ready(2,3) [of 0] by auto

definition kpipe2 :: kpipe where
  "kpipe2 = upd_proc 1 (\<lambda>p. p\<lparr>pchan := Some (ChPipeWrite 0)\<rparr>)
     (upd_pipe 0 (\<lambda>q. q\<lparr>writep := 1, pdata := (pdata q)[510 := 7, 511 := 8, 0 := 9]\<rparr>) kpipe0)"

lemma kpipe2_ready: "pipe_ready 0 kpipe2" "pipe_contents (pipes kpipe2 0) = [7, 8, 9]"
  "pstate (procs kpipe2 ! 1) = SLEEPING" "pchan (procs kpipe2 ! 1) = Some (ChPipeWrite 0)" "1 < length (procs kpipe2)"
  using kpipe0_ready(1) [of 0]
  by (simp_all add: kpipe2_def pipe_ready_def pipe_wf_def pipe_contents_def upt_rec)

theorem piperead_correct_witness:
  "(\<exists>t. piperead 0 5 kpipe0 = Sleep (ChPipeRead 0) 0 t \<and> pipes t = pipes kpipe0) \<and>
   (\<exists>t. piperead 0 2 kpipe2 = Ok (2, [7, 8]) t \<and> pipe_contents (pipes t 0) = [9] \<and>
     pstate (procs t ! 1) = RUNNABLE)"
proof
  show "\<exists>t. piperead 0 5 kpipe0 = Sleep (ChPipeRead 0) 0 t \<and> pipes t = pipes kpipe0"
    using piperead_correct [OF kpipe0_ready(1), of 0 5] kpipe0_ready(2) [of 0]
    by (auto simp: cproc_def proc_unused_def)
  from piperead_correct [OF kpipe2_ready(1), of 2] kpipe2_ready(2)
  obtain t where t: "piperead 0 2 kpipe2 = Ok (2, [7, 8]) t" "pipe_contents (pipes t 0) = [9]"
    "procs t = map (wake (ChPipeWrite 0)) (procs kpipe2)" by auto
  with kpipe2_ready(3-5) have "pstate (procs t ! 1) = RUNNABLE" by (simp add: wake_def)
  with t show "\<exists>t. piperead 0 2 kpipe2 = Ok (2, [7, 8]) t \<and> pipe_contents (pipes t 0) = [9] \<and>
     pstate (procs t ! 1) = RUNNABLE" by blast
qed

theorem pipewrite_killed_no_wakeup_witness:
  "\<exists>t. pipewrite 0 (replicate 600 7) kpipe1 = Ok (-1) t \<and> pipe_full (pipes t 0) \<and> pstate (procs t ! 1) = SLEEPING"
  using pipewrite_killed_no_wakeup [OF kpipe1_ready, of 0 "replicate 600 7" 1] kpipe0_ready(3) [of 0]
  by (auto simp: proc_unused_def)

theorem pipe_stream_witness:
  "\<exists>u rs. pipe_hist 0 kpipe0 [1, 2, 3] rs u \<and> rs @ pipe_contents (pipes u 0) = [1, 2, 3]"
proof -
  let ?s = "lock_st (PipeLock 0) kpipe0"
  have env: "pipe_env 0 ?s" by (rule pipe_env_lock [OF kpipe0_ready(1)])
  have p: "pipes ?s 0 = pipes kpipe0 0" by simp
  have "pipe_hist 0 kpipe0 [] [] ?s" by (rule hist_other [OF hist_start p])
  moreover obtain u where "ends_in (pipewrite_loop 0 [1, 2, 3] 0 ?s) u"
    using pipewrite_spec [OF env, of 0 "[1, 2, 3]"] by (auto simp: ends_in_def split: if_splits)
  ultimately have h: "pipe_hist 0 kpipe0 ([] @ take (min (room (pipes ?s 0)) (length [1, 2, 3 :: u8] - 0)) (drop 0 [1, 2, 3])) [] u"
    using hist_write [OF _ env, of kpipe0 "[]" "[]" 0 "[1, 2, 3]" u] by simp
  have r: "room (pipes ?s 0) = 512" using kpipe0_ready(3) [of 0] p by metis
  have "pipe_hist 0 kpipe0 [1, 2, 3] [] u" using h unfolding r by simp
  with pipe_stream [OF this] kpipe0_ready show ?thesis
    by (intro exI [of _ u] exI [of _ "[]"]) (simp add: pipe_ready_def)
qed


end
