(* ===== verification/File.thy ===== *)
theory File
  imports Pipe
begin

text \<open>
  Open files, \<^verbatim>\<open>src/file.c\<close> with \<^verbatim>\<open>src/file.h\<close>, and \<^verbatim>\<open>pipealloc\<close> of \<^verbatim>\<open>src/pipe.c\<close>.  A file
  structure is named by its index in \<^verbatim>\<open>ftable\<close>; the flags \<^verbatim>\<open>readable\<close> and \<^verbatim>\<open>writable\<close>, which
  the code only ever sets to 0 or 1, are truth values.
\<close>

section \<open>State\<close>

datatype ftype = FD_NONE | FD_PIPE | FD_INODE

record filev6 =
  fltype :: ftype
  fref :: int
  readable :: bool
  writable :: bool
  fpipe :: addr
  fip :: nat
  foff :: u32

record kfile = kpipe +
  files :: "filev6 list"

definition upd_file :: "nat \<Rightarrow> (filev6 \<Rightarrow> filev6) \<Rightarrow> ('z) kfile_scheme \<Rightarrow> ('z) kfile_scheme" where
  "upd_file i f s = s\<lparr>files := (files s)[i := f (files s ! i)]\<rparr>"

text \<open>The device switch: the read and the write function of the devices by major number.\<close>

type_synonym 's dev_read = "int \<Rightarrow> (nat \<Rightarrow> u32 \<Rightarrow> 's \<Rightarrow> (int \<times> u8 list, 's) res) option"
type_synonym 's dev_write = "int \<Rightarrow> (nat \<Rightarrow> mem \<Rightarrow> addr \<Rightarrow> u32 \<Rightarrow> 's \<Rightarrow> (int, 's) res) option"

section \<open>Operations\<close>

definition fileinit :: "('z) kfile_scheme \<Rightarrow> ('z) kfile_scheme" where
  "fileinit s = initlock FtableLock ''ftable'' s"

definition filealloc :: "('z) kfile_scheme \<Rightarrow> (nat option, ('z) kfile_scheme) res" where
  "filealloc s = bindr (acquire FtableLock s) (\<lambda>_ s.
     case first_index (\<lambda>f. fref f = 0) (files s) of
       Some i \<Rightarrow> bindr (release FtableLock (upd_file i (\<lambda>f. f\<lparr>fref := 1\<rparr>) s)) (\<lambda>_ s. Ok (Some i) s)
     | None \<Rightarrow> bindr (release FtableLock s) (\<lambda>_ s. Ok None s))"

definition filedup :: "nat \<Rightarrow> ('z) kfile_scheme \<Rightarrow> (nat, ('z) kfile_scheme) res" where
  "filedup i s = bindr (acquire FtableLock s) (\<lambda>_ s.
     if fref (files s ! i) < 1 then Panic ''filedup''
     else bindr (release FtableLock (upd_file i (\<lambda>f. f\<lparr>fref := fref f + 1\<rparr>) s)) (\<lambda>_ s. Ok i s))"

definition fileclose :: "nat \<Rightarrow> ('z) kfile_scheme \<Rightarrow> (unit, ('z) kfile_scheme) res" where
  "fileclose i s = bindr (acquire FtableLock s) (\<lambda>_ s.
     if fref (files s ! i) < 1 then Panic ''fileclose''
     else
       let s = upd_file i (\<lambda>f. f\<lparr>fref := fref f - 1\<rparr>) s in
       if fref (files s ! i) > 0 then release FtableLock s
       else
         let ff = files s ! i; s = upd_file i (\<lambda>f. f\<lparr>fref := 0, fltype := FD_NONE\<rparr>) s in
         bindr (release FtableLock s) (\<lambda>_ s.
           if fltype ff = FD_PIPE then pipeclose (fpipe ff) (writable ff) s
           else if fltype ff = FD_INODE then iput (fip ff) s
           else Ok () s))"

definition filestat :: "nat \<Rightarrow> ('z) kfile_scheme \<Rightarrow> (stat option, ('z) kfile_scheme) res" where
  "filestat i s =
     (let f = files s ! i in
      if fltype f = FD_INODE then
        bindr (ilock (fip f) s) (\<lambda>_ s.
          let st = stati (fip f) s in bindr (iunlock (fip f) s) (\<lambda>_ s. Ok (Some st) s))
      else Ok None s)"

definition fileread :: "(('z) kfile_scheme) dev_read \<Rightarrow> nat \<Rightarrow> int \<Rightarrow> ('z) kfile_scheme \<Rightarrow>
    (int \<times> u8 list, ('z) kfile_scheme) res" where
  "fileread rd i n s =
     (let f = files s ! i in
      if \<not> readable f then Ok (-1, []) s
      else case fltype f of
        FD_PIPE \<Rightarrow> piperead (fpipe f) n s
      | FD_INODE \<Rightarrow>
          bindr (ilock (fip f) s) (\<lambda>_ s.
          bindr (readi rd (fip f) (foff (files s ! i)) (word_of_int n) s) (\<lambda>(r, xs) s.
            let s = (if r > 0 then upd_file i (\<lambda>f. f\<lparr>foff := foff f + word_of_int r\<rparr>) s else s) in
            bindr (iunlock (fip f) s) (\<lambda>_ s. Ok (r, xs) s)))
      | FD_NONE \<Rightarrow> Panic ''fileread'')"

definition filewrite :: "(('z) kfile_scheme) dev_write \<Rightarrow> nat \<Rightarrow> mem \<Rightarrow> addr \<Rightarrow> int \<Rightarrow> ('z) kfile_scheme \<Rightarrow>
    (int, ('z) kfile_scheme) res" where
  "filewrite wr i m a n s =
     (let f = files s ! i in
      if \<not> writable f then Ok (-1) s
      else case fltype f of
        FD_PIPE \<Rightarrow> pipewrite (fpipe f) (bytes m a (nat n)) s
      | FD_INODE \<Rightarrow>
          bindr (ilock (fip f) s) (\<lambda>_ s.
          bindr (writei wr (fip f) m a (foff (files s ! i)) (word_of_int n) s) (\<lambda>r s.
            let s = (if r > 0 then upd_file i (\<lambda>f. f\<lparr>foff := foff f + word_of_int r\<rparr>) s else s) in
            bindr (iunlock (fip f) s) (\<lambda>_ s. Ok r s)))
      | FD_NONE \<Rightarrow> Panic ''filewrite'')"

text \<open>
  \<^verbatim>\<open>pipealloc\<close>; the code behind the label \<^verbatim>\<open>bad\<close> is \<open>pipealloc_bad\<close>.  A page that holds no
  pipe has arbitrary contents; here the data bytes are those of the pipe last stored there.
\<close>

definition pipealloc_bad :: "nat option \<Rightarrow> nat option \<Rightarrow> ('z) kfile_scheme \<Rightarrow> ((nat \<times> nat) option, ('z) kfile_scheme) res" where
  "pipealloc_bad f0 f1 s =
     bindr (case f0 of None \<Rightarrow> Ok () s | Some i \<Rightarrow> fileclose i s) (\<lambda>_ s.
     bindr (case f1 of None \<Rightarrow> Ok () s | Some i \<Rightarrow> fileclose i s) (\<lambda>_ s. Ok None s))"

definition pipealloc :: "('z) kfile_scheme \<Rightarrow> ((nat \<times> nat) option, ('z) kfile_scheme) res" where
  "pipealloc s = bindr (filealloc s) (\<lambda>f0 s.
     case f0 of
       None \<Rightarrow> pipealloc_bad None None s
     | Some i0 \<Rightarrow> bindr (filealloc s) (\<lambda>f1 s.
     case f1 of
       None \<Rightarrow> pipealloc_bad f0 None s
     | Some i1 \<Rightarrow> bindr (kalloc (int PAGE) s) (\<lambda>p s.
         if p = 0 then pipealloc_bad f0 f1 s
         else
           let s = upd_pipe p (\<lambda>q. q\<lparr>readopen := 1, writeopen := 1, writep := 0, readp := 0\<rparr>) s;
               s = initlock (PipeLock p) ''pipe'' s;
               s = upd_file i0 (\<lambda>f. f\<lparr>fltype := FD_PIPE, readable := True, writable := False, fpipe := p\<rparr>) s;
               s = upd_file i1 (\<lambda>f. f\<lparr>fltype := FD_PIPE, readable := False, writable := True, fpipe := p\<rparr>) s
           in Ok (Some (i0, i1)) s)))"

end
