(* ===== verification/Process.thy ===== *)
theory Process
  imports File
begin

text \<open>
  The part of \<^verbatim>\<open>src/proc.c\<close> that works on files and directories as well as on the process
  table: \<^verbatim>\<open>fork\<close>, \<^verbatim>\<open>exit\<close> and the first process.
\<close>

section \<open>Processors\<close>

text \<open>\<^verbatim>\<open>ksegment\<close>; \<open>tls\<close> is the address of the thread-local storage of the processor.\<close>

definition ksegment :: "u32 \<Rightarrow> ('z) kproc_scheme \<Rightarrow> ('z) kproc_scheme" where
  "ksegment tls s =
     s\<lparr>gdt := [SEG_NULL, SEG (STA_X OR STA_R) 0 (0x100000 + 64 * 1024 - 1) 0, SEG STA_W 0 0xffffffff 0,
               SEG STA_W (tls + 8) 0xffffffff 0, SEG_NULL, SEG_NULL, SEG_NULL],
       cur := None\<rparr>"

section \<open>Creating processes\<close>

text \<open>The string that \<^verbatim>\<open>safestrcpy\<close> leaves in a buffer of 16 bytes.\<close>

definition proc_name :: "u8 list \<Rightarrow> u8 list" where
  "proc_name xs = take 15 (takeWhile (\<lambda>c. c \<noteq> 0) xs)"

text \<open>The loop of \<^verbatim>\<open>fork\<close> over the open files of the parent.\<close>

fun fork_files :: "nat \<Rightarrow> nat list \<Rightarrow> ('z) kfile_scheme \<Rightarrow> (unit, ('z) kfile_scheme) res" where
  "fork_files np [] s = Ok () s"
| "fork_files np (k # ks) s =
     (case ofile (cproc s) ! k of
        None \<Rightarrow> fork_files np ks s
      | Some f \<Rightarrow> bindr (filedup f s) (\<lambda>f s.
          fork_files np ks (upd_proc np (\<lambda>p. p\<lparr>ofile := (ofile p)[k := Some f]\<rparr>) s)))"

definition fork :: "u32 \<Rightarrow> ('z) kfile_scheme \<Rightarrow> (int, ('z) kfile_scheme) res" where
  "fork forkret_addr s = bindr (allocproc forkret_addr s) (\<lambda>r s.
     case r of
       None \<Rightarrow> Ok (-1) s
     | Some np \<Rightarrow>
         let s = upd_proc np (\<lambda>p. p\<lparr>psz := psz (cproc s)\<rparr>) s in
         bindr (kalloc (sint (psz (procs s ! np))) s) (\<lambda>m s.
           let s = upd_proc np (\<lambda>p. p\<lparr>pmem := m\<rparr>) s in
           if m = 0 then
             bindr (kfree (kstack (procs s ! np)) (int KSTACKSIZE) s) (\<lambda>_ s.
               Ok (-1) (upd_proc np (\<lambda>p. p\<lparr>kstack := 0, pstate := UNUSED\<rparr>) s))
           else
             let s = s\<lparr>phys := snd (memmove m (pmem (cproc s)) (unat (psz (procs s ! np))) (phys s))\<rparr>;
                 s = upd_proc np (\<lambda>p. p\<lparr>parent := cur s\<rparr>) s;
                 s = s\<lparr>tframes := (tframes s)(tf (procs s ! np) := (tframes s (tf (cproc s)))\<lparr>tf_eax := 0\<rparr>)\<rparr>
             in bindr (fork_files np [0..<NOFILE] s) (\<lambda>_ s.
                bindr (idup (the (cwd (cproc s))) s) (\<lambda>d s.
                  let s = upd_proc np (\<lambda>p. p\<lparr>cwd := Some d\<rparr>) s; n = pid (procs s ! np) in
                  Ok n (upd_proc np (\<lambda>p. p\<lparr>pstate := RUNNABLE\<rparr>) s)))))"

text \<open>\<^verbatim>\<open>userinit\<close>; \<open>initcode\<close> is the program text linked into the kernel.  The allocations are
  not checked by the code.\<close>

definition userinit :: "u32 \<Rightarrow> u8 list \<Rightarrow> ('z) kfile_scheme \<Rightarrow> (unit, ('z) kfile_scheme) res" where
  "userinit forkret_addr initcode s = bindr (allocproc forkret_addr s) (\<lambda>r s.
     let i = the r; s = s\<lparr>initproc := r\<rparr>; s = upd_proc i (\<lambda>p. p\<lparr>psz := of_nat PAGE\<rparr>) s in
     bindr (kalloc (sint (psz (procs s ! i))) s) (\<lambda>m s.
       let s = upd_proc i (\<lambda>p. p\<lparr>pmem := m\<rparr>) s;
           s = s\<lparr>phys := put m initcode (phys s)\<rparr>;
           ds = of_nat (SEG_UDATA * 8) OR 3;
           s = s\<lparr>tframes := (tframes s)(tf (procs s ! i) :=
                 zero_tf\<lparr>tf_cs := of_nat (SEG_UCODE * 8) OR 3, tf_ds := ds, tf_es := ds, tf_ss := ds,
                         tf_eflags := FL_IF, tf_esp := psz (procs s ! i), tf_eip := 0\<rparr>)\<rparr>;
           s = upd_proc i (\<lambda>p. p\<lparr>pname := [105, 110, 105, 116, 99, 111, 100, 101]\<rparr>) s
       in bindr (namei [47] s) (\<lambda>d s.
            Ok () (upd_proc i (\<lambda>p. p\<lparr>cwd := d, pstate := RUNNABLE\<rparr>) s))))"

section \<open>Exit\<close>

fun exit_files :: "nat list \<Rightarrow> ('z) kfile_scheme \<Rightarrow> (unit, ('z) kfile_scheme) res" where
  "exit_files [] s = Ok () s"
| "exit_files (k # ks) s =
     (case ofile (cproc s) ! k of
        None \<Rightarrow> exit_files ks s
      | Some f \<Rightarrow> bindr (fileclose f s) (\<lambda>_ s.
          exit_files ks (upd_proc (cp s) (\<lambda>p. p\<lparr>ofile := (ofile p)[k := None]\<rparr>) s)))"

text \<open>\<^verbatim>\<open>exit\<close> up to the switch to the scheduler.\<close>

definition exit_out :: "('z) kfile_scheme \<Rightarrow> (unit, ('z) kfile_scheme) res" where
  "exit_out s =
     (if cur s = initproc s then Panic ''init exiting''
      else bindr (exit_files [0..<NOFILE] s) (\<lambda>_ s.
        bindr (iput (the (cwd (cproc s))) s) (\<lambda>_ s.
          exit_sched (upd_proc (cp s) (\<lambda>p. p\<lparr>cwd := None\<rparr>) s))))"

definition exit_in :: "('z) kfile_scheme \<Rightarrow> (unit, ('z) kfile_scheme) res" where
  "exit_in s = (let s = sched_in s in Panic ''zombie exit'')"


end
