(* ===== verification/Syscall.thy ===== *)
theory Syscall
  imports Process
begin

text \<open>
  System call arguments, the first part of \<^verbatim>\<open>src/syscall.c\<close>, and the system calls on
  processes, \<^verbatim>\<open>src/sysproc.c\<close>.  A function that returns -1 for a bad argument and otherwise
  stores a value through a pointer returns an option here.
\<close>

section \<open>Arguments\<close>

definition fetchint :: "proc \<Rightarrow> u32 \<Rightarrow> mem \<Rightarrow> int option" where
  "fetchint p a m =
     (if a \<ge> psz p \<or> a + 4 > psz p then None
      else Some (sint (get32 0 (bytes m (pmem p + unat a) 4))))"

text \<open>\<open>n\<close> bytes are left up to the end of the process memory.\<close>

fun fetchstr_loop :: "mem \<Rightarrow> addr \<Rightarrow> nat \<Rightarrow> nat \<Rightarrow> nat option" where
  "fetchstr_loop m a 0 len = None"
| "fetchstr_loop m a (Suc n) len =
     (if m a = 0 then Some len else fetchstr_loop m (a + 1) n (len + 1))"

text \<open>The address and the length of the string.\<close>

definition fetchstr :: "proc \<Rightarrow> u32 \<Rightarrow> mem \<Rightarrow> (addr \<times> nat) option" where
  "fetchstr p a m =
     (if a \<ge> psz p then None
      else let pp = pmem p + unat a in
        map_option (\<lambda>len. (pp, len)) (fetchstr_loop m pp (unat (psz p) - unat a) 0))"

definition argint :: "nat \<Rightarrow> ('z) kproc_scheme \<Rightarrow> int option" where
  "argint n s = fetchint (cproc s) (tf_esp (tframes s (tf (cproc s))) + 4 + 4 * of_nat n) (phys s)"

definition argptr :: "nat \<Rightarrow> int \<Rightarrow> ('z) kproc_scheme \<Rightarrow> addr option" where
  "argptr n sz s =
     (case argint n s of
        None \<Rightarrow> None
      | Some i \<Rightarrow>
          let a = word_of_int i :: u32 in
          if a \<ge> psz (cproc s) \<or> a + word_of_int sz \<ge> psz (cproc s) then None
          else Some (pmem (cproc s) + unat a))"

definition argstr :: "nat \<Rightarrow> ('z) kproc_scheme \<Rightarrow> (addr \<times> nat) option" where
  "argstr n s =
     (case argint n s of
        None \<Rightarrow> None
      | Some i \<Rightarrow> fetchstr (cproc s) (word_of_int i) (phys s))"

text \<open>The bytes of a string argument.\<close>

definition argbytes :: "nat \<Rightarrow> ('z) kproc_scheme \<Rightarrow> u8 list option" where
  "argbytes n s = map_option (\<lambda>(a, len). bytes (phys s) a len) (argstr n s)"

section \<open>System calls on processes\<close>

text \<open>The clock, counted by the timer interrupt; a C \<^verbatim>\<open>int\<close>.\<close>

record ksys = kfile +
  ticks :: "32 word"

definition sys_fork :: "u32 \<Rightarrow> ('z) ksys_scheme \<Rightarrow> (int, ('z) ksys_scheme) res" where
  "sys_fork forkret_addr s = fork forkret_addr s"

text \<open>\<^verbatim>\<open>exit\<close> does not return.\<close>

definition sys_exit :: "('z) ksys_scheme \<Rightarrow> (unit, ('z) ksys_scheme) res" where
  "sys_exit s = exit_out s"

definition sys_wait :: "('z) ksys_scheme \<Rightarrow> (int, ('z) ksys_scheme) res" where
  "sys_wait s = wait s"

definition sys_kill :: "('z) ksys_scheme \<Rightarrow> (int, ('z) ksys_scheme) res" where
  "sys_kill s = (case argint 0 s of None \<Rightarrow> Ok (-1) s | Some n \<Rightarrow> kill n s)"

definition sys_getpid :: "('z) ksys_scheme \<Rightarrow> (int, ('z) ksys_scheme) res" where
  "sys_getpid s = Ok (pid (cproc s)) s"

definition sys_sbrk :: "('z) ksys_scheme \<Rightarrow> (int, ('z) ksys_scheme) res" where
  "sys_sbrk s =
     (case argint 0 s of
        None \<Rightarrow> Ok (-1) s
      | Some n \<Rightarrow>
          let a = sint (psz (cproc s)) in
          bindr (growproc n s) (\<lambda>r s. if r < 0 then Ok (-1) s else Ok a s))"

text \<open>The loop of \<^verbatim>\<open>sys_sleep\<close> for \<open>n\<close> ticks from \<open>ticks0\<close> on.  The difference is an \<^verbatim>\<open>int\<close>.\<close>

definition sys_sleep_loop :: "int \<Rightarrow> u32 \<Rightarrow> ('z) ksys_scheme \<Rightarrow> (int, ('z) ksys_scheme) res" where
  "sys_sleep_loop n ticks0 s =
     (if sint (ticks s - ticks0) < n then
        (if killed (cproc s) \<noteq> 0 then bindr (release TicksLock s) (\<lambda>_ s. Ok (-1) s)
         else bindr (sleep_out ChTicks TicksLock s) (\<lambda>_ s. Sleep ChTicks (unat ticks0) s))
      else bindr (release TicksLock s) (\<lambda>_ s. Ok 0 s))"

definition sys_sleep :: "('z) ksys_scheme \<Rightarrow> (int, ('z) ksys_scheme) res" where
  "sys_sleep s =
     (case argint 0 s of
        None \<Rightarrow> Ok (-1) s
      | Some n \<Rightarrow> bindr (acquire TicksLock s) (\<lambda>_ s. sys_sleep_loop n (ticks s) s))"

definition sys_sleep_resume :: "int \<Rightarrow> u32 \<Rightarrow> ('z) ksys_scheme \<Rightarrow> (int, ('z) ksys_scheme) res" where
  "sys_sleep_resume n ticks0 s = bindr (sleep_in TicksLock s) (\<lambda>_ s. sys_sleep_loop n ticks0 s)"

section \<open>Arguments lie in the process\<close>

lemma fetchstr_loop_Some:
  "fetchstr_loop m a n len = Some k \<Longrightarrow> len \<le> k \<and> k - len < n \<and> cstr m a (bytes m a (k - len))"
proof (induction m a n len rule: fetchstr_loop.induct)
  case (2 m a n len)
  show ?case
  proof (cases "m a = 0")
    case True
    then show ?thesis using 2(2) by simp
  next
    case False
    then have "Suc len \<le> k" "k - Suc len < n" "cstr m (a + 1) (bytes m (a + 1) (k - Suc len))" using 2 by simp_all
    moreover have "k - len = Suc (k - Suc len)" using calculation(1) by simp
    ultimately show ?thesis using False by (simp add: bytes_Suc)
  qed
qed simp

lemma fetchstr_loop_None: "fetchstr_loop m a n len = None \<longleftrightarrow> (\<forall>i < n. m (a + i) \<noteq> 0)"
proof (induction m a n len rule: fetchstr_loop.induct)
  case (2 m a n len)
  have "(\<forall>i < Suc n. m (a + i) \<noteq> 0) \<longleftrightarrow> m a \<noteq> 0 \<and> (\<forall>i < n. m (a + 1 + i) \<noteq> 0)"
    by (simp add: All_less_Suc2)
  then show ?case using 2 by simp
qed simp

lemma all_from: "(\<forall>i < n - w. P (m + (w + i))) \<longleftrightarrow> (\<forall>i. w \<le> i \<and> i < n \<longrightarrow> P (m + i))" for n w m :: nat
proof (intro iffI allI impI)
  fix i assume "\<forall>i < n - w. P (m + (w + i))" "w \<le> i \<and> i < n"
  then show "P (m + i)" by (auto dest: spec [of _ "i - w"])
qed auto

lemma fetchint_Some:
  assumes "fetchint p a m = Some v" and "unat (psz p) \<le> 2 ^ 31"
  shows "unat a + 4 \<le> unat (psz p) \<and> v = sint (get32 0 (bytes m (pmem p + unat a) 4))"
proof -
  have a: "a < psz p" "\<not> a + 4 > psz p" and v: "v = sint (get32 0 (bytes m (pmem p + unat a) 4))"
    using assms(1) by (auto simp: fetchint_def split: if_splits)
  have "unat a < 2 ^ 31" using a(1) assms(2) by (simp add: word_less_nat_alt)
  then have "unat (a + 4) = unat a + 4" by (simp add: unat_word_ariths)
  with a(2) v show ?thesis by (simp add: word_less_nat_alt)
qed

lemma fetchstr_Some:
  assumes "fetchstr p a m = Some (pp, len)"
  shows "pp = pmem p + unat a \<and> unat a + len < unat (psz p) \<and> cstr m pp (bytes m pp len)"
  using assms fetchstr_loop_Some [of m pp "unat (psz p) - unat a" 0 len]
  by (auto simp: fetchstr_def Let_def word_le_nat_alt split: if_splits)

text \<open>The check of a pointer argument, over the integers.\<close>

lemma mod32_int:
  assumes "- (2 ^ 31) \<le> z" and "z < 2 ^ 32"
  shows "z mod 2 ^ 32 = (if z < 0 then z + 2 ^ 32 else z :: int)"
proof (cases "z < 0")
  case True
  have "z mod 2 ^ 32 = (z + 2 ^ 32) mod 2 ^ 32" by simp
  also have "\<dots> = z + 2 ^ 32" using True assms by (intro mod_pos_pos_trivial) simp_all
  finally show ?thesis using True by simp
qed (use assms in \<open>simp add: mod_pos_pos_trivial\<close>)

lemma argptr_iff:
  assumes "argint n s = Some v" and "unat (psz (cproc s)) \<le> 2 ^ 31" and "- (2 ^ 31) \<le> sz" and "sz < 2 ^ 31"
  shows "argptr n sz s = Some q \<longleftrightarrow> (let a = unat (word_of_int v :: u32) in
    q = pmem (cproc s) + a \<and> a < unat (psz (cproc s)) \<and> 0 \<le> int a + sz \<and> int a + sz < int (unat (psz (cproc s))))"
proof -
  let ?a = "word_of_int v :: u32" and ?p = "psz (cproc s)"
  have "int (unat ?p) \<le> int (2 ^ 31)" using assms(2) by (simp only: of_nat_le_iff)
  then have "uint ?p \<le> 2 ^ 31" by simp
  have "(\<not> ?a + word_of_int sz \<ge> ?p) \<longleftrightarrow> 0 \<le> uint ?a + sz \<and> uint ?a + sz < uint ?p" if "?a < ?p"
  proof -
    have b: "0 \<le> uint ?a" "uint ?a < uint ?p" using that by (simp_all add: word_less_def)
    have "uint (?a + word_of_int sz) = (uint ?a + sz) mod 2 ^ 32"
      by (simp add: uint_word_ariths uint_word_of_int mod_simps)
    also have "(uint ?a + sz) mod 2 ^ 32 = (if uint ?a + sz < 0 then uint ?a + sz + 2 ^ 32 else uint ?a + sz)"
      using b assms(3,4) \<open>uint ?p \<le> 2 ^ 31\<close> by (intro mod32_int, linarith, simp)
    finally have "uint (?a + word_of_int sz) = (if uint ?a + sz < 0 then uint ?a + sz + 2 ^ 32 else uint ?a + sz)" .
    moreover have "- (2 ^ 31) \<le> uint ?a + sz" using b assms(3) by linarith
    ultimately show ?thesis using \<open>uint ?p \<le> 2 ^ 31\<close> by (auto simp: word_le_def)
  qed
  then show ?thesis using assms(1) by (auto simp: argptr_def Let_def not_le simp flip: word_less_nat_alt)
qed

text \<open>
  C15: what a system call argument may refer to, in a process of at most 2 GB.  An integer
  argument is read from the four bytes of its stack slot, which lie inside the process.  A
  pointer argument is accepted exactly when it lies inside the process and so does the
  address of the end of its block, as a signed sum; so a block whose size is not negative
  lies inside the process, but a negative size is accepted too when the pointer is at
  least that large.  A string argument lies inside the process with its terminating NUL, is
  the string up to the first NUL, and is refused exactly when there is no NUL up to the
  end of the process memory.
\<close>

theorem args_in_bounds:
  assumes "unat (psz (cproc s)) \<le> 2 ^ 31"
  shows "(argint n s = Some v \<longrightarrow> (let a = unat (tf_esp (tframes s (tf (cproc s))) + 4 + 4 * of_nat n) in
       a + 4 \<le> unat (psz (cproc s)) \<and> v = sint (get32 0 (bytes (phys s) (pmem (cproc s) + a) 4)))) \<and>
    (argptr n sz s = Some q \<longrightarrow> 0 \<le> sz \<longrightarrow> sz < 2 ^ 31 \<longrightarrow>
       pmem (cproc s) \<le> q \<and> q + nat sz < pmem (cproc s) + unat (psz (cproc s))) \<and>
    (argint n s = Some v \<longrightarrow> - (2 ^ 31) \<le> sz \<longrightarrow> sz < 2 ^ 31 \<longrightarrow>
       (argptr n sz s = Some q \<longleftrightarrow> (let a = unat (word_of_int v :: u32) in
          q = pmem (cproc s) + a \<and> a < unat (psz (cproc s)) \<and>
          0 \<le> int a + sz \<and> int a + sz < int (unat (psz (cproc s)))))) \<and>
    (argstr n s = Some (pp, len) \<longrightarrow> pmem (cproc s) \<le> pp \<and> pp + len < pmem (cproc s) + unat (psz (cproc s)) \<and>
       cstr (phys s) pp (bytes (phys s) pp len)) \<and>
    (argint n s = Some v \<longrightarrow> unat (word_of_int v :: u32) < unat (psz (cproc s)) \<longrightarrow>
       (argstr n s = None \<longleftrightarrow> (\<forall>i. unat (word_of_int v :: u32) \<le> i \<and> i < unat (psz (cproc s)) \<longrightarrow> phys s (pmem (cproc s) + i) \<noteq> 0)))"
proof (intro conjI impI)
  let ?p = "cproc s" and ?w = "word_of_int v :: u32"
  show "let a = unat (tf_esp (tframes s (tf ?p)) + 4 + 4 * of_nat n) in
      a + 4 \<le> unat (psz ?p) \<and> v = sint (get32 0 (bytes (phys s) (pmem ?p + a) 4))"
    if "argint n s = Some v"
    using that fetchint_Some [OF _ assms] unfolding argint_def Let_def by blast
  show "pmem ?p \<le> q" "q + nat sz < pmem ?p + unat (psz ?p)"
    if q: "argptr n sz s = Some q" "0 \<le> sz" "sz < 2 ^ 31"
  proof -
    obtain i where "argint n s = Some i" using q(1) by (auto simp: argptr_def split: option.splits)
    from argptr_iff [OF this assms, of sz q] q
    have "q = pmem ?p + unat (word_of_int i :: u32)" "int (unat (word_of_int i :: u32)) + sz < int (unat (psz ?p))"
      by (simp_all add: Let_def)
    then show "pmem ?p \<le> q" "q + nat sz < pmem ?p + unat (psz ?p)" using q(2) by linarith+
  qed
  show "argptr n sz s = Some q \<longleftrightarrow> (let a = unat ?w in
      q = pmem ?p + a \<and> a < unat (psz ?p) \<and> 0 \<le> int a + sz \<and> int a + sz < int (unat (psz ?p)))"
    if "argint n s = Some v" "- (2 ^ 31) \<le> sz" "sz < 2 ^ 31"
    using argptr_iff [OF that(1) assms that(2,3)] .
  show "pmem ?p \<le> pp" "pp + len < pmem ?p + unat (psz ?p)" "cstr (phys s) pp (bytes (phys s) pp len)"
    if "argstr n s = Some (pp, len)"
    using that fetchstr_Some by (fastforce simp: argstr_def split: option.splits)+
  show "argstr n s = None \<longleftrightarrow> (\<forall>i. unat ?w \<le> i \<and> i < unat (psz ?p) \<longrightarrow> phys s (pmem ?p + i) \<noteq> 0)"
    if v: "argint n s = Some v" and lt: "unat ?w < unat (psz ?p)"
  proof -
    have "argstr n s = None \<longleftrightarrow> (\<forall>i < unat (psz ?p) - unat ?w. phys s (pmem ?p + unat ?w + i) \<noteq> 0)"
      using v lt by (simp add: argstr_def fetchstr_def fetchstr_loop_None word_le_nat_alt Let_def)
    also have "\<dots> \<longleftrightarrow> (\<forall>i. unat ?w \<le> i \<and> i < unat (psz ?p) \<longrightarrow> phys s (pmem ?p + i) \<noteq> 0)"
      unfolding add.assoc by (rule all_from)
    finally show ?thesis .
  qed
qed


section \<open>An example system\<close>

text \<open>
  The system of the earlier examples with an empty file table and clock 0.  The running process
  has its stack pointer at 0, so that the words \<open>a\<close>, \<open>b\<close> and \<open>c\<close> are the arguments of a system call.
\<close>

definition sysargs :: "u32 \<Rightarrow> u32 \<Rightarrow> u32 \<Rightarrow> u8 list" where
  "sysargs a b c = put32 0 a (put32 4 b (put32 8 c (replicate 12 0)))"

definition file0 :: filev6 where
  "file0 = \<lparr>fltype = FD_NONE, fref = 0, readable = False, writable = False, fpipe = 0, fip = 0, foff = 0\<rparr>"

definition ksys0 :: "u32 \<Rightarrow> u32 \<Rightarrow> u32 \<Rightarrow> ksys" where
  "ksys0 a b c = (kfile.extend (kpipe.extend kpipe0 \<lparr>files = replicate 100 file0\<rparr>) \<lparr>ticks = 0\<rparr>)
     \<lparr>phys := put 0x30004 (sysargs a b c) (\<lambda>_. 0)\<rparr>"

lemma ksys0_simps [simp]:
  "procs (ksys0 a b c) = procs kproc0" "cur (ksys0 a b c) = Some 0" "cp (ksys0 a b c) = 0"
  "cproc (ksys0 a b c) = procs kproc0 ! 0" "kheap (ksys0 a b c) = kheap kmem0"
  "phys (ksys0 a b c) = put 0x30004 (sysargs a b c) (\<lambda>_. 0)" "ncli (this_cpu (ksys0 a b c)) = 0" "is_free l (ksys0 a b c)"
  "tframes (ksys0 a b c) = (\<lambda>_. zero_tf)" "files (ksys0 a b c) = replicate 100 file0"
  using kpipe0_simps
  by (simp_all add: ksys0_def kfile.extend_def kpipe.extend_def is_free_def cpu_ok_def this_cpu_def cpu_id_def
      cp_def cproc_def kpipe0_def kfs.extend_def kfs0_def kbuf.extend_def kbuf0_def kproc.extend_def kproc0_def kmem.extend_def)

lemma sysargs_get: "length (sysargs a b c) = 12"
  "get32 0 (sysargs a b c) = a" "get32 4 (sysargs a b c) = b" "get32 8 (sysargs a b c) = c"
  by (simp_all add: sysargs_def)

lemma get32_bytes_put: "o' + 4 \<le> length xs \<Longrightarrow> get32 0 (bytes (put p xs m) (p + o') 4) = get32 o' xs"
  by (simp add: get32_def put_def)

lemma argint_ksys0 [simp]:
  "argint 0 (ksys0 a b c) = Some (sint a)" "argint 1 (ksys0 a b c) = Some (sint b)" "argint 2 (ksys0 a b c) = Some (sint c)"
  "argint (Suc 0) (ksys0 a b c) = Some (sint b)"
  using get32_bytes_put [of 0 "sysargs a b c" "0x30004" "\<lambda>_. 0"] get32_bytes_put [of 4 "sysargs a b c" "0x30004" "\<lambda>_. 0"]
    get32_bytes_put [of 8 "sysargs a b c" "0x30004" "\<lambda>_. 0"]
  by (simp_all add: argint_def fetchint_def proc_unused_def zero_tf_def sysargs_get)


theorem args_in_bounds_witness:
  "argptr 1 12 (ksys0 3 0x100 12) = Some 0x30100 \<and> 0x30100 + 12 < (0x30000 :: nat) + 8192 \<and>
   argstr 1 (ksys0 3 0x1f00 0) \<noteq> None \<and> argptr 1 (- 1) (ksys0 3 0x100 12) = Some 0x30100"
proof -
  have p: "argptr 1 12 (ksys0 3 0x100 12) = Some 0x30100"
    by (simp add: argptr_def proc_unused_def)
  have "unat (psz (cproc (ksys0 3 0x100 12))) \<le> 2 ^ 31" by (simp add: proc_unused_def)
  from args_in_bounds [OF this, of 1 _ 12 "0x30100"] args_in_bounds [OF this, of 1 "0x100" "- 1" "0x30100"] p
  have "0x30100 + 12 < (0x30000 :: nat) + 8192" "argptr 1 (- 1) (ksys0 3 0x100 12) = Some 0x30100"
    by (simp_all add: proc_unused_def)
  moreover have "argstr 1 (ksys0 3 0x1f00 0) \<noteq> None"
  proof -
    have sz: "unat (psz (cproc (ksys0 3 0x1f00 0))) \<le> 2 ^ 31" by (simp add: proc_unused_def)
    have "phys (ksys0 3 0x1f00 0) (0x30000 + 0x1f00) = 0" by (simp add: put_def sysargs_get)
    moreover have "argint 1 (ksys0 3 0x1f00 0) = Some 0x1f00" by simp
    ultimately show ?thesis
      using args_in_bounds [OF sz, of 1 "0x1f00"] by (auto simp: proc_unused_def)
  qed
  ultimately show ?thesis using p by simp
qed

section \<open>Growing the memory of a process\<close>

lemma sint_mod_page: "sint (w :: u32) mod 4096 = uint w mod 4096"
proof -
  have "take_bit 12 (sint w) = take_bit 12 (uint w)"
    by (simp add: sint_uint take_bit_signed_take_bit)
  then show ?thesis by (simp add: take_bit_eq_mod)
qed

lemma sint_of_int32: "- (2 ^ 31) \<le> k \<Longrightarrow> k < 2 ^ 31 \<Longrightarrow> sint (word_of_int k :: u32) = k"
  by (simp add: signed_of_int signed_take_bit_int_eq_self)

lemma growproc_bad_size:
  assumes "psz (cproc s) = of_nat sz" "PAGE dvd sz" "sz < 2 ^ 31" "- (2 ^ 31) \<le> n"
    "\<not> int PAGE dvd n \<or> int sz + n \<le> 0"
  shows "growproc n s = Panic ''kalloc''"
proof -
  let ?w = "psz (cproc s) + word_of_int n"
  have w: "?w = word_of_int (int sz + n)" using assms(1) by simp
  have "sint ?w mod int PAGE \<noteq> 0 \<or> sint ?w \<le> 0"
  proof (cases "int PAGE dvd n")
    case True
    then have "- (2 ^ 31) \<le> int sz + n" "int sz + n < 2 ^ 31" using assms(3-5) by auto
    then have "sint ?w = int sz + n" unfolding w by (rule sint_of_int32)
    then show ?thesis using True assms(5) by simp
  next
    case False
    have "sint (word_of_int k :: u32) mod int PAGE = k mod int PAGE" for k
      using sint_mod_page [of "word_of_int k"] by (simp add: unsigned_of_int take_bit_eq_mod mod_mod_cancel)
    then have "sint ?w mod int PAGE = (int sz + n) mod int PAGE" unfolding w .
    moreover have "\<not> int PAGE dvd int sz + n"
      using False assms(2) dvd_add_right_iff [of "int PAGE" "int sz" n] int_dvd_int_iff [of PAGE sz] by blast
    ultimately show ?thesis by (simp only: dvd_eq_mod_eq_0) simp
  qed
  then show ?thesis by (simp add: growproc_def kalloc_def)
qed

lemma argint_lower: "argint n s = Some v \<Longrightarrow> - (2 ^ 31) \<le> v"
  using sint_ge [where ?'a = 32] by (auto simp: argint_def fetchint_def split: if_splits)



end
