(* ===== verification/Exec.thy ===== *)
theory Exec
  imports Syscall
begin

text \<open>
  \<^verbatim>\<open>exec\<close> of \<^verbatim>\<open>src/exec.c\<close> with the ELF format of \<^verbatim>\<open>src/elf.h\<close>: the two passes over the
  program headers, the allocation of the new image, the argument vector on the new
  stack and the switch to the image.
\<close>

section \<open>ELF files\<close>

record elfhdr =
  e_magic :: u32
  e_entry :: u32
  e_phoff :: u32
  e_phnum :: u16

record proghdr =
  ph_type :: u32
  ph_offset :: u32
  ph_va :: u32
  ph_filesz :: u32
  ph_memsz :: u32

definition get_elfhdr :: "u8 list \<Rightarrow> elfhdr" where
  "get_elfhdr d = \<lparr>e_magic = get32 0 d, e_entry = get32 24 d, e_phoff = get32 28 d, e_phnum = get16 44 d\<rparr>"

definition get_proghdr :: "u8 list \<Rightarrow> proghdr" where
  "get_proghdr d = \<lparr>ph_type = get32 0 d, ph_offset = get32 4 d, ph_va = get32 8 d,
     ph_filesz = get32 16 d, ph_memsz = get32 20 d\<rparr>"

definition ELF_MAGIC :: u32 where "ELF_MAGIC = 0x464C457F"
definition ELF_PROG_LOAD :: u32 where "ELF_PROG_LOAD = 1"

section \<open>The passes\<close>

text \<open>
  The first pass adds up the memory sizes of the segments.  \<open>None\<close> is a jump to the label
  \<^verbatim>\<open>bad\<close>.  The sum is a 32-bit number.
\<close>

fun exec_sizes :: "(('z) kfile_scheme) dev_read \<Rightarrow> nat \<Rightarrow> nat \<Rightarrow> u32 \<Rightarrow> u32 \<Rightarrow> ('z) kfile_scheme \<Rightarrow>
    (u32 option, ('z) kfile_scheme) res" where
  "exec_sizes rd ip 0 off sz s = Ok (Some sz) s"
| "exec_sizes rd ip (Suc n) off sz s = bindr (readi rd ip off 32 s) (\<lambda>(r, xs) s.
     if r \<noteq> 32 then Ok None s
     else let ph = get_proghdr xs in
       if ph_type ph \<noteq> ELF_PROG_LOAD then exec_sizes rd ip n (off + 32) sz s
       else if ph_memsz ph < ph_filesz ph then Ok None s
       else exec_sizes rd ip n (off + 32) (sz + ph_memsz ph) s)"

text \<open>The second pass reads the segments into the new image at \<open>mem\<close>.\<close>

fun exec_load :: "(('z) kfile_scheme) dev_read \<Rightarrow> nat \<Rightarrow> addr \<Rightarrow> u32 \<Rightarrow> nat \<Rightarrow> u32 \<Rightarrow> ('z) kfile_scheme \<Rightarrow>
    (bool, ('z) kfile_scheme) res" where
  "exec_load rd ip mem sz 0 off s = Ok True s"
| "exec_load rd ip mem sz (Suc n) off s = bindr (readi rd ip off 32 s) (\<lambda>(r, xs) s.
     if r \<noteq> 32 then Ok False s
     else let ph = get_proghdr xs; va = ph_va ph; ms = ph_memsz ph; fs = ph_filesz ph in
       if ph_type ph \<noteq> ELF_PROG_LOAD then exec_load rd ip mem sz n (off + 32) s
       else if va + ms < va \<or> va + ms > sz \<or> ms < fs then Ok False s
       else bindr (readi rd ip (ph_offset ph) fs s) (\<lambda>(r, xs) s.
         let s = s\<lparr>phys := put (mem + unat va) xs (phys s)\<rparr> in
         if word_of_int r \<noteq> fs then Ok False s
         else
           let s = s\<lparr>phys := snd (memset (mem + unat va + unat fs) 0 (unat (ms - fs)) (phys s))\<rparr> in
           exec_load rd ip mem sz n (off + 32) s))"

section \<open>The argument vector\<close>

text \<open>A 32-bit word in memory.\<close>

definition put_word :: "addr \<Rightarrow> u32 \<Rightarrow> mem \<Rightarrow> mem" where
  "put_word a v m = put a (put32 0 v [0, 0, 0, 0]) m"

definition arglen :: "u8 list list \<Rightarrow> nat" where
  "arglen argv = (sum_list (map (\<lambda>a. length a + 1) argv) + 3) div 4 * 4"

text \<open>
  The copying loop, which runs down from the last argument: the arguments still to be
  copied are given in reverse.
\<close>

fun push_args :: "addr \<Rightarrow> nat \<Rightarrow> u8 list list \<Rightarrow> nat \<Rightarrow> mem \<Rightarrow> mem" where
  "push_args mem argp [] sp m = m"
| "push_args mem argp (a # as) sp m =
     (let len = length a + 1; sp = sp - len;
          m = put (mem + sp) (a @ [0]) m;
          m = put_word (mem + argp + 4 * length as) (of_nat sp) m
      in push_args mem argp as sp m)"

text \<open>The stack of the new image: the arguments and the frame of \<^verbatim>\<open>main\<close>.  The result is the
  stack pointer.\<close>

definition exec_stack :: "addr \<Rightarrow> nat \<Rightarrow> u8 list list \<Rightarrow> mem \<Rightarrow> nat \<times> mem" where
  "exec_stack mem sz argv m =
     (let argc = length argv; argp = sz - arglen argv - 4 * (argc + 1);
          m = put_word (mem + argp + 4 * argc) 0 m;
          m = push_args mem argp (rev argv) sz m;
          m = put_word (mem + (argp - 4)) (of_nat argp) m;
          m = put_word (mem + (argp - 8)) (of_nat argc) m;
          m = put_word (mem + (argp - 12)) 0xffffffff m
      in (argp - 12, m))"

text \<open>The part of a path behind its last slash.\<close>

definition last_elem :: "u8 list \<Rightarrow> u8 list" where
  "last_elem path = rev (takeWhile (\<lambda>c. c \<noteq> 47) (rev path))"

section \<open>The system call\<close>

definition exec_bad :: "nat \<Rightarrow> addr \<Rightarrow> u32 \<Rightarrow> ('z) kfile_scheme \<Rightarrow> (int, ('z) kfile_scheme) res" where
  "exec_bad ip mem sz s =
     bindr (if mem \<noteq> 0 then kfree mem (sint sz) s else Ok () s) (\<lambda>_ s.
     bindr (iunlockput ip s) (\<lambda>_ s. Ok (-1) s))"

definition exec_commit :: "u8 list \<Rightarrow> u32 \<Rightarrow> addr \<Rightarrow> u32 \<Rightarrow> nat \<Rightarrow> ('z) kfile_scheme \<Rightarrow> (int, ('z) kfile_scheme) res" where
  "exec_commit path entry mem sz sp s =
     (let s = upd_proc (cp s) (\<lambda>p. p\<lparr>pname := proc_name (last_elem path)\<rparr>) s in
      bindr (kfree (pmem (cproc s)) (sint (psz (cproc s))) s) (\<lambda>_ s.
        let s = upd_proc (cp s) (\<lambda>p. p\<lparr>pmem := mem, psz := sz\<rparr>) s; t = tf (cproc s);
            s = s\<lparr>tframes := (tframes s)(t := (tframes s t)\<lparr>tf_eip := entry, tf_esp := of_nat sp\<rparr>)\<rparr>
        in bindr (usegment s) (\<lambda>_ s. Ok 0 s)))"

text \<open>The size of the image: segments, arguments and a page of stack, rounded up.\<close>

definition exec_sz :: "u32 \<Rightarrow> u8 list list \<Rightarrow> u32" where
  "exec_sz sz argv = (sz + of_nat (arglen argv + 4 * (length argv + 1)) + of_nat PAGE + of_nat PAGE - 1)
     AND NOT (of_nat PAGE - 1)"

text \<open>
  \<open>elf0\<close> is what the variable \<^verbatim>\<open>elf\<close> holds before it is read into.  The result of the first
  \<^verbatim>\<open>readi\<close> is compared with the size of the header as an unsigned number.
\<close>

definition exec :: "(('z) kfile_scheme) dev_read \<Rightarrow> u8 list \<Rightarrow> u8 list \<Rightarrow> u8 list list \<Rightarrow> ('z) kfile_scheme \<Rightarrow>
    (int, ('z) kfile_scheme) res" where
  "exec rd elf0 path argv s = bindr (namei path s) (\<lambda>r s.
     case r of
       None \<Rightarrow> Ok (-1) s
     | Some ip \<Rightarrow> bindr (ilock ip s) (\<lambda>_ s. bindr (readi rd ip 0 52 s) (\<lambda>(r, xs) s.
         let elf = get_elfhdr (xs @ drop (length xs) elf0) in
         if (word_of_int r :: u32) < 52 \<or> e_magic elf \<noteq> ELF_MAGIC then exec_bad ip 0 0 s
         else bindr (exec_sizes rd ip (unat (e_phnum elf)) (e_phoff elf) 0 s) (\<lambda>r s.
           case r of
             None \<Rightarrow> exec_bad ip 0 0 s
           | Some sz \<Rightarrow>
               let sz = exec_sz sz argv in
               bindr (kalloc (sint sz) s) (\<lambda>mem s.
                 if mem = 0 then exec_bad ip 0 sz s
                 else
                   let s = s\<lparr>phys := snd (memset mem 0 (unat sz) (phys s))\<rparr> in
                   bindr (exec_load rd ip mem sz (unat (e_phnum elf)) (e_phoff elf) s) (\<lambda>ok s.
                     if \<not> ok then exec_bad ip mem sz s
                     else bindr (iunlockput ip s) (\<lambda>_ s.
                       let (sp, m) = exec_stack mem (unat sz) argv (phys s) in
                       exec_commit path (e_entry elf) mem sz sp (s\<lparr>phys := m\<rparr>))))))))"

end
