(* ===== verification/Sysfile.thy ===== *)
theory Sysfile
  imports Exec
begin

text \<open>
  The system calls on files and directories, \<^verbatim>\<open>src/sysfile.c\<close>, and the dispatch of
  \<^verbatim>\<open>src/syscall.c\<close>.  The process memory that a call reads or writes is physical memory from
  the start address of the process on.
\<close>

section \<open>File descriptors\<close>

definition argfd :: "nat \<Rightarrow> ('z) ksys_scheme \<Rightarrow> (nat \<times> nat) option" where
  "argfd n s =
     (case argint n s of
        None \<Rightarrow> None
      | Some fd \<Rightarrow>
          if fd < 0 \<or> fd \<ge> int NOFILE then None
          else map_option (\<lambda>f. (nat fd, f)) (ofile (cproc s) ! nat fd))"

definition set_ofile :: "nat \<Rightarrow> nat option \<Rightarrow> ('z) kproc_scheme \<Rightarrow> ('z) kproc_scheme" where
  "set_ofile fd f s = upd_proc (cp s) (\<lambda>p. p\<lparr>ofile := (ofile p)[fd := f]\<rparr>) s"

definition fdalloc :: "nat \<Rightarrow> ('z) kproc_scheme \<Rightarrow> nat option \<times> ('z) kproc_scheme" where
  "fdalloc f s =
     (case first_index (\<lambda>o'. o' = None) (ofile (cproc s)) of
        Some fd \<Rightarrow> (Some fd, set_ofile fd (Some f) s)
      | None \<Rightarrow> (None, s))"

section \<open>Calls on open files\<close>

definition sys_read :: "(('z) ksys_scheme) dev_read \<Rightarrow> ('z) ksys_scheme \<Rightarrow> (int, ('z) ksys_scheme) res" where
  "sys_read rd s =
     (case (argfd 0 s, argint 2 s) of
        (Some (fd, f), Some n) \<Rightarrow>
          (case argptr 1 n s of
             None \<Rightarrow> Ok (-1) s
           | Some p \<Rightarrow> bindr (fileread rd f n s) (\<lambda>(r, xs) s. Ok r (s\<lparr>phys := put p xs (phys s)\<rparr>)))
      | _ \<Rightarrow> Ok (-1) s)"

definition sys_write :: "(('z) ksys_scheme) dev_write \<Rightarrow> ('z) ksys_scheme \<Rightarrow> (int, ('z) ksys_scheme) res" where
  "sys_write wr s =
     (case (argfd 0 s, argint 2 s) of
        (Some (fd, f), Some n) \<Rightarrow>
          (case argptr 1 n s of
             None \<Rightarrow> Ok (-1) s
           | Some p \<Rightarrow> filewrite wr f (phys s) p n s)
      | _ \<Rightarrow> Ok (-1) s)"

definition sys_dup :: "('z) ksys_scheme \<Rightarrow> (int, ('z) ksys_scheme) res" where
  "sys_dup s =
     (case argfd 0 s of
        None \<Rightarrow> Ok (-1) s
      | Some (_, f) \<Rightarrow>
          (case fdalloc f s of
             (None, s) \<Rightarrow> Ok (-1) s
           | (Some fd, s) \<Rightarrow> bindr (filedup f s) (\<lambda>_ s. Ok (int fd) s)))"

definition sys_close :: "('z) ksys_scheme \<Rightarrow> (int, ('z) ksys_scheme) res" where
  "sys_close s =
     (case argfd 0 s of
        None \<Rightarrow> Ok (-1) s
      | Some (fd, f) \<Rightarrow> bindr (fileclose f (set_ofile fd None s)) (\<lambda>_ s. Ok 0 s))"

text \<open>\<^verbatim>\<open>struct statv6\<close> in memory; the bytes between the fields are not written.\<close>

definition put_stat :: "addr \<Rightarrow> stat \<Rightarrow> mem \<Rightarrow> mem" where
  "put_stat a st m =
     (let m = put (a + 4) (put32 0 (st_dev st) [0, 0, 0, 0]) m;
          m = put (a + 8) (put32 0 (st_ino st) [0, 0, 0, 0]) m;
          m = put a (put16 0 (st_type st) [0, 0]) m;
          m = put (a + 12) (put16 0 (st_nlink st) [0, 0]) m
      in put (a + 16) (put32 0 (st_size st) [0, 0, 0, 0]) m)"

definition sys_fstat :: "('z) ksys_scheme \<Rightarrow> (int, ('z) ksys_scheme) res" where
  "sys_fstat s =
     (case (argfd 0 s, argptr 1 20 s) of
        (Some (_, f), Some p) \<Rightarrow>
          bindr (filestat f s) (\<lambda>r s.
            case r of None \<Rightarrow> Ok (-1) s | Some st \<Rightarrow> Ok 0 (s\<lparr>phys := put_stat p st (phys s)\<rparr>))
      | _ \<Rightarrow> Ok (-1) s)"

section \<open>Links\<close>

definition add_nlink :: "u16 \<Rightarrow> nat \<Rightarrow> ('z) kfs_scheme \<Rightarrow> ('z) kfs_scheme" where
  "add_nlink d i s = upd_inode i (\<lambda>ip. ip\<lparr>inlink := inlink ip + d\<rparr>) s"

text \<open>The code of \<^verbatim>\<open>sys_link\<close> behind the label \<^verbatim>\<open>bad\<close>.\<close>

definition link_bad :: "nat \<Rightarrow> ('z) ksys_scheme \<Rightarrow> (int, ('z) ksys_scheme) res" where
  "link_bad ip s = bindr (ilock ip s) (\<lambda>_ s.
     bindr (iupdate ip (add_nlink (-1) ip s)) (\<lambda>_ s.
     bindr (iunlockput ip s) (\<lambda>_ s. Ok (-1) s)))"

definition sys_link :: "('z) ksys_scheme \<Rightarrow> (int, ('z) ksys_scheme) res" where
  "sys_link s =
     (case (argbytes 0 s, argbytes 1 s) of
        (Some old, Some new) \<Rightarrow> bindr (namei old s) (\<lambda>r s.
          case r of
            None \<Rightarrow> Ok (-1) s
          | Some ip \<Rightarrow> bindr (ilock ip s) (\<lambda>_ s.
              if itype (inodes s ! ip) = T_DIR then bindr (iunlockput ip s) (\<lambda>_ s. Ok (-1) s)
              else bindr (iupdate ip (add_nlink 1 ip s)) (\<lambda>_ s.
                bindr (iunlock ip s) (\<lambda>_ s.
                bindr (nameiparent new s) (\<lambda>r s.
                  case r of
                    None \<Rightarrow> link_bad ip s
                  | Some (dp, name) \<Rightarrow> bindr (ilock dp s) (\<lambda>_ s.
                      bindr (if idev (inodes s ! dp) \<noteq> idev (inodes s ! ip) then Ok (-1) s
                             else dirlink dp name (inum (inodes s ! ip)) s) (\<lambda>r s.
                        if r < 0 then bindr (iunlockput dp s) (\<lambda>_ s. link_bad ip s)
                        else bindr (iunlockput dp s) (\<lambda>_ s. bindr (iput ip s) (\<lambda>_ s. Ok 0 s)))))))))
      | _ \<Rightarrow> Ok (-1) s)"

function isdirempty_loop :: "nat \<Rightarrow> nat \<Rightarrow> nat \<Rightarrow> ('z) kfs_scheme \<Rightarrow> (bool, ('z) kfs_scheme) res" where
  "isdirempty_loop dp sz off s =
     (if off < sz then
        bindr (readi_data dp (of_nat off) 16 s) (\<lambda>(r, de) s.
          if r \<noteq> 16 then Panic ''isdirempty: readi''
          else if get16 0 de \<noteq> 0 then Ok False s
          else isdirempty_loop dp sz (off + 16) s)
      else Ok True s)"
  by pat_completeness auto
termination
  by (relation "measure (\<lambda>(dp, sz, off, s). sz - off)") auto

definition isdirempty :: "nat \<Rightarrow> ('z) kfs_scheme \<Rightarrow> (bool, ('z) kfs_scheme) res" where
  "isdirempty dp s = isdirempty_loop dp (unat (isize (inodes s ! dp))) 32 s"

definition unlink_entry :: "nat \<Rightarrow> nat \<Rightarrow> nat \<Rightarrow> ('z) ksys_scheme \<Rightarrow> (int, ('z) ksys_scheme) res" where
  "unlink_entry dp ip off s =
     bindr (writei_data dp (\<lambda>_. 0) 0 (of_nat off) 16 s) (\<lambda>r s.
       if r \<noteq> 16 then Panic ''unlink: writei''
       else bindr (if itype (inodes s ! ip) = T_DIR then iupdate dp (add_nlink (-1) dp s) else Ok () s) (\<lambda>_ s.
         bindr (iunlockput dp s) (\<lambda>_ s.
         bindr (iupdate ip (add_nlink (-1) ip s)) (\<lambda>_ s.
         bindr (iunlockput ip s) (\<lambda>_ s. Ok 0 s)))))"

definition sys_unlink :: "('z) ksys_scheme \<Rightarrow> (int, ('z) ksys_scheme) res" where
  "sys_unlink s =
     (case argbytes 0 s of
        None \<Rightarrow> Ok (-1) s
      | Some path \<Rightarrow> bindr (nameiparent path s) (\<lambda>r s.
          case r of
            None \<Rightarrow> Ok (-1) s
          | Some (dp, name) \<Rightarrow> bindr (ilock dp s) (\<lambda>_ s.
              if namecmp name [46] = 0 \<or> namecmp name [46, 46] = 0
              then bindr (iunlockput dp s) (\<lambda>_ s. Ok (-1) s)
              else bindr (dirlookup dp name s) (\<lambda>r s.
                case r of
                  None \<Rightarrow> bindr (iunlockput dp s) (\<lambda>_ s. Ok (-1) s)
                | Some (ip, off) \<Rightarrow> bindr (ilock ip s) (\<lambda>_ s.
                    if sint (inlink (inodes s ! ip)) < 1 then Panic ''unlink: nlink < 1''
                    else bindr (if itype (inodes s ! ip) = T_DIR then isdirempty ip s else Ok True s) (\<lambda>e s.
                      if \<not> e then bindr (iunlockput ip s) (\<lambda>_ s. bindr (iunlockput dp s) (\<lambda>_ s. Ok (-1) s))
                      else unlink_entry dp ip off s))))))"

section \<open>Creating and opening files\<close>

text \<open>\<^verbatim>\<open>create\<close> from the point on where the name is known to be free.\<close>

definition create_new :: "nat \<Rightarrow> u8 list \<Rightarrow> u16 \<Rightarrow> u16 \<Rightarrow> u16 \<Rightarrow> ('z) kfs_scheme \<Rightarrow> (nat option, ('z) kfs_scheme) res" where
  "create_new dp name ty maj mnr s =
     bindr (ialloc (idev (inodes s ! dp)) ty s) (\<lambda>ip s.
     bindr (ilock ip s) (\<lambda>_ s.
     bindr (iupdate ip (upd_inode ip (\<lambda>x. x\<lparr>imajor := maj, iminor := mnr, inlink := 1\<rparr>) s)) (\<lambda>_ s.
     bindr (if ty = T_DIR then
              bindr (iupdate dp (add_nlink 1 dp s)) (\<lambda>_ s.
              bindr (dirlink ip [46] (inum (inodes s ! ip)) s) (\<lambda>r s.
                if r < 0 then Panic ''create dots''
                else bindr (dirlink ip [46, 46] (inum (inodes s ! dp)) s) (\<lambda>r s.
                  if r < 0 then Panic ''create dots'' else Ok () s)))
            else Ok () s) (\<lambda>_ s.
     bindr (dirlink dp name (inum (inodes s ! ip)) s) (\<lambda>r s.
       if r < 0 then Panic ''create: dirlink''
       else bindr (iunlockput dp s) (\<lambda>_ s. Ok (Some ip) s))))))"

definition create :: "u8 list \<Rightarrow> u16 \<Rightarrow> u16 \<Rightarrow> u16 \<Rightarrow> ('z) kfs_scheme \<Rightarrow> (nat option, ('z) kfs_scheme) res" where
  "create path ty maj mnr s = bindr (nameiparent path s) (\<lambda>r s.
     case r of
       None \<Rightarrow> Ok None s
     | Some (dp, name) \<Rightarrow> bindr (ilock dp s) (\<lambda>_ s. bindr (dirlookup dp name s) (\<lambda>r s.
         case r of
           Some (ip, _) \<Rightarrow> bindr (iunlockput dp s) (\<lambda>_ s. bindr (ilock ip s) (\<lambda>_ s.
             if itype (inodes s ! ip) \<noteq> ty \<or> ty \<noteq> T_FILE
             then bindr (iunlockput ip s) (\<lambda>_ s. Ok None s)
             else Ok (Some ip) s))
         | None \<Rightarrow> create_new dp name ty maj mnr s)))"

definition O_WRONLY :: u32 where "O_WRONLY = 1"
definition O_RDWR :: u32 where "O_RDWR = 2"
definition O_CREATE :: u32 where "O_CREATE = 0x200"

text \<open>The inode to open, locked.\<close>

definition open_inode :: "u8 list \<Rightarrow> u32 \<Rightarrow> ('z) kfs_scheme \<Rightarrow> (nat option, ('z) kfs_scheme) res" where
  "open_inode path omode s =
     (if omode AND O_CREATE \<noteq> 0 then create path T_FILE 0 0 s
      else bindr (namei path s) (\<lambda>r s.
        case r of
          None \<Rightarrow> Ok None s
        | Some ip \<Rightarrow> bindr (ilock ip s) (\<lambda>_ s.
            if itype (inodes s ! ip) = T_DIR \<and> omode \<noteq> 0 then bindr (iunlockput ip s) (\<lambda>_ s. Ok None s)
            else Ok (Some ip) s)))"

definition sys_open :: "('z) ksys_scheme \<Rightarrow> (int, ('z) ksys_scheme) res" where
  "sys_open s =
     (case (argbytes 0 s, argint 1 s) of
        (Some path, Some om) \<Rightarrow>
          let omode = word_of_int om in
          bindr (open_inode path omode s) (\<lambda>r s.
            case r of
              None \<Rightarrow> Ok (-1) s
            | Some ip \<Rightarrow> bindr (filealloc s) (\<lambda>r s.
                case r of
                  None \<Rightarrow> bindr (iunlockput ip s) (\<lambda>_ s. Ok (-1) s)
                | Some f \<Rightarrow>
                    (case fdalloc f s of
                       (None, s) \<Rightarrow> bindr (fileclose f s) (\<lambda>_ s. bindr (iunlockput ip s) (\<lambda>_ s. Ok (-1) s))
                     | (Some fd, s) \<Rightarrow> bindr (iunlock ip s) (\<lambda>_ s.
                         Ok (int fd) (upd_file f (\<lambda>x. x\<lparr>fltype := FD_INODE, fip := ip, foff := 0,
                           readable := (omode AND O_WRONLY = 0),
                           writable := (omode AND O_WRONLY \<noteq> 0 \<or> omode AND O_RDWR \<noteq> 0)\<rparr>) s)))))
      | _ \<Rightarrow> Ok (-1) s)"

definition sys_mknod :: "('z) ksys_scheme \<Rightarrow> (int, ('z) ksys_scheme) res" where
  "sys_mknod s =
     (case (argbytes 0 s, argint 1 s, argint 2 s) of
        (Some path, Some maj, Some mnr) \<Rightarrow>
          bindr (create path T_DEV (word_of_int maj) (word_of_int mnr) s) (\<lambda>r s.
            case r of None \<Rightarrow> Ok (-1) s | Some ip \<Rightarrow> bindr (iunlockput ip s) (\<lambda>_ s. Ok 0 s))
      | _ \<Rightarrow> Ok (-1) s)"

definition sys_mkdir :: "('z) ksys_scheme \<Rightarrow> (int, ('z) ksys_scheme) res" where
  "sys_mkdir s =
     (case argbytes 0 s of
        None \<Rightarrow> Ok (-1) s
      | Some path \<Rightarrow> bindr (create path T_DIR 0 0 s) (\<lambda>r s.
          case r of None \<Rightarrow> Ok (-1) s | Some ip \<Rightarrow> bindr (iunlockput ip s) (\<lambda>_ s. Ok 0 s)))"

definition sys_chdir :: "('z) ksys_scheme \<Rightarrow> (int, ('z) ksys_scheme) res" where
  "sys_chdir s =
     (case argbytes 0 s of
        None \<Rightarrow> Ok (-1) s
      | Some path \<Rightarrow> bindr (namei path s) (\<lambda>r s.
          case r of
            None \<Rightarrow> Ok (-1) s
          | Some ip \<Rightarrow> bindr (ilock ip s) (\<lambda>_ s.
              if itype (inodes s ! ip) \<noteq> T_DIR then bindr (iunlockput ip s) (\<lambda>_ s. Ok (-1) s)
              else bindr (iunlock ip s) (\<lambda>_ s.
                bindr (iput (the (cwd (cproc s))) s) (\<lambda>_ s.
                  Ok 0 (upd_proc (cp s) (\<lambda>p. p\<lparr>cwd := Some ip\<rparr>) s))))))"

section \<open>Exec and pipe\<close>

text \<open>The loop of \<^verbatim>\<open>sys_exec\<close>: at most 20 entries, the last of them null.\<close>

fun fetch_args :: "nat \<Rightarrow> u32 \<Rightarrow> proc \<Rightarrow> mem \<Rightarrow> u8 list list option" where
  "fetch_args 0 a p m = None"
| "fetch_args (Suc n) a p m =
     (case fetchint p a m of
        None \<Rightarrow> None
      | Some u \<Rightarrow>
          if u = 0 then Some []
          else case fetchstr p (word_of_int u) m of
            None \<Rightarrow> None
          | Some (b, len) \<Rightarrow> map_option ((#) (bytes m b len)) (fetch_args n (a + 4) p m))"

definition sys_exec :: "(('z) ksys_scheme) dev_read \<Rightarrow> u8 list \<Rightarrow> ('z) ksys_scheme \<Rightarrow> (int, ('z) ksys_scheme) res" where
  "sys_exec rd elf0 s =
     (case (argbytes 0 s, argint 1 s) of
        (Some path, Some uargv) \<Rightarrow>
          (case fetch_args 20 (word_of_int uargv) (cproc s) (phys s) of
             None \<Rightarrow> Ok (-1) s
           | Some argv \<Rightarrow> exec rd elf0 path argv s)
      | _ \<Rightarrow> Ok (-1) s)"

definition sys_pipe :: "('z) ksys_scheme \<Rightarrow> (int, ('z) ksys_scheme) res" where
  "sys_pipe s =
     (case argptr 0 8 s of
        None \<Rightarrow> Ok (-1) s
      | Some p \<Rightarrow> bindr (pipealloc s) (\<lambda>r s.
          case r of
            None \<Rightarrow> Ok (-1) s
          | Some (rf1, wf1) \<Rightarrow>
              let bad = (\<lambda>s. bindr (fileclose rf1 s) (\<lambda>_ s. bindr (fileclose wf1 s) (\<lambda>_ s. Ok (-1) s))) in
              (case fdalloc rf1 s of
                 (None, s) \<Rightarrow> bad s
               | (Some fd0, s) \<Rightarrow>
                   (case fdalloc wf1 s of
                      (None, s) \<Rightarrow> bad (set_ofile fd0 None s)
                    | (Some fd1, s) \<Rightarrow>
                        Ok 0 (s\<lparr>phys := put_word (p + 4) (of_nat fd1) (put_word p (of_nat fd0) (phys s))\<rparr>)))))"

section \<open>Dispatch\<close>

text \<open>
  The table \<^verbatim>\<open>syscalls\<close>.  \<open>Ok None\<close> is the outcome of \<^verbatim>\<open>exit\<close>: the process has switched to the
  scheduler and does not come back.  The parameters are the address of \<^verbatim>\<open>forkret\<close>, the device
  switch and the initial contents of the local variable \<^verbatim>\<open>elf\<close> of \<^verbatim>\<open>exec\<close>.
\<close>

definition ret :: "(int, 's) res \<Rightarrow> (int option, 's) res" where
  "ret r = map_res Some id r"

definition syscalls :: "u32 \<Rightarrow> (('z) ksys_scheme) dev_read \<Rightarrow> (('z) ksys_scheme) dev_write \<Rightarrow> u8 list \<Rightarrow> int \<Rightarrow>
    (('z) ksys_scheme \<Rightarrow> (int option, ('z) ksys_scheme) res) option" where
  "syscalls fr rd wr elf0 num =
     (if num = 1 then Some (\<lambda>s. ret (sys_fork fr s))
      else if num = 2 then Some (\<lambda>s. bindr (sys_exit s) (\<lambda>_ s. Ok None s))
      else if num = 3 then Some (\<lambda>s. ret (sys_wait s))
      else if num = 4 then Some (\<lambda>s. ret (sys_pipe s))
      else if num = 5 then Some (\<lambda>s. ret (sys_write wr s))
      else if num = 6 then Some (\<lambda>s. ret (sys_read rd s))
      else if num = 7 then Some (\<lambda>s. ret (sys_close s))
      else if num = 8 then Some (\<lambda>s. ret (sys_kill s))
      else if num = 9 then Some (\<lambda>s. ret (sys_exec rd elf0 s))
      else if num = 10 then Some (\<lambda>s. ret (sys_open s))
      else if num = 11 then Some (\<lambda>s. ret (sys_mknod s))
      else if num = 12 then Some (\<lambda>s. ret (sys_unlink s))
      else if num = 13 then Some (\<lambda>s. ret (sys_fstat s))
      else if num = 14 then Some (\<lambda>s. ret (sys_link s))
      else if num = 15 then Some (\<lambda>s. ret (sys_mkdir s))
      else if num = 16 then Some (\<lambda>s. ret (sys_chdir s))
      else if num = 17 then Some (\<lambda>s. ret (sys_dup s))
      else if num = 18 then Some (\<lambda>s. ret (sys_getpid s))
      else if num = 19 then Some (\<lambda>s. ret (sys_sbrk s))
      else if num = 20 then Some (\<lambda>s. ret (sys_sleep s))
      else None)"

definition set_eax :: "u32 \<Rightarrow> ('z) kproc_scheme \<Rightarrow> ('z) kproc_scheme" where
  "set_eax v s = (let t = tf (cproc s) in s\<lparr>tframes := (tframes s)(t := (tframes s t)\<lparr>tf_eax := v\<rparr>)\<rparr>)"

text \<open>\<^verbatim>\<open>syscall\<close>: the result says whether the process goes on.  The message for an unknown
  number goes to the console and is left out.\<close>

definition syscall :: "u32 \<Rightarrow> (('z) ksys_scheme) dev_read \<Rightarrow> (('z) ksys_scheme) dev_write \<Rightarrow> u8 list \<Rightarrow>
    ('z) ksys_scheme \<Rightarrow> (bool, ('z) ksys_scheme) res" where
  "syscall fr rd wr elf0 s =
     (case syscalls fr rd wr elf0 (sint (tf_eax (tframes s (tf (cproc s))))) of
        Some h \<Rightarrow> bindr (h s) (\<lambda>r s.
          case r of Some v \<Rightarrow> Ok True (set_eax (word_of_int v) s) | None \<Rightarrow> Ok False s)
      | None \<Rightarrow> Ok True (set_eax (-1) s))"

end
