(* ===== verification/Fmt.thy ===== *)
theory Fmt
  imports Cstring
begin

text \<open>
  Formatted output: \<^verbatim>\<open>printint\<close> and \<^verbatim>\<open>cprintf\<close> of \<^verbatim>\<open>src/console.c\<close> and \<^verbatim>\<open>printint\<close> and \<^verbatim>\<open>printf\<close> of
  \<^verbatim>\<open>src/printf.c\<close>, as functions to the sequence of characters that they put out.
\<close>

section \<open>Numbers\<close>

text \<open>The loop that fills \<^verbatim>\<open>buf\<close> with digits, least significant first.  The base is 10 or 16.\<close>

function digit_loop :: "nat \<Rightarrow> nat \<Rightarrow> nat list" where
  "digit_loop base x =
     (x mod base) # (if 1 < base \<and> x div base \<noteq> 0 then digit_loop base (x div base) else [])"
  by pat_completeness auto
termination
proof (relation "measure snd")
  fix base x :: nat
  assume "1 < base \<and> x div base \<noteq> 0"
  moreover have "0 < x" using calculation by (cases x) auto
  ultimately show "((base, x div base), (base, x)) \<in> measure snd"
    by (simp add: div_less_dividend)
qed simp

declare digit_loop.simps [simp del]

text \<open>The digit strings of the kernel and of the user library.\<close>

definition digit_lower :: "nat \<Rightarrow> u8" where
  "digit_lower d = (if d < 10 then of_nat (48 + d) else of_nat (87 + d))"

definition digit_upper :: "nat \<Rightarrow> u8" where
  "digit_upper d = (if d < 10 then of_nat (48 + d) else of_nat (55 + d))"

definition print_num :: "(nat \<Rightarrow> u8) \<Rightarrow> u32 \<Rightarrow> nat \<Rightarrow> bool \<Rightarrow> u8 list" where
  "print_num digit xx base sg =
     (let neg = sg \<and> sint xx < 0; x = (if neg then 0 - xx else xx);
          buf = map digit (digit_loop base (unat x))
      in rev (if neg then buf @ [45] else buf))"

definition printint :: "u32 \<Rightarrow> nat \<Rightarrow> bool \<Rightarrow> u8 list" where
  "printint = print_num digit_lower"

definition printf_printint :: "u32 \<Rightarrow> nat \<Rightarrow> bool \<Rightarrow> u8 list" where
  "printf_printint = print_num digit_upper"

section \<open>Formats\<close>

text \<open>
  An argument is a word or a string; a null string pointer is \<open>None\<close>.  The result is
  \<open>None\<close> when the arguments do not fit the format, where C leaves the behaviour open.
  The second argument is the variable \<^verbatim>\<open>state\<close>: whether a percent sign has just been read.
\<close>

datatype carg = ANum u32 | AStr "u8 list option"

definition str_arg :: "u8 list option \<Rightarrow> u8 list" where
  "str_arg s = (case s of Some xs \<Rightarrow> xs | None \<Rightarrow> [40, 110, 117, 108, 108, 41])"

fun cformat :: "u8 list \<Rightarrow> bool \<Rightarrow> carg list \<Rightarrow> u8 list option" where
  "cformat [] pc args = Some []"
| "cformat (c # fmt) False args =
     (if c = 37 then cformat fmt True args else map_option ((#) c) (cformat fmt False args))"
| "cformat (c # fmt) True args =
     (if c = 100 then
        (case args of ANum v # args \<Rightarrow> map_option ((@) (printint v 10 True)) (cformat fmt False args) | _ \<Rightarrow> None)
      else if c = 120 \<or> c = 112 then
        (case args of ANum v # args \<Rightarrow> map_option ((@) (printint v 16 False)) (cformat fmt False args) | _ \<Rightarrow> None)
      else if c = 115 then
        (case args of AStr s # args \<Rightarrow> map_option ((@) (str_arg s)) (cformat fmt False args) | _ \<Rightarrow> None)
      else if c = 37 then map_option ((#) 37) (cformat fmt False args)
      else map_option (\<lambda>out. 37 # c # out) (cformat fmt False args))"

fun printf_format :: "u8 list \<Rightarrow> bool \<Rightarrow> carg list \<Rightarrow> u8 list option" where
  "printf_format [] pc args = Some []"
| "printf_format (c # fmt) False args =
     (if c = 37 then printf_format fmt True args else map_option ((#) c) (printf_format fmt False args))"
| "printf_format (c # fmt) True args =
     (if c = 100 then
        (case args of ANum v # args \<Rightarrow> map_option ((@) (printf_printint v 10 True)) (printf_format fmt False args) | _ \<Rightarrow> None)
      else if c = 120 \<or> c = 112 then
        (case args of ANum v # args \<Rightarrow> map_option ((@) (printf_printint v 16 False)) (printf_format fmt False args) | _ \<Rightarrow> None)
      else if c = 115 then
        (case args of AStr s # args \<Rightarrow> map_option ((@) (str_arg s)) (printf_format fmt False args) | _ \<Rightarrow> None)
      else if c = 99 then
        (case args of ANum v # args \<Rightarrow> map_option ((#) (ucast v)) (printf_format fmt False args) | _ \<Rightarrow> None)
      else if c = 37 then map_option ((#) 37) (printf_format fmt False args)
      else map_option (\<lambda>out. 37 # c # out) (printf_format fmt False args))"

definition printf :: "u8 list \<Rightarrow> carg list \<Rightarrow> u8 list option" where
  "printf fmt args = printf_format fmt False args"

text \<open>String literals as bytes.\<close>

definition bstr :: "string \<Rightarrow> u8 list" where
  "bstr xs = map (\<lambda>c. of_nat (of_char c)) xs"

section \<open>Digits\<close>

lemma digit_loop_value: "1 < base \<Longrightarrow> foldr (\<lambda>d v. d + base * v) (digit_loop base x) 0 = x"
proof (induction base x rule: digit_loop.induct)
  case (1 base x)
  show ?case
  proof (cases "x div base = 0")
    case True
    then show ?thesis using 1(2) by (simp add: digit_loop.simps [of base x] div_eq_0_iff)
  next
    case False
    then show ?thesis using 1 by (simp add: digit_loop.simps [of base x])
  qed
qed

lemma digit_loop_range: "1 < base \<Longrightarrow> d \<in> set (digit_loop base x) \<Longrightarrow> d < base"
proof (induction base x rule: digit_loop.induct)
  case (1 base x)
  from 1(3) have "d = x mod base \<or> (x div base \<noteq> 0 \<and> d \<in> set (digit_loop base (x div base)))"
    by (subst (asm) digit_loop.simps) (auto split: if_splits)
  with 1(1,2) show ?case by (metis mod_less_divisor order_less_trans zero_less_one)
qed

lemma digit_loop_length: "1 < base \<Longrightarrow> x < base ^ Suc k \<Longrightarrow> length (digit_loop base x) \<le> Suc k"
proof (induction k arbitrary: x)
  case 0
  then show ?case by (simp add: digit_loop.simps [of base x])
next
  case (Suc k)
  have "x div base < base ^ Suc k" using Suc(3) by (simp add: less_mult_imp_div_less mult.commute)
  with Suc(1) [of "x div base"] Suc(2) have "length (digit_loop base (x div base)) \<le> Suc k" by simp
  then show ?case by (simp add: digit_loop.simps [of base x])
qed

text \<open>The printed number fits the buffer of 16 characters, sign included.\<close>

lemma print_num_length:
  assumes "base = 10 \<or> base = 16"
  shows "length (print_num digit xx base sg) \<le> 11"
proof -
  have "length (digit_loop base (unat x)) \<le> 10" for x :: u32
  proof -
    have "unat x < 2 ^ LENGTH(32)" by (rule unsigned_less)
    then have "unat x < base ^ Suc 9" using assms by (elim disjE) simp_all
    then show ?thesis using digit_loop_length [of base "unat x" 9] assms by auto
  qed
  then show ?thesis by (simp add: print_num_def Let_def le_trans [of _ 10 11])
qed

lemma atoi_digits:
  assumes "list_all (\<lambda>d. d < 10) ds" and "cstr m s (map digit_upper ds)"
  shows "atoi_loop m s n = Some (foldl (\<lambda>n d. n * 10 + int d) n ds)"
  using assms
proof (induction ds arbitrary: s n)
  case Nil
  then show ?case by (subst atoi_loop.simps) simp
next
  case (Cons d ds)
  have d: "d < 10" and m: "m s = of_nat (48 + d)" and c: "cstr m (s + 1) (map digit_upper ds)"
    using Cons(2,3) by (auto simp: digit_upper_def [of d])
  have u: "unat (m s) = 48 + d" using d m by (simp add: unat_of_nat unsigned_of_nat take_bit_eq_mod del: of_nat_add)
  then have r: "48 \<le> m s \<and> m s \<le> 57" using d by (simp add: word_le_nat_alt)
  have "uint (m s) = 48 + int d" using u by (metis int_plus of_nat_numeral uint_nat)
  with r Cons(1) [OF _ c, of "n * 10 + int d"] Cons(2) show ?case by (subst atoi_loop.simps) simp
qed

lemma sint_nonneg: "0 \<le> sint x \<Longrightarrow> sint x = uint x" for x :: u32
proof -
  assume a: "0 \<le> sint x"
  have "uint x < 2 ^ LENGTH(32)" by (rule unsigned_less)
  then have "take_bit 32 (uint x) = uint x" by (simp add: take_bit_int_eq_self)
  moreover have "\<not> bit (uint x) 31" using a by (simp add: sint_uint)
  ultimately show ?thesis by (simp add: sint_uint signed_take_bit_eq_take_bit_minus)
qed

lemma foldl_rev_digits: "foldl (\<lambda>n d. n * 10 + int d) 0 (rev ds) = int (foldr (\<lambda>d v. d + 10 * v) ds 0)"
  by (induction ds) (auto simp: foldl_conv_foldr)

lemma sint_neg: "sint x < 0 \<Longrightarrow> int (unat (- x)) = - sint x" for x :: u32
proof -
  assume "sint x < 0"
  moreover have "- (2 ^ 31) \<le> sint x" using sint_greater_eq [of x] by simp
  moreover have "- x = word_of_int (- sint x)" by simp
  then have "uint (- x) = take_bit 32 (- sint x)" by (simp only: unsigned_of_int) simp
  ultimately show ?thesis by (simp add: take_bit_int_eq_self)
qed

lemma atoi_printed:
  assumes "cstr m a (map digit_upper (rev (digit_loop 10 (unat x))))"
  shows "atoi m a = Some (int (unat x))"
proof -
  have "list_all (\<lambda>d. d < 10) (rev (digit_loop 10 (unat x)))"
    using digit_loop_range [of 10] by (auto simp: list_all_iff)
  then have "atoi m a = Some (foldl (\<lambda>n d. n * 10 + int d) 0 (rev (digit_loop 10 (unat x))))"
    unfolding atoi_def using assms by (rule atoi_digits)
  then show ?thesis by (simp only: foldl_rev_digits) (simp add: digit_loop_value)
qed



end
