(* ===== verification/Kbd.thy ===== *)
theory Kbd
  imports Prelude
begin

text \<open>
  The keyboard, \<^verbatim>\<open>src/kbd.c\<close> with the tables of \<^verbatim>\<open>src/kbd.h\<close>: from scan codes to characters.
\<close>

section \<open>Tables\<close>

text \<open>An initialised array of 256 bytes: the entries from index 0 on, and entries with an
  explicit index; all others are 0.\<close>

definition table :: "nat list \<Rightarrow> (nat \<times> nat) list \<Rightarrow> nat \<Rightarrow> u8" where
  "table xs ps i = (if i < length xs then of_nat (xs ! i)
     else case map_of ps i of None \<Rightarrow> 0 | Some v \<Rightarrow> of_nat v)"

definition shiftcode :: "nat \<Rightarrow> u8" where
  "shiftcode = table
    []
    [(0x1D, 2), (0x2A, 1), (0x36, 1), (0x38, 4), (0x9D, 2), (0xB8, 4)]"

definition togglecode :: "nat \<Rightarrow> u8" where
  "togglecode = table
    []
    [(0x3A, 8), (0x45, 16), (0x46, 32)]"

definition normalmap :: "nat \<Rightarrow> u8" where
  "normalmap = table
    [0, 27, 49, 50, 51, 52, 53, 54, 55, 56, 57, 48, 45, 61, 8, 9, 113, 119, 101, 114,
     116, 121, 117, 105, 111, 112, 91, 93, 10, 0, 97, 115, 100, 102, 103, 104, 106, 107, 108, 59,
     39, 96, 0, 92, 122, 120, 99, 118, 98, 110, 109, 44, 46, 47, 0, 42, 0, 32, 0, 0,
     0, 0, 0, 0, 0, 0, 0, 0, 0, 0, 0, 55, 56, 57, 45, 52, 53, 54, 43, 49,
     50, 51, 48, 46, 0, 0, 0, 0]
    [(0x97, 224), (0x9C, 10), (0xB5, 47), (0xC8, 226), (0xC9, 230), (0xCB, 228),
     (0xCD, 229), (0xCF, 225), (0xD0, 227), (0xD1, 231), (0xD2, 232), (0xD3, 233)]"

definition shiftmap :: "nat \<Rightarrow> u8" where
  "shiftmap = table
    [0, 27, 33, 64, 35, 36, 37, 94, 38, 42, 40, 41, 95, 43, 8, 9, 81, 87, 69, 82,
     84, 89, 85, 73, 79, 80, 123, 125, 10, 0, 65, 83, 68, 70, 71, 72, 74, 75, 76, 58,
     34, 126, 0, 124, 90, 88, 67, 86, 66, 78, 77, 60, 62, 63, 0, 42, 0, 32, 0, 0,
     0, 0, 0, 0, 0, 0, 0, 0, 0, 0, 0, 55, 56, 57, 45, 52, 53, 54, 43, 49,
     50, 51, 48, 46, 0, 0, 0, 0]
    [(0x97, 224), (0x9C, 10), (0xB5, 47), (0xC8, 226), (0xC9, 230), (0xCB, 228),
     (0xCD, 229), (0xCF, 225), (0xD0, 227), (0xD1, 231), (0xD2, 232), (0xD3, 233)]"

definition ctlmap :: "nat \<Rightarrow> u8" where
  "ctlmap = table
    [0, 0, 0, 0, 0, 0, 0, 0, 0, 0, 0, 0, 0, 0, 0, 0, 17, 23, 5, 18,
     20, 25, 21, 9, 15, 16, 0, 0, 13, 0, 1, 19, 4, 6, 7, 8, 10, 11, 12, 0,
     0, 0, 0, 28, 26, 24, 3, 22, 2, 14, 13, 0, 0, 239, 0, 0]
    [(0x97, 224), (0x9C, 13), (0xB5, 239), (0xC8, 226), (0xC9, 230), (0xCB, 228),
     (0xCD, 229), (0xCF, 225), (0xD0, 227), (0xD1, 231), (0xD2, 232), (0xD3, 233)]"

definition SHIFT :: u32 where "SHIFT = 1"
definition CTL :: u32 where "CTL = 2"
definition CAPSLOCK :: u32 where "CAPSLOCK = 8"
definition E0ESC :: u32 where "E0ESC = 64"

section \<open>Scan codes\<close>

text \<open>
  \<^verbatim>\<open>kbdgetc\<close>: the argument is the byte in the buffer of the keyboard controller, if any, and
  the static variable \<^verbatim>\<open>shift\<close>; the result is the character and the new value of \<^verbatim>\<open>shift\<close>.
\<close>

definition charcode :: "u32 \<Rightarrow> nat \<Rightarrow> u8" where
  "charcode k = (if k = 0 then normalmap else if k = 1 then shiftmap else ctlmap)"

definition key_release :: "u8 \<Rightarrow> u32 \<Rightarrow> u32" where
  "key_release d shift =
     (let d = (if shift AND E0ESC \<noteq> 0 then d else d AND 0x7F)
      in shift AND NOT (ucast (shiftcode (unat d)) OR E0ESC))"

definition key_press :: "u8 \<Rightarrow> u32 \<Rightarrow> u8 \<times> u32" where
  "key_press d shift =
     (let (d, shift) = (if shift AND E0ESC \<noteq> 0 then (d OR 0x80, shift AND NOT E0ESC) else (d, shift));
          shift = shift OR ucast (shiftcode (unat d));
          shift = shift XOR ucast (togglecode (unat d));
          c = charcode (shift AND (CTL OR SHIFT)) (unat d);
          c = (if shift AND CAPSLOCK \<noteq> 0 then
                 (if 97 \<le> c \<and> c \<le> 122 then c - 32 else if 65 \<le> c \<and> c \<le> 90 then c + 32 else c)
               else c)
      in (c, shift))"

definition kbdgetc :: "u8 option \<Rightarrow> u32 \<Rightarrow> int \<times> u32" where
  "kbdgetc data shift =
     (case data of
        None \<Rightarrow> (-1, shift)
      | Some d \<Rightarrow>
          if d = 0xE0 then (0, shift OR E0ESC)
          else if d AND 0x80 \<noteq> 0 then (0, key_release d shift)
          else let (c, shift) = key_press d shift in (uint c, shift))"

text \<open>The characters that a sequence of scan codes gives.\<close>

fun kbd_run :: "u8 list \<Rightarrow> u32 \<Rightarrow> int list \<times> u32" where
  "kbd_run [] shift = ([], shift)"
| "kbd_run (d # ds) shift =
     (let (c, shift) = kbdgetc (Some d) shift; (cs, shift) = kbd_run ds shift in (c # cs, shift))"

end
