(* ===== verification/Console.thy ===== *)
theory Console
  imports Sysfile Fmt Kbd
begin

text \<open>
  The console, \<^verbatim>\<open>src/console.c\<close>, with the serial line of \<^verbatim>\<open>src/uart.c\<close>, the interrupt entry of
  \<^verbatim>\<open>src/kbd.c\<close> and \<^verbatim>\<open>procdump\<close> of \<^verbatim>\<open>src/proc.c\<close>.  The screen is the array of cells \<^verbatim>\<open>crt\<close> with the cursor
  position in the registers of the display controller; the serial line keeps the
  bytes sent.  Waiting for the transmitter is timing and is left out.
\<close>

section \<open>State\<close>

record kcons = ksys +
  cons_locking :: bool
  panicked :: bool
  crt :: "nat \<Rightarrow> u16"
  crtpos :: u16
  uart :: bool
  serial :: "u8 list"
  ibuf :: "u8 list"
  ir :: u32
  iw :: u32
  ie :: u32
  kbdshift :: u32

abbreviation (input) INPUT_BUF :: nat where "INPUT_BUF \<equiv> 128"
abbreviation (input) BACKSPACE :: int where "BACKSPACE \<equiv> 0x100"

section \<open>Output\<close>

definition uartputc :: "int \<Rightarrow> ('z) kcons_scheme \<Rightarrow> ('z) kcons_scheme" where
  "uartputc c s = (if uart s then s\<lparr>serial := serial s @ [word_of_int c]\<rparr> else s)"

text \<open>The scrolling step: the number of bytes cleared is computed in 32-bit unsigned arithmetic.\<close>

definition cga_scroll :: "nat \<Rightarrow> (nat \<Rightarrow> u16) \<Rightarrow> nat \<times> (nat \<Rightarrow> u16)" where
  "cga_scroll pos m =
     (if pos div 80 \<ge> 24 then
        let m = (\<lambda>i. if i < 23 * 80 then m (i + 80) else m i); pos = pos - 80;
            k = nat ((2 * (24 * 80 - int pos)) mod 2 ^ 32) div 2
        in (pos, \<lambda>i. if pos \<le> i \<and> i < pos + k then 0 else m i)
      else (pos, m))"

definition cga_place :: "int \<Rightarrow> nat \<Rightarrow> (nat \<Rightarrow> u16) \<Rightarrow> nat \<times> (nat \<Rightarrow> u16)" where
  "cga_place c pos m =
     (if c = 10 then (pos + (80 - pos mod 80), m)
      else if c = BACKSPACE then (if pos > 0 then (pos - 1, m(pos - 1 := 0x0720)) else (pos, m))
      else (pos + 1, m(pos := (word_of_int c AND 0xff) OR 0x0700)))"

definition cgaputc :: "int \<Rightarrow> ('z) kcons_scheme \<Rightarrow> ('z) kcons_scheme" where
  "cgaputc c s =
     (let (pos, m) = cga_place c (unat (crtpos s)) (crt s); (pos, m) = cga_scroll pos m
      in s\<lparr>crtpos := of_nat pos, crt := m(pos := 0x0720)\<rparr>)"

definition consputc :: "int \<Rightarrow> ('z) kcons_scheme \<Rightarrow> (unit, ('z) kcons_scheme) res" where
  "consputc c s = (if panicked s then Hang else Ok () (cgaputc c (uartputc c s)))"

fun consputs :: "int list \<Rightarrow> ('z) kcons_scheme \<Rightarrow> (unit, ('z) kcons_scheme) res" where
  "consputs [] s = Ok () s"
| "consputs (c # cs) s = bindr (consputc c s) (\<lambda>_ s. consputs cs s)"

definition cprintf :: "u8 list \<Rightarrow> carg list \<Rightarrow> ('z) kcons_scheme \<Rightarrow> (unit, ('z) kcons_scheme) res" where
  "cprintf fmt args s =
     (let locking = cons_locking s in
      bindr (if locking then acquire ConsLock s else Ok () s) (\<lambda>_ s.
      bindr (case cformat fmt False args of
               Some cs \<Rightarrow> consputs (map uint cs) s
             | None \<Rightarrow> Hang) (\<lambda>_ s.
        if locking then release ConsLock s else Ok () s)))"

text \<open>\<^verbatim>\<open>panic\<close> up to its final loop: the message is used as a format.\<close>

definition panic :: "u8 list \<Rightarrow> ('z) kcons_scheme \<Rightarrow> (unit, ('z) kcons_scheme) res" where
  "panic m s =
     (let s = (cli s)\<lparr>cons_locking := False\<rparr> in
      bindr (cprintf (bstr ''cpu%d: panic: '') [ANum (cpu_id s)] s) (\<lambda>_ s.
      bindr (cprintf m [] s) (\<lambda>_ s.
      bindr (cprintf [10] [] s) (\<lambda>_ s.
      bindr (foldl (\<lambda>r pc. bindr r (\<lambda>_ s. cprintf (bstr '' %p'') [ANum pc] s)) (Ok () s)
               (getcallerpcs (stack s) (frame s))) (\<lambda>_ s.
        Ok () (s\<lparr>panicked := True\<rparr>))))))"

definition consolewrite :: "nat \<Rightarrow> mem \<Rightarrow> addr \<Rightarrow> u32 \<Rightarrow> ('z) kcons_scheme \<Rightarrow> (int, ('z) kcons_scheme) res" where
  "consolewrite ip m a n s = bindr (iunlock ip s) (\<lambda>_ s.
     bindr (acquire ConsLock s) (\<lambda>_ s.
     bindr (consputs (map uint (bytes m a (nat (sint n)))) s) (\<lambda>_ s.
     bindr (release ConsLock s) (\<lambda>_ s.
     bindr (ilock ip s) (\<lambda>_ s. Ok (sint n) s)))))"

section \<open>The process listing\<close>

definition state_name :: "procstate \<Rightarrow> string" where
  "state_name st = (case st of UNUSED \<Rightarrow> ''unused'' | EMBRYO \<Rightarrow> ''embryo'' | SLEEPING \<Rightarrow> ''sleep ''
     | RUNNABLE \<Rightarrow> ''runble'' | RUNNING \<Rightarrow> ''run   '' | ZOMBIE \<Rightarrow> ''zombie'')"

fun procdump_pcs :: "u32 list \<Rightarrow> ('z) kcons_scheme \<Rightarrow> (unit, ('z) kcons_scheme) res" where
  "procdump_pcs [] s = Ok () s"
| "procdump_pcs (pc # rest) s =
     (if pc = 0 then Ok () s
      else bindr (cprintf (bstr '' %p'') [ANum pc] s) (\<lambda>_ s. procdump_pcs rest s))"

fun procdump_loop :: "nat list \<Rightarrow> ('z) kcons_scheme \<Rightarrow> (unit, ('z) kcons_scheme) res" where
  "procdump_loop [] s = Ok () s"
| "procdump_loop (i # is) s =
     (let p = procs s ! i in
      if pstate p = UNUSED then procdump_loop is s
      else
        bindr (cprintf (bstr ''%d %s %s'') [ANum (word_of_int (pid p)), AStr (Some (bstr (state_name (pstate p)))),
          AStr (Some (pname p))] s) (\<lambda>_ s.
        bindr (if pstate p = SLEEPING
               then procdump_pcs (getcallerpcs (stack s) (cebp (ctxs s (pcontext p)) + 8)) s
               else Ok () s) (\<lambda>_ s.
        bindr (cprintf [10] [] s) (\<lambda>_ s. procdump_loop is s))))"

definition procdump :: "('z) kcons_scheme \<Rightarrow> (unit, ('z) kcons_scheme) res" where
  "procdump s = procdump_loop [0..<length (procs s)] s"

section \<open>Input\<close>

text \<open>Erasing the line that is being typed, for Control-U.\<close>

function kill_line :: "('z) kcons_scheme \<Rightarrow> (unit, ('z) kcons_scheme) res" where
  "kill_line s =
     (if ie s \<noteq> iw s \<and> ibuf s ! (unat (ie s - 1) mod INPUT_BUF) \<noteq> 10 then
        (if panicked s then Hang else kill_line (cgaputc BACKSPACE (uartputc BACKSPACE (s\<lparr>ie := ie s - 1\<rparr>))))
      else Ok () s)"
  by pat_completeness auto
termination
proof (relation "measure (\<lambda>s. unat (ie s - iw s))")
  fix s :: "('z) kcons_scheme"
  assume a: "ie s \<noteq> iw s \<and> ibuf s ! (unat (ie s - 1) mod INPUT_BUF) \<noteq> 10"
  have eq: "ie (cgaputc BACKSPACE (uartputc BACKSPACE (s\<lparr>ie := ie s - 1\<rparr>))) = ie s - 1"
    "iw (cgaputc BACKSPACE (uartputc BACKSPACE (s\<lparr>ie := ie s - 1\<rparr>))) = iw s"
    by (simp_all add: cgaputc_def uartputc_def case_prod_beta Let_def)
  have "unat (ie s - iw s - 1) < unat (ie s - iw s)"
    using a unat_minus_one [of "ie s - iw s"] by (simp add: unat_gt_0)
  then show "(cgaputc BACKSPACE (uartputc BACKSPACE (s\<lparr>ie := ie s - 1\<rparr>)), s) \<in> measure (\<lambda>s. unat (ie s - iw s))"
    by (simp add: eq diff_right_commute)
qed simp

text \<open>One character from the keyboard or the serial line.\<close>

definition consolechar :: "int \<Rightarrow> ('z) kcons_scheme \<Rightarrow> (unit, ('z) kcons_scheme) res" where
  "consolechar c s =
     (if c = 16 then procdump s
      else if c = 21 then kill_line s
      else if c = 8 then
        (if ie s \<noteq> iw s then consputc BACKSPACE (s\<lparr>ie := ie s - 1\<rparr>) else Ok () s)
      else if c \<noteq> 0 \<and> ie s - ir s < of_nat INPUT_BUF then
        bindr (consputc c (s\<lparr>ibuf := (ibuf s)[unat (ie s) mod INPUT_BUF := word_of_int c], ie := ie s + 1\<rparr>)) (\<lambda>_ s.
          if c = 10 \<or> c = 4 \<or> ie s = ir s + of_nat INPUT_BUF
          then wakeup ChInput (s\<lparr>iw := ie s\<rparr>) else Ok () s)
      else Ok () s)"

text \<open>\<^verbatim>\<open>consoleintr\<close>; the list is what the calls of \<^verbatim>\<open>getc\<close> return before one is negative.\<close>

fun consolechars :: "int list \<Rightarrow> ('z) kcons_scheme \<Rightarrow> (unit, ('z) kcons_scheme) res" where
  "consolechars [] s = Ok () s"
| "consolechars (c # cs) s = bindr (consolechar c s) (\<lambda>_ s. consolechars cs s)"

definition consoleintr :: "int list \<Rightarrow> ('z) kcons_scheme \<Rightarrow> (unit, ('z) kcons_scheme) res" where
  "consoleintr cs s = bindr (acquire InputLock s) (\<lambda>_ s.
     bindr (consolechars cs s) (\<lambda>_ s. release InputLock s))"

text \<open>The interrupt handlers, with the bytes that the device delivers.\<close>

definition uartintr :: "u8 list \<Rightarrow> ('z) kcons_scheme \<Rightarrow> (unit, ('z) kcons_scheme) res" where
  "uartintr ds s = consoleintr (if uart s then map uint ds else []) s"

definition kbdintr :: "u8 list \<Rightarrow> ('z) kcons_scheme \<Rightarrow> (unit, ('z) kcons_scheme) res" where
  "kbdintr ds s = (let (cs, sh) = kbd_run ds (kbdshift s) in consoleintr cs (s\<lparr>kbdshift := sh\<rparr>))"

text \<open>
  \<^verbatim>\<open>consoleread\<close>: \<open>n\<close> bytes are still wanted, \<open>acc\<close> are the bytes stored so far.  The
  result pairs the return value with the bytes stored.
\<close>

definition consoleread_end :: "nat \<Rightarrow> int \<Rightarrow> u8 list \<Rightarrow> ('z) kcons_scheme \<Rightarrow> (int \<times> u8 list, ('z) kcons_scheme) res" where
  "consoleread_end ip r acc s = bindr (release InputLock s) (\<lambda>_ s. bindr (ilock ip s) (\<lambda>_ s. Ok (r, acc) s))"

fun consoleread_loop :: "nat \<Rightarrow> nat \<Rightarrow> u8 list \<Rightarrow> ('z) kcons_scheme \<Rightarrow> (int \<times> u8 list, ('z) kcons_scheme) res" where
  "consoleread_loop ip 0 acc s = consoleread_end ip (int (length acc)) acc s"
| "consoleread_loop ip (Suc n) acc s =
     (if ir s = iw s then
        (if killed (cproc s) \<noteq> 0 then consoleread_end ip (-1) acc s
         else bindr (sleep_out ChInput InputLock s) (\<lambda>_ s. Sleep ChInput (length acc) s))
      else
        let c = ibuf s ! (unat (ir s) mod INPUT_BUF); s = s\<lparr>ir := ir s + 1\<rparr> in
        if c = 4 then
          consoleread_end ip (int (length acc)) acc (if acc \<noteq> [] then s\<lparr>ir := ir s - 1\<rparr> else s)
        else if c = 10 then consoleread_end ip (int (length acc) + 1) (acc @ [c]) s
        else consoleread_loop ip n (acc @ [c]) s)"

definition consoleread :: "nat \<Rightarrow> u32 \<Rightarrow> ('z) kcons_scheme \<Rightarrow> (int \<times> u8 list, ('z) kcons_scheme) res" where
  "consoleread ip n s = bindr (iunlock ip s) (\<lambda>_ s.
     bindr (acquire InputLock s) (\<lambda>_ s. consoleread_loop ip (nat (sint n)) [] s))"

definition consoleread_resume :: "nat \<Rightarrow> u32 \<Rightarrow> u8 list \<Rightarrow> ('z) kcons_scheme \<Rightarrow> (int \<times> u8 list, ('z) kcons_scheme) res" where
  "consoleread_resume ip n acc s = bindr (sleep_in InputLock s) (\<lambda>_ s.
     consoleread_loop ip (nat (sint n) - length acc) acc s)"

text \<open>\<^verbatim>\<open>consoleinit\<close> and the entries it makes in the device switch.  The interrupt controllers
  are outside this theory.\<close>

definition consoleinit :: "('z) kcons_scheme \<Rightarrow> ('z) kcons_scheme" where
  "consoleinit s = (initlock InputLock ''input'' (initlock ConsLock ''console'' s))\<lparr>cons_locking := True\<rparr>"

definition cons_read :: "(('z) kcons_scheme) dev_read" where
  "cons_read mj = (if mj = 1 then Some consoleread else None)"

definition cons_write :: "(('z) kcons_scheme) dev_write" where
  "cons_write mj = (if mj = 1 then Some consolewrite else None)"

end
