(* ===== verification/Trap.thy ===== *)
theory Trap
  imports Console
begin

text \<open>
  Traps and interrupts, \<^verbatim>\<open>src/trap.c\<close>: the interrupt descriptor table and the function \<^verbatim>\<open>trap\<close>
  that all of them enter.  Acknowledging the interrupt at the local APIC is left out.
\<close>

section \<open>The descriptor table\<close>

abbreviation (input) T_SYSCALL :: nat where "T_SYSCALL \<equiv> 64"
abbreviation (input) T_IRQ0 :: nat where "T_IRQ0 \<equiv> 32"

text \<open>\<open>vectors\<close> are the addresses of the entry points; the table has 256 gates.\<close>

definition tvinit :: "(nat \<Rightarrow> u32) \<Rightarrow> ('z) ksys_scheme \<Rightarrow> gatedesc list \<times> ('z) ksys_scheme" where
  "tvinit vectors s =
     ((map (\<lambda>i. SETGATE False (of_nat (SEG_KCODE * 8)) (vectors i) 0) [0..<256])
        [T_SYSCALL := SETGATE True (of_nat (SEG_KCODE * 8)) (vectors T_SYSCALL) DPL_USER],
      initlock TicksLock ''time'' s)"

section \<open>The trap handler\<close>

text \<open>The part that depends on the trap number, for all but system calls.  \<open>kb\<close> and \<open>ub\<close> are
  the bytes that the keyboard and the serial line have ready.\<close>

definition timer_tick :: "('z) kcons_scheme \<Rightarrow> (unit, ('z) kcons_scheme) res" where
  "timer_tick s =
     (if cpu_id s = 0 then
        bindr (acquire TicksLock s) (\<lambda>_ s.
        bindr (wakeup ChTicks (s\<lparr>ticks := ticks s + 1\<rparr>)) (\<lambda>_ s. release TicksLock s))
      else Ok () s)"

definition trap_dispatch :: "u8 list \<Rightarrow> u8 list \<Rightarrow> trapframe \<Rightarrow> ('z) kcons_scheme \<Rightarrow> (unit, ('z) kcons_scheme) res" where
  "trap_dispatch kb ub f s =
     (let n = unat (tf_trapno f) in
      if n = T_IRQ0 + 0 then timer_tick s
      else if n = T_IRQ0 + 14 then ideintr s
      else if n = T_IRQ0 + 1 then kbdintr kb s
      else if n = T_IRQ0 + 4 then uartintr ub s
      else if n = T_IRQ0 + 7 \<or> n = T_IRQ0 + 31 then
        cprintf (bstr ''cpu%d: spurious interrupt at %x:%x'' @ [10])
          [ANum (cpu_id s), ANum (ucast (tf_cs f)), ANum (tf_eip f)] s
      else if cur s = None \<or> tf_cs f AND 3 = 0 then
        bindr (cprintf (bstr ''unexpected trap %d from cpu %d eip %x'' @ [10])
          [ANum (tf_trapno f), ANum (cpu_id s), ANum (tf_eip f)] s) (\<lambda>_ s. Panic ''trap'')
      else
        bindr (cprintf (bstr ''pid %d %s: trap %d err %d on cpu %d eip %x -- kill proc'' @ [10])
          [ANum (word_of_int (pid (cproc s))), AStr (Some (pname (cproc s))), ANum (tf_trapno f),
           ANum (tf_err f), ANum (cpu_id s), ANum (tf_eip f)] s) (\<lambda>_ s.
          Ok () (upd_proc (cp s) (\<lambda>p. p\<lparr>killed := 1\<rparr>) s)))"

text \<open>How a trap ends: with the return to the interrupted code, or in the scheduler, after
  \<^verbatim>\<open>exit\<close> for good and after \<^verbatim>\<open>yield\<close> until the process is picked again.\<close>

datatype tresult = TReturn | TExit | TYield

definition trap_exit :: "('z) kcons_scheme \<Rightarrow> (tresult, ('z) kcons_scheme) res" where
  "trap_exit s = bindr (exit_out s) (\<lambda>_ s. Ok TExit s)"

definition must_die :: "trapframe \<Rightarrow> ('z) kcons_scheme \<Rightarrow> bool" where
  "must_die f s \<longleftrightarrow> cur s \<noteq> None \<and> killed (cproc s) \<noteq> 0 \<and> tf_cs f AND 3 = 3"

definition trap_end :: "addr \<Rightarrow> ('z) kcons_scheme \<Rightarrow> (tresult, ('z) kcons_scheme) res" where
  "trap_end t s = (if must_die (tframes s t) s then trap_exit s else Ok TReturn s)"

definition trap_tail :: "addr \<Rightarrow> ('z) kcons_scheme \<Rightarrow> (tresult, ('z) kcons_scheme) res" where
  "trap_tail t s =
     (if must_die (tframes s t) s then trap_exit s
      else if cur s \<noteq> None \<and> pstate (cproc s) = RUNNING \<and> unat (tf_trapno (tframes s t)) = T_IRQ0
      then bindr (yield_out s) (\<lambda>_ s. Ok TYield s)
      else trap_end t s)"

definition trap_syscall :: "u32 \<Rightarrow> u8 list \<Rightarrow> addr \<Rightarrow> ('z) kcons_scheme \<Rightarrow> (tresult, ('z) kcons_scheme) res" where
  "trap_syscall fr elf0 t s =
     (if killed (cproc s) \<noteq> 0 then trap_exit s
      else bindr (syscall fr cons_read cons_write elf0 (upd_proc (cp s) (\<lambda>p. p\<lparr>tf := t\<rparr>) s)) (\<lambda>go s.
        if \<not> go then Ok TExit s
        else if killed (cproc s) \<noteq> 0 then trap_exit s else Ok TReturn s))"

definition trap :: "u32 \<Rightarrow> u8 list \<Rightarrow> u8 list \<Rightarrow> u8 list \<Rightarrow> addr \<Rightarrow> ('z) kcons_scheme \<Rightarrow>
    (tresult, ('z) kcons_scheme) res" where
  "trap fr elf0 kb ub t s =
     (if unat (tf_trapno (tframes s t)) = T_SYSCALL then trap_syscall fr elf0 t s
      else bindr (trap_dispatch kb ub (tframes s t) s) (\<lambda>_ s. trap_tail t s))"

definition trap_resume :: "addr \<Rightarrow> ('z) kcons_scheme \<Rightarrow> (tresult, ('z) kcons_scheme) res" where
  "trap_resume t s = bindr (yield_in s) (\<lambda>_ s. trap_end t s)"

end
