(* ===== verification/Net.thy ===== *)
theory Net
  imports Prelude
begin

text \<open>
  The network headers and checksums of \<^verbatim>\<open>src/net/net.h\<close> and \<^verbatim>\<open>src/net/net.c\<close>.  The checksum
  functions read headers and payload as sequences of 16-bit words in the byte order of
  the machine, which is little-endian.
\<close>

section \<open>Byte order\<close>

definition htons :: "u16 \<Rightarrow> u16" where
  "htons x = (drop_bit 8 x AND 0xFF) OR push_bit 8 (x AND 0xFF)"

definition htonl :: "u32 \<Rightarrow> u32" where
  "htonl x = (drop_bit 24 x AND 0xFF) OR (drop_bit 8 x AND 0xFF00)
     OR (push_bit 8 x AND 0xFF0000) OR (push_bit 24 x AND 0xFF000000)"

definition ntohs :: "u16 \<Rightarrow> u16" where
  "ntohs x = htons x"

definition ntohl :: "u32 \<Rightarrow> u32" where
  "ntohl x = htonl x"

section \<open>Checksums\<close>

text \<open>The 16-bit word at a byte position.\<close>

definition word_at :: "u8 list \<Rightarrow> nat \<Rightarrow> u16" where
  "word_at xs i = ucast (xs ! i) OR push_bit 8 (ucast (xs ! (i + 1)))"

text \<open>The loop that adds up words; a byte that is left over is added as it is.\<close>

fun add_words :: "u8 list \<Rightarrow> u32 \<Rightarrow> u32" where
  "add_words (a # b # xs) acc = add_words xs (acc + (ucast a + 256 * ucast b))"
| "add_words [a] acc = acc + ucast a"
| "add_words [] acc = acc"

definition fold16 :: "u32 \<Rightarrow> u32" where
  "fold16 acc = (acc AND 0xFFFF) + drop_bit 16 acc"

text \<open>\<^verbatim>\<open>checksum\<close> of the first \<open>n\<close> bytes.\<close>

definition checksum :: "u8 list \<Rightarrow> int \<Rightarrow> u16" where
  "checksum buf n = ucast (NOT (fold16 (fold16 (add_words (take (nat n) buf) 0))))"

section \<open>Headers\<close>

text \<open>\<^verbatim>\<open>ip4_hdr_t\<close> and \<^verbatim>\<open>udp_hdr_t\<close> with the fields in network byte order, as the code
  stores them, and their bytes in memory.\<close>

record ip4_hdr =
  ver_ihl :: u8
  tos :: u8
  ip_length :: u16
  ip_id :: u16
  flag_fo :: u16
  ttl :: u8
  protocol :: u8
  ip_checksum :: u16
  ip_src :: "u8 list"
  ip_dst :: "u8 list"

record udp_hdr =
  udp_src :: u16
  udp_dst :: u16
  udp_length :: u16
  udp_cksum :: u16

definition b16 :: "u16 \<Rightarrow> u8 list" where
  "b16 w = [ucast w, ucast (drop_bit 8 w)]"

definition ip4_bytes :: "ip4_hdr \<Rightarrow> u8 list" where
  "ip4_bytes h = [ver_ihl h, tos h] @ b16 (ip_length h) @ b16 (ip_id h) @ b16 (flag_fo h)
     @ [ttl h, protocol h] @ b16 (ip_checksum h) @ ip_src h @ ip_dst h"

definition udp_bytes :: "udp_hdr \<Rightarrow> u8 list" where
  "udp_bytes u = b16 (udp_src u) @ b16 (udp_dst u) @ b16 (udp_length u) @ b16 (udp_cksum u)"

text \<open>\<^verbatim>\<open>ip4_checksum\<close>; the options of the header, if any, follow it in memory.\<close>

definition ip4_checksum :: "u8 list \<Rightarrow> ip4_hdr \<Rightarrow> ip4_hdr" where
  "ip4_checksum opts h =
     (let h = h\<lparr>ip_checksum := 0\<rparr>
      in h\<lparr>ip_checksum := checksum (ip4_bytes h @ opts) (uint (ver_ihl h AND 0xF) * 4)\<rparr>)"

text \<open>
  \<^verbatim>\<open>udp_checksum\<close>: the pseudo header, the header and \<open>n\<close> bytes of payload.  A size that is
  not positive reads no words but still, unless it is 0, one byte.
\<close>

definition pseudo_sum :: "ip4_hdr \<Rightarrow> udp_hdr \<Rightarrow> u32" where
  "pseudo_sum ip u =
     ucast (word_at (ip_src ip) 2) + ucast (word_at (ip_src ip) 0)
     + ucast (word_at (ip_dst ip) 2) + ucast (word_at (ip_dst ip) 0)
     + ucast (htons (ucast (protocol ip))) + ucast (udp_length u)"

definition udp_checksum :: "ip4_hdr \<Rightarrow> udp_hdr \<Rightarrow> u8 list \<Rightarrow> udp_hdr" where
  "udp_checksum ip u payload =
     (let u = u\<lparr>udp_cksum := 0\<rparr>;
          acc = pseudo_sum ip u;
          acc = acc + ucast (udp_src u) + ucast (udp_dst u) + ucast (udp_length u) + ucast (udp_cksum u);
          n = uint (ntohs (udp_length u)) - 8;
          acc = (if n < 0 then acc + ucast (payload ! 0) else add_words (take (nat n) payload) acc)
      in u\<lparr>udp_cksum := ucast (NOT (fold16 (fold16 acc)))\<rparr>)"

section \<open>Byte order conversions\<close>

lemma and_ff: "x AND 0xFF = take_bit 8 x" for x :: "'a::len word"
  by (simp add: take_bit_eq_mask mask_eq_exp_minus_1)

lemma and_ffff: "x AND 0xFFFF = take_bit 16 x" for x :: "'a::len word"
  by (simp add: take_bit_eq_mask mask_eq_exp_minus_1)

lemma htons_eq: "htons x = take_bit 8 (drop_bit 8 x) OR push_bit 8 (take_bit 8 x)"
  by (simp add: htons_def and_ff)

lemma ntohs_htons: "ntohs (htons x) = x"
  unfolding ntohs_def htons_eq by (rule bit_word_eqI) (auto simp: bit_simps)

text \<open>The two bytes of a word, and the word at the start of a list.\<close>

lemma unat_bytes: "unat (ucast w :: u8) + 256 * unat (ucast (drop_bit 8 w) :: u8) = unat w" for w :: u16
proof -
  have "unat (ucast w :: u8) = unat w mod 256"
    by (simp add: unsigned_ucast_eq take_bit_eq_mod)
  moreover have "unat (ucast (drop_bit 8 w) :: u8) = unat w div 256"
  proof -
    have "unat w < 2 ^ LENGTH(16)" by (rule unsigned_less)
    then have "unat w div 256 < 256" by simp
    then show ?thesis by (simp add: unsigned_ucast_eq take_bit_eq_mod drop_bit_eq_div unat_div)
  qed
  ultimately show ?thesis by simp
qed

section \<open>The value of a checksum\<close>

text \<open>The sum of the words as a natural number.\<close>

fun wsum :: "u8 list \<Rightarrow> nat" where
  "wsum (a # b # xs) = unat a + 256 * unat b + wsum xs"
| "wsum [a] = unat a"
| "wsum [] = 0"

lemma wsum_append: "even (length xs) \<Longrightarrow> wsum (xs @ ys) = wsum xs + wsum ys"
  by (induction xs rule: wsum.induct) auto

lemma unat_u8: "unat (a :: u8) < 256"
  using unsigned_less [of a] by simp

lemma wsum_le: "wsum xs \<le> 65535 * length xs"
proof (induction xs rule: wsum.induct)
  case (1 a b xs)
  then show ?case using unat_u8 [of a] unat_u8 [of b] by simp
next
  case (2 a)
  then show ?case using unat_u8 [of a] by simp
qed simp

lemma unat_add_words:
  "unat acc + wsum xs < 2 ^ 32 \<Longrightarrow> unat (add_words xs acc) = unat acc + wsum xs"
proof (induction xs acc rule: add_words.induct)
  case (1 a b xs acc)
  have w: "unat (ucast a + 256 * ucast b :: u32) = unat a + 256 * unat b"
    using unat_u8 [of a] unat_u8 [of b]
    by (simp add: unat_word_ariths unsigned_ucast_eq take_bit_eq_mod)
  have "unat (acc + (ucast a + 256 * ucast b)) = unat acc + (unat a + 256 * unat b)"
    using 1(2) w by (simp add: unat_word_ariths)
  with 1 show ?case by simp
next
  case (2 a acc)
  then show ?case using unat_u8 [of a] by (simp add: unat_word_ariths unsigned_ucast_eq take_bit_eq_mod)
qed simp

definition foldn :: "nat \<Rightarrow> nat" where
  "foldn s = s mod 65536 + s div 65536"

lemma unat_fold16: "unat (fold16 x) = foldn (unat x)"
proof -
  have "unat x < 2 ^ LENGTH(32)" by (rule unsigned_less)
  then have b: "unat x mod 65536 + unat x div 65536 < 2 ^ 32" by simp
  show ?thesis using b
    by (simp add: fold16_def foldn_def and_ffff unat_word_ariths unsigned_take_bit_eq take_bit_eq_mod
        drop_bit_eq_div unat_div)
qed

lemma foldn_mod: "foldn s mod 65535 = s mod 65535"
proof -
  have "s = foldn s + 65535 * (s div 65536)"
    unfolding foldn_def by simp
  then show ?thesis by (metis mod_mult_self2)
qed

lemma foldn_twice:
  assumes "s < 2 ^ 32"
  shows "foldn (foldn s) \<le> 65535" and "foldn (foldn s) mod 65535 = s mod 65535"
    and "foldn (foldn s) = 0 \<longleftrightarrow> s = 0"
proof -
  have a: "foldn s \<le> 131070" using assms unfolding foldn_def by simp
  show "foldn (foldn s) \<le> 65535"
  proof (cases "foldn s < 65536")
    case True
    then show ?thesis by (simp add: foldn_def [of "foldn s"])
  next
    case False
    define r where "r = foldn s - 65536"
    have r: "foldn s = r + 65536" "r \<le> 65534" using False a unfolding r_def by simp_all
    have "foldn (r + 65536) \<le> 65535" using r(2) by (simp add: foldn_def)
    then show ?thesis by (simp add: r(1))
  qed
  show "foldn (foldn s) mod 65535 = s mod 65535" by (simp only: foldn_mod)
  have z: "foldn u = 0 \<longleftrightarrow> u = 0" for u
    using div_mult_mod_eq [of u 65536] by (auto simp: foldn_def)
  show "foldn (foldn s) = 0 \<longleftrightarrow> s = 0" by (simp only: z)
qed

lemma unat_checksum_word:
  assumes "s = unat x"
  shows "unat (ucast (NOT (fold16 (fold16 x))) :: u16) = 65535 - foldn (foldn s)"
proof -
  have s: "s < 2 ^ 32" using assms unsigned_less [of x] by simp
  let ?r = "fold16 (fold16 x)"
  have u: "unat ?r = foldn (foldn s)" by (simp add: unat_fold16 assms)
  have le: "unat ?r \<le> 65535" using foldn_twice(1) [OF s] u by simp
  have "NOT ?r = - ?r - 1" by (rule not_eq_complement)
  also have "\<dots> = 0xFFFFFFFF - ?r" by simp
  finally have "unat (NOT ?r) = 4294967295 - unat ?r"
    using le by (simp add: unat_sub word_le_nat_alt)
  moreover have "4294967295 - unat ?r = (65535 - unat ?r) + 65536 * 65535" using le by simp
  then have "(4294967295 - unat ?r) mod 65536 = 65535 - unat ?r" using le by (simp only: mod_mult_self2) simp
  ultimately show ?thesis using u by (simp add: unsigned_ucast_eq take_bit_eq_mod)
qed

lemma checksum_closes:
  assumes "s < 2 ^ 32 - 65536" and "c = 65535 - foldn (foldn s)"
  shows "foldn (foldn (s + c)) = 65535"
proof -
  have s: "s < 2 ^ 32" using assms(1) by simp
  note f = foldn_twice [OF s]
  have sc: "s + c < 2 ^ 32" using assms by simp
  note g = foldn_twice [OF sc]
  have pos: "s + c \<noteq> 0"
    using f(3) assms(2) by (cases "s = 0") (simp_all add: foldn_def)
  have "(s + c) mod 65535 = (foldn (foldn s) + c) mod 65535"
    using f(2) by (metis mod_add_left_eq)
  also have "foldn (foldn s) + c = 65535" using assms(2) f(1) by simp
  finally have "(s + c) mod 65535 = 0" by simp
  then have "foldn (foldn (s + c)) mod 65535 = 0" using g(2) by simp
  then obtain k where k: "foldn (foldn (s + c)) = 65535 * k" by (auto simp: mod_eq_0_iff_dvd dvd_def)
  have "k \<noteq> 0" "k \<le> 1" using k g(1,3) pos by auto
  then show ?thesis using k by simp
qed

text \<open>The header with its fields, and the checksum field within the sum.\<close>

lemma length_ip4_bytes: "length (ip_src h) = 4 \<Longrightarrow> length (ip_dst h) = 4 \<Longrightarrow> length (ip4_bytes h) = 20"
  by (simp add: ip4_bytes_def b16_def)

lemma wsum_b16: "wsum (b16 w @ xs) = unat w + wsum xs"
  using unat_bytes [of w] by (simp add: b16_def)

lemma wsum_ip4_bytes:
  "wsum (ip4_bytes (h\<lparr>ip_checksum := c\<rparr>) @ opts) = unat c + wsum (ip4_bytes (h\<lparr>ip_checksum := 0\<rparr>) @ opts)"
proof -
  define pre where "pre = [ver_ihl h, tos h] @ b16 (ip_length h) @ b16 (ip_id h) @ b16 (flag_fo h) @ [ttl h, protocol h]"
  define post where "post = ip_src h @ ip_dst h @ opts"
  have e: "even (length pre)" by (simp add: pre_def b16_def)
  have "ip4_bytes (h\<lparr>ip_checksum := d\<rparr>) @ opts = pre @ b16 d @ post" for d
    by (simp add: ip4_bytes_def pre_def post_def)
  then show ?thesis by (simp add: wsum_append [OF e] wsum_b16)
qed

text \<open>
  C36: the receiver's check of an IP header succeeds.  After \<^verbatim>\<open>ip4_checksum\<close> the checksum
  computed over the whole header, the stored checksum included, is 0, for every header
  with or without options.
\<close>

theorem ip4_checksum_verifies:
  fixes h :: ip4_hdr and opts :: "u8 list"
  defines "n \<equiv> uint (ver_ihl h AND 0xF) * 4"
  assumes "length (ip_src h) = 4" and "length (ip_dst h) = 4"
    and "20 \<le> n" and "n \<le> 20 + int (length opts)"
  shows "checksum (ip4_bytes (ip4_checksum opts h) @ opts) n = 0"
proof -
  define o' where "o' = take (nat n - 20) opts"
  have len: "length (ip4_bytes g) = 20" if "length (ip_src g) = 4" "length (ip_dst g) = 4" for g :: ip4_hdr
    using that by (rule length_ip4_bytes)
  have tk: "take (nat n) (ip4_bytes (h\<lparr>ip_checksum := c\<rparr>) @ opts) = ip4_bytes (h\<lparr>ip_checksum := c\<rparr>) @ o'" for c
    using assms by (simp add: len o'_def)
  define s where "s = wsum (ip4_bytes (h\<lparr>ip_checksum := 0\<rparr>) @ o')"
  have "uint (ver_ihl h AND 0xF) \<le> 15"
    by (simp add: uint_and AND_upper2)
  then have "n \<le> 60" by (simp add: n_def)
  then have "length (ip4_bytes (h\<lparr>ip_checksum := 0\<rparr>) @ o') \<le> 60" using assms by (simp add: len o'_def)
  then have sb: "s \<le> 65535 * 60" using wsum_le [of "ip4_bytes (h\<lparr>ip_checksum := 0\<rparr>) @ o'"] unfolding s_def by linarith
  have val: "unat (checksum (ip4_bytes (h\<lparr>ip_checksum := c\<rparr>) @ opts) n) = 65535 - foldn (foldn (unat c + s))" for c
  proof -
    have "unat c < 2 ^ LENGTH(16)" by (rule unsigned_less)
    then have "unat (0 :: u32) + (unat c + s) < 2 ^ 32" using sb by simp
    then have "unat (add_words (ip4_bytes (h\<lparr>ip_checksum := c\<rparr>) @ o') 0) = unat c + s"
      by (subst unat_add_words) (simp_all add: wsum_ip4_bytes [of c h] s_def)
    then show ?thesis unfolding checksum_def tk by (simp add: unat_checksum_word)
  qed
  define c where "c = checksum (ip4_bytes (h\<lparr>ip_checksum := 0\<rparr>) @ opts) n"
  have eq: "ip4_checksum opts h = h\<lparr>ip_checksum := c\<rparr>"
    by (simp add: ip4_checksum_def c_def n_def Let_def)
  have "foldn (foldn (s + unat c)) = 65535"
    by (rule checksum_closes) (use sb val [of 0] in \<open>simp_all add: c_def\<close>)
  then have "unat (checksum (ip4_bytes (ip4_checksum opts h) @ opts) n) = 0"
    using val [of c] by (simp add: eq add.commute)
  then show ?thesis by (simp add: unsigned_eq_0_iff)
qed

definition ip4_example :: ip4_hdr where
  "ip4_example = \<lparr>ver_ihl = 0x46, tos = 0, ip_length = 0x2000, ip_id = 0x1234, flag_fo = 0, ttl = 64,
     protocol = 17, ip_checksum = 0, ip_src = [10, 0, 0, 1], ip_dst = [10, 0, 0, 2]\<rparr>"

theorem ip4_checksum_verifies_witness:
  "checksum (ip4_bytes (ip4_checksum [1, 2, 3, 4] ip4_example) @ [1, 2, 3, 4]) 24 = 0"
  using ip4_checksum_verifies [of ip4_example "[1, 2, 3, 4]"] by (simp add: ip4_example_def)

section \<open>UDP\<close>

text \<open>What RFC 768 sums up: the pseudo header, the header and the payload.\<close>

definition udp_segment :: "ip4_hdr \<Rightarrow> udp_hdr \<Rightarrow> u8 list \<Rightarrow> u8 list" where
  "udp_segment ip u payload =
     ip_src ip @ ip_dst ip @ [0, protocol ip] @ b16 (udp_length u) @ udp_bytes u @ payload"

lemma ucast_word: "(ucast (ucast a OR push_bit 8 (ucast b) :: u16) :: u32) = ucast a + 256 * ucast b" for a b :: u8
proof -
  have "ucast a AND push_bit 8 (ucast b) = (0 :: u16)"
    by (rule bit_word_eqI) (auto simp: bit_and_iff bit_push_bit_iff bit_ucast_iff dest: bit_imp_le_length)
  then have "ucast a OR push_bit 8 (ucast b) = (ucast a + push_bit 8 (ucast b) :: u16)"
    by (simp add: disjunctive_add_eq_or)
  then show ?thesis using unat_u8 [of a] unat_u8 [of b]
    by (simp add: word_unat_eq_iff unat_word_ariths unsigned_ucast_eq take_bit_eq_mod push_bit_eq_mult)
qed

lemma ucast_b16: "(ucast w :: u32) = ucast (ucast w :: u8) + 256 * ucast (ucast (drop_bit 8 w) :: u8)" for w :: u16
  using unat_bytes [of w] unat_u8 [of "ucast w"] unat_u8 [of "ucast (drop_bit 8 w)"]
  by (simp add: word_unat_eq_iff unat_word_ariths unsigned_ucast_eq take_bit_eq_mod mod_mod_cancel)

lemma ucast_htons_byte: "(ucast (htons (ucast p)) :: u32) = 256 * ucast p" for p :: u8
proof -
  have "htons (ucast p) = ucast (0 :: u8) OR push_bit 8 (ucast p)"
    by (intro bit_word_eqI) (auto simp: htons_def and_ff bit_or_iff bit_push_bit_iff bit_take_bit_iff
      bit_drop_bit_eq bit_ucast_iff bit_and_iff dest: bit_imp_le_length)
  then show ?thesis using ucast_word [of 0 p] by simp
qed

lemma list4: "length xs = 4 \<Longrightarrow> \<exists>a b c d. xs = [a, b, c, d]"
  by (auto simp: numeral_eq_Suc length_Suc_conv)

lemma udp_checksum_segment:
  assumes "length (ip_src ip) = 4" and "length (ip_dst ip) = 4"
    and "uint (ntohs (udp_length u)) = 8 + int (length payload)"
  shows "udp_checksum ip u payload = u\<lparr>udp_cksum :=
    checksum (udp_segment ip (u\<lparr>udp_cksum := 0\<rparr>) payload) (int (length (udp_segment ip (u\<lparr>udp_cksum := 0\<rparr>) payload)))\<rparr>"
proof -
  obtain a b c d where src: "ip_src ip = [a, b, c, d]" using list4 [OF assms(1)] by blast
  obtain e f g h where dst: "ip_dst ip = [e, f, g, h]" using list4 [OF assms(2)] by blast
  have w: "ucast (word_at [x, y, z, w] 0) = (ucast x + 256 * ucast y :: u32)"
    "ucast (word_at [x, y, z, w] 2) = (ucast z + 256 * ucast w :: u32)" for x y z w
    by (simp_all add: word_at_def ucast_word)
  show ?thesis using assms(3)
    unfolding udp_checksum_def checksum_def udp_segment_def pseudo_sum_def udp_bytes_def src dst w
      ucast_b16 [of "udp_src _"] ucast_b16 [of "udp_dst _"] ucast_b16 [of "udp_length _"] ucast_htons_byte
    by (simp add: Let_def b16_def add_ac)
qed

lemma wsum_half: "wsum xs \<le> 65535 * ((length xs + 1) div 2)"
proof (induction xs rule: wsum.induct)
  case (1 a b xs)
  then show ?case using unat_u8 [of a] unat_u8 [of b] by simp
next
  case (2 a)
  then show ?case using unat_u8 [of a] by simp
qed simp

lemma udp_segment_sum:
  assumes "length (ip_src ip) = 4" and "length (ip_dst ip) = 4"
  shows "wsum (udp_segment ip (u\<lparr>udp_cksum := c\<rparr>) payload) =
    unat c + wsum (udp_segment ip (u\<lparr>udp_cksum := 0\<rparr>) payload)"
proof -
  define pre where "pre = ip_src ip @ ip_dst ip @ [0, protocol ip] @ b16 (udp_length u) @
    b16 (udp_src u) @ b16 (udp_dst u) @ b16 (udp_length u)"
  have e: "even (length pre)" using assms by (simp add: pre_def b16_def)
  have "udp_segment ip (u\<lparr>udp_cksum := d\<rparr>) payload = pre @ b16 d @ payload" for d
    by (simp add: udp_segment_def udp_bytes_def pre_def)
  then show ?thesis by (simp add: wsum_append [OF e] wsum_b16)
qed

text \<open>
  C37: \<^verbatim>\<open>udp_checksum\<close> computes the checksum of RFC 768 for every datagram.  Only the checksum
  field changes; the receiver's check succeeds, that is, the checksum over the pseudo header,
  the header with the stored checksum and the payload is 0.  The stored value is 0
  exactly when the words of pseudo header, header and payload add up to a multiple of
  65535; the RFC asks to send 65535 instead then, since 0 in a header means that no checksum
  was computed, and the code does not.
\<close>

theorem udp_checksum_correct:
  fixes ip :: ip4_hdr and u :: udp_hdr and payload :: "u8 list"
  defines "v \<equiv> udp_checksum ip u payload"
  assumes "length (ip_src ip) = 4" and "length (ip_dst ip) = 4"
    and "uint (ntohs (udp_length u)) = 8 + int (length payload)"
  shows "v\<lparr>udp_cksum := 0\<rparr> = u\<lparr>udp_cksum := 0\<rparr> \<and>
    checksum (udp_segment ip v payload) (int (length (udp_segment ip v payload))) = 0 \<and>
    (udp_cksum v = 0 \<longleftrightarrow> wsum (udp_segment ip (u\<lparr>udp_cksum := 0\<rparr>) payload) mod 65535 = 0)"
proof -
  define s where "s = wsum (udp_segment ip (u\<lparr>udp_cksum := 0\<rparr>) payload)"
  define c where "c = checksum (udp_segment ip (u\<lparr>udp_cksum := 0\<rparr>) payload)
    (int (length (udp_segment ip (u\<lparr>udp_cksum := 0\<rparr>) payload)))"
  have v: "v = u\<lparr>udp_cksum := c\<rparr>" unfolding v_def c_def by (rule udp_checksum_segment [OF assms(2-4)])
  have "uint (ntohs (udp_length u)) < 65536" using uint_lt2p [of "ntohs (udp_length u)"] by simp
  then have "length (udp_segment ip (u\<lparr>udp_cksum := 0\<rparr>) payload) \<le> 65548"
    using assms by (simp add: udp_segment_def udp_bytes_def b16_def)
  then have "(length (udp_segment ip (u\<lparr>udp_cksum := 0\<rparr>) payload) + 1) div 2 \<le> 32774" by linarith
  with wsum_half [of "udp_segment ip (u\<lparr>udp_cksum := 0\<rparr>) payload"] have sb: "s \<le> 65535 * 32774"
    unfolding s_def by linarith
  have val: "unat (checksum (udp_segment ip (u\<lparr>udp_cksum := d\<rparr>) payload)
      (int (length (udp_segment ip (u\<lparr>udp_cksum := d\<rparr>) payload)))) = 65535 - foldn (foldn (unat d + s))" for d
  proof -
    have "unat d < 2 ^ LENGTH(16)" by (rule unsigned_less)
    then have "unat (add_words (udp_segment ip (u\<lparr>udp_cksum := d\<rparr>) payload) 0) = unat d + s"
      using sb by (subst unat_add_words) (simp_all add: udp_segment_sum [OF assms(2,3), where u = u and c = d] s_def)
    then show ?thesis unfolding checksum_def by (simp add: unat_checksum_word)
  qed
  have c: "unat c = 65535 - foldn (foldn s)" unfolding c_def using val [of 0] by simp
  have "foldn (foldn (s + unat c)) = 65535" by (rule checksum_closes) (use sb c in simp_all)
  then have "checksum (udp_segment ip v payload) (int (length (udp_segment ip v payload))) = 0"
    using val [of c] by (simp add: v add.commute unsigned_eq_0_iff)
  moreover have "c = 0 \<longleftrightarrow> s mod 65535 = 0"
  proof -
    have s: "s < 2 ^ 32" using sb by simp
    have "udp_length u \<noteq> 0" using assms(4) by (auto simp: ntohs_def htons_def)
    then have "0 < unat (udp_length u)" by (simp add: unat_gt_0)
    moreover have "even (length (ip_src ip @ ip_dst ip @ [0, protocol ip]))" using assms(2,3) by simp
    from wsum_append [OF this, of "b16 (udp_length u) @ udp_bytes (u\<lparr>udp_cksum := 0\<rparr>) @ payload"]
    have "unat (udp_length u) \<le> s" unfolding s_def udp_segment_def by (simp add: wsum_b16)
    ultimately have f: "foldn (foldn s) \<noteq> 0" "foldn (foldn s) \<le> 65535" "foldn (foldn s) mod 65535 = s mod 65535"
      using foldn_twice [OF s] by simp_all
    have "c = 0 \<longleftrightarrow> foldn (foldn s) = 65535" using c f(2) unsigned_eq_0_iff [of c] by auto
    also have "\<dots> \<longleftrightarrow> foldn (foldn s) mod 65535 = 0"
      using f(1,2) by (cases "foldn (foldn s) = 65535") simp_all
    also have "\<dots> \<longleftrightarrow> s mod 65535 = 0" by (simp only: f(3))
    finally show ?thesis .
  qed
  ultimately show ?thesis by (simp add: v s_def)
qed

theorem udp_checksum_correct_witness:
  "checksum (udp_segment ip4_example (udp_checksum ip4_example
      \<lparr>udp_src = 0x4400, udp_dst = 0x4300, udp_length = 0x0B00, udp_cksum = 7\<rparr> [1, 2, 3]) [1, 2, 3]) 23 = 0 \<and>
   udp_cksum (udp_checksum ip4_example
      \<lparr>udp_src = 0x4400, udp_dst = 0x4300, udp_length = 0x0B00, udp_cksum = 7\<rparr> [1, 2, 3]) \<noteq> 0 \<and>
   udp_cksum (udp_checksum ip4_example
      \<lparr>udp_src = 0xDBEB, udp_dst = 0, udp_length = 0x0800, udp_cksum = 0\<rparr> []) = 0"
  using udp_checksum_correct [of ip4_example "\<lparr>udp_src = 0x4400, udp_dst = 0x4300, udp_length = 0x0B00, udp_cksum = 7\<rparr>" "[1, 2, 3]"]
    udp_checksum_correct [of ip4_example "\<lparr>udp_src = 0xDBEB, udp_dst = 0, udp_length = 0x0800, udp_cksum = 0\<rparr>" "[]"]
  by (auto simp: ip4_example_def udp_segment_def udp_bytes_def b16_def ntohs_def htons_def)

end
