(* ===== verification/Ne.thy ===== *)
theory Ne
  imports Fmt
begin

text \<open>
  The NE2000 network driver, \<^verbatim>\<open>src/eth/ne.c\<close> with \<^verbatim>\<open>src/eth/ne.h\<close>, and its device entries,
  \<^verbatim>\<open>src/eth/eth.c\<close>.  The card is a parameter: a state with functions for reading and writing
  its ports.  Messages to the console are left out, and so are the entries of \<^verbatim>\<open>ethinit\<close> in
  the device switch and its calls that enable the interrupt.  On a 16-bit card \<^verbatim>\<open>insw\<close>
  stores eight bytes into the four-byte \<^verbatim>\<open>header\<close> of \<^verbatim>\<open>ne_pio_read\<close> and \<^verbatim>\<open>dummy\<close> of
  \<^verbatim>\<open>ne_rdma_setup\<close>; what the four bytes behind them destroy on the stack is not modelled.
\<close>

section \<open>The card and the driver state\<close>

record 'd nic =
  n_in :: "nat \<Rightarrow> 'd \<Rightarrow> u8 \<times> 'd"
  n_inw :: "nat \<Rightarrow> 'd \<Rightarrow> u16 \<times> 'd"
  n_out :: "nat \<Rightarrow> u8 \<Rightarrow> 'd \<Rightarrow> 'd"
  n_outw :: "nat \<Rightarrow> u16 \<Rightarrow> 'd \<Rightarrow> 'd"

record sendbuf =
  filled :: bool
  sendpage :: int

record ne_t =
  ne_name :: "u8 list"
  ne_irq :: int
  ne_base :: nat
  ne_address :: "u8 list"
  is16bit :: bool
  ramsize :: int
  ne_pages :: int
  startaddr :: int
  send_startpage :: int
  send_stoppage :: int
  recv_startpage :: int
  recv_stoppage :: int
  sendq :: "sendbuf list"
  sendq_head :: u32
  sendq_tail :: u32

abbreviation (input) DP_PAGESIZE :: int where "DP_PAGESIZE \<equiv> 256"
abbreviation (input) SENDQ_PAGES :: int where "SENDQ_PAGES \<equiv> 6"
abbreviation (input) SENDQ_LEN :: int where "SENDQ_LEN \<equiv> 2"
abbreviation (input) ETH_MIN_SIZE :: u32 where "ETH_MIN_SIZE \<equiv> 60"
abbreviation (input) ETH_MAX_SIZE :: u32 where "ETH_MAX_SIZE \<equiv> 1514"
abbreviation (input) NE_DATA :: nat where "NE_DATA \<equiv> 0x10"
abbreviation (input) NE_RESET :: nat where "NE_RESET \<equiv> 0x1F"

section \<open>Port input and output\<close>

text \<open>A sequence of writes at offsets from the base port.\<close>

definition outs :: "'d nic \<Rightarrow> ne_t \<Rightarrow> (nat \<times> u8) list \<Rightarrow> 'd \<Rightarrow> 'd" where
  "outs N ne seq d = fold (\<lambda>(off, v). n_out N (ne_base ne + off) v) seq d"

text \<open>The string instructions: \<open>insw\<close> and \<open>outsw\<close> count 16-bit words.\<close>

fun insb :: "'d nic \<Rightarrow> nat \<Rightarrow> nat \<Rightarrow> 'd \<Rightarrow> u8 list \<times> 'd" where
  "insb N p 0 d = ([], d)"
| "insb N p (Suc n) d = (let (v, d) = n_in N p d; (vs, d) = insb N p n d in (v # vs, d))"

fun insw :: "'d nic \<Rightarrow> nat \<Rightarrow> nat \<Rightarrow> 'd \<Rightarrow> u8 list \<times> 'd" where
  "insw N p 0 d = ([], d)"
| "insw N p (Suc n) d =
     (let (v, d) = n_inw N p d; (vs, d) = insw N p n d in (ucast v # ucast (drop_bit 8 v) # vs, d))"

fun outsb :: "'d nic \<Rightarrow> nat \<Rightarrow> mem \<Rightarrow> addr \<Rightarrow> nat \<Rightarrow> 'd \<Rightarrow> 'd" where
  "outsb N p m a 0 d = d"
| "outsb N p m a (Suc n) d = outsb N p m (a + 1) n (n_out N p (m a) d)"

fun outsw :: "'d nic \<Rightarrow> nat \<Rightarrow> mem \<Rightarrow> addr \<Rightarrow> nat \<Rightarrow> 'd \<Rightarrow> 'd" where
  "outsw N p m a 0 d = d"
| "outsw N p m a (Suc n) d =
     outsw N p m (a + 2) n (n_outw N p (ucast (m a) OR push_bit 8 (ucast (m (a + 1)))) d)"

section \<open>Probing and initialisation\<close>

text \<open>The polling loop for the end of the reset: at most 10002 reads.\<close>

fun reset_loop :: "'d nic \<Rightarrow> ne_t \<Rightarrow> nat \<Rightarrow> 'd \<Rightarrow> bool \<times> 'd" where
  "reset_loop N ne 0 d = (False, d)"
| "reset_loop N ne (Suc n) d =
     (let (v, d) = n_in N (ne_base ne + 7) d in if v = 0 then reset_loop N ne n d else (True, d))"

text \<open>The registers set up for reading the PROM.\<close>

definition prom_seq :: "(nat \<times> u8) list" where
  "prom_seq = [(0x00, 0x21), (0x0E, 0x48), (0x0A, 0), (0x0B, 0), (0x0C, 0x20), (0x0D, 0x02),
     (0x07, 0xFF), (0x0F, 0), (0x0A, 32), (0x0B, 0), (0x08, 0), (0x09, 0), (0x00, 0x0A)]"

definition is_8390 :: "'d nic \<Rightarrow> ne_t \<Rightarrow> u8 \<Rightarrow> 'd \<Rightarrow> bool \<times> 'd" where
  "is_8390 N ne reg0 d =
     (let b = ne_base ne;
          d = n_out N b 0x61 d;
          (regd, d) = n_in N (b + 0x0D) d;
          d = n_out N (b + 0x0D) 0xFF d;
          d = n_out N b 0x20 d;
          (_, d) = n_in N (b + 0x0D) d;
          (v, d) = n_in N (b + 0x0D) d
      in if v \<noteq> 0 then (False, n_out N (b + 0x0D) regd (n_out N b reg0 d)) else (True, d))"

definition ne_prom :: "'d nic \<Rightarrow> ne_t \<Rightarrow> 'd \<Rightarrow> bool \<times> ne_t \<times> 'd" where
  "ne_prom N ne d =
     (let d = outs N ne prom_seq d;
          (eprom, d) = insb N (ne_base ne + NE_DATA) 32 d;
          ne = ne\<lparr>is16bit := list_all (\<lambda>i. eprom ! (2 * i) = eprom ! (2 * i + 1)) [0..<16]\<rparr>;
          eprom = (if is16bit ne then map (\<lambda>i. eprom ! (2 * i)) [0..<16] else eprom)
      in if eprom ! 14 \<noteq> 0x57 \<or> eprom ! 15 \<noteq> 0x57 then (False, ne, d)
         else (True, ne\<lparr>ne_address := take 6 eprom\<rparr>, d))"

definition ne_probe :: "'d nic \<Rightarrow> ne_t \<Rightarrow> 'd \<Rightarrow> bool \<times> ne_t \<times> 'd" where
  "ne_probe N ne d =
     (let (reg0, d) = n_in N (ne_base ne) d in
      if reg0 = 0xFF then (False, ne, d)
      else let (ok, d) = is_8390 N ne reg0 d in
        if \<not> ok then (False, ne, d)
        else let (v, d) = n_in N (ne_base ne + NE_RESET) d;
                 d = n_out N (ne_base ne + NE_RESET) v d;
                 (ok, d) = reset_loop N ne 10002 d
             in if \<not> ok then (False, ne, d)
                else ne_prom N ne (n_out N (ne_base ne + 7) 0xFF d))"

text \<open>The layout of the memory of the card: pages of the send buffers and of the receive ring.\<close>

definition ne_layout :: "ne_t \<Rightarrow> ne_t" where
  "ne_layout ne =
     (let ne = (if is16bit ne
                then ne\<lparr>ramsize := 0x4000, startaddr := 0x4000, send_startpage := 0x4000 div DP_PAGESIZE\<rparr>
                else ne\<lparr>startaddr := 0x2000, ramsize := 0x2000, send_startpage := 0x2000 div DP_PAGESIZE\<rparr>);
          ne = ne\<lparr>ne_pages := ramsize ne div DP_PAGESIZE\<rparr>;
          ne = ne\<lparr>send_stoppage := send_startpage ne + SENDQ_PAGES * SENDQ_LEN - 1\<rparr>;
          ne = ne\<lparr>recv_startpage := send_stoppage ne + 1, recv_stoppage := send_startpage ne + ne_pages ne\<rparr>
      in ne\<lparr>sendq := map (\<lambda>i. \<lparr>filled = False, sendpage = send_startpage ne + int i * SENDQ_PAGES\<rparr>) [0..<2],
            sendq_head := 0, sendq_tail := 1\<rparr>)"

definition init_seq :: "ne_t \<Rightarrow> (nat \<times> u8) list" where
  "init_seq ne =
     [(0x00, 0x21), (0x0E, (if is16bit ne then 1 else 0) OR 0x48), (0x0C, 0x20), (0x0A, 0), (0x0B, 0),
      (0x0D, 0x02), (0x01, word_of_int (recv_startpage ne)), (0x02, word_of_int (recv_stoppage ne)),
      (0x03, word_of_int (recv_startpage ne)), (0x07, 0xFF), (0x0F, 0x3F), (0x00, 0x60)]
     @ map (\<lambda>i. (1 + i, ne_address ne ! i)) [0..<6]
     @ map (\<lambda>i. (8 + i, 0xFF)) [0..<8]
     @ [(0x07, word_of_int (recv_startpage ne + 1)), (0x00, 0x22), (0x0D, 0), (0x0C, 0x10)]"

definition ne_init :: "'d nic \<Rightarrow> ne_t \<Rightarrow> 'd \<Rightarrow> ne_t \<times> 'd" where
  "ne_init N ne d = (let ne = ne_layout ne in (ne, outs N ne (init_seq ne) d))"

section \<open>Remote DMA\<close>

abbreviation (input) CR_DM_RR :: u8 where "CR_DM_RR \<equiv> 0x08"
abbreviation (input) CR_DM_RW :: u8 where "CR_DM_RW \<equiv> 0x10"

text \<open>The end of \<^verbatim>\<open>ne_rdma_setup\<close>, which is all that it does for reading.\<close>

definition rdma_start :: "'d nic \<Rightarrow> ne_t \<Rightarrow> u8 \<Rightarrow> u16 \<Rightarrow> int \<Rightarrow> 'd \<Rightarrow> 'd" where
  "rdma_start N ne mode a n d =
     outs N ne [(0x08, ucast (a AND 0xFF)), (0x09, ucast (drop_bit 8 a AND 0xFF)),
       (0x0A, word_of_int n), (0x0B, word_of_int (n div 256)), (0x00, mode OR 0x02)] d"

definition ne_getblock :: "'d nic \<Rightarrow> ne_t \<Rightarrow> u16 \<Rightarrow> int \<Rightarrow> 'd \<Rightarrow> u8 list \<times> 'd" where
  "ne_getblock N ne a n d =
     (let d = rdma_start N ne CR_DM_RR a n d in
      if is16bit ne then insw N (ne_base ne + NE_DATA) (nat n) d
      else insb N (ne_base ne + NE_DATA) (nat n) d)"

text \<open>The current remote DMA address, and the loop that waits until it changes.\<close>

definition crda :: "'d nic \<Rightarrow> ne_t \<Rightarrow> 'd \<Rightarrow> u16 \<times> 'd" where
  "crda N ne d =
     (let (lo, d) = n_in N (ne_base ne + 8) d; (hi, d) = n_in N (ne_base ne + 9) d
      in (ucast lo OR push_bit 8 (ucast hi), d))"

partial_function (option) crda_loop :: "'d nic \<Rightarrow> ne_t \<Rightarrow> u16 \<Rightarrow> 'd \<Rightarrow> 'd option" where
  "crda_loop N ne old d = (let (new, d) = crda N ne d in if old = new then crda_loop N ne old d else Some d)"

definition ne_rdma_setup :: "'d nic \<Rightarrow> ne_t \<Rightarrow> u8 \<Rightarrow> u16 \<Rightarrow> int \<Rightarrow> 'd \<Rightarrow> 'd option" where
  "ne_rdma_setup N ne mode a n d =
     map_option (rdma_start N ne mode a n)
       (if mode = CR_DM_RW then
          (let (old, d) = crda N ne d; (_, d) = ne_getblock N ne (word_of_int (startaddr ne) - 4) 4 d
           in crda_loop N ne old d)
        else Some d)"

section \<open>Sending\<close>

definition ne_start_xmit :: "'d nic \<Rightarrow> ne_t \<Rightarrow> int \<Rightarrow> int \<Rightarrow> 'd \<Rightarrow> 'd" where
  "ne_start_xmit N ne page n d =
     outs N ne [(0x04, word_of_int page), (0x05, word_of_int n), (0x06, word_of_int (n div 256)),
       (0x00, 0x26)] d"

text \<open>The counters of the send queue are C \<^verbatim>\<open>int\<close>s, kept as words that wrap around; the
  remainder of a negative number is not positive in C.  The element before the first one of
  the array \<^verbatim>\<open>sendq\<close> is the pair of the fields \<^verbatim>\<open>recv_startpage\<close> and \<^verbatim>\<open>recv_stoppage\<close> of the
  structure.\<close>

definition crem :: "u32 \<Rightarrow> int \<Rightarrow> int" where
  "crem i n = (if sint i < 0 then - ((- sint i) mod n) else sint i mod n)"

definition sendq_at :: "int \<Rightarrow> ne_t \<Rightarrow> sendbuf" where
  "sendq_at i ne = (if i < 0 then \<lparr>filled = (recv_startpage ne \<noteq> 0), sendpage = recv_stoppage ne\<rparr>
     else sendq ne ! nat i)"

definition set_filled :: "int \<Rightarrow> bool \<Rightarrow> ne_t \<Rightarrow> ne_t" where
  "set_filled i b ne = (if i < 0 then ne\<lparr>recv_startpage := (if b then 1 else 0)\<rparr>
     else ne\<lparr>sendq := (sendq ne)[nat i := (sendq ne ! nat i)\<lparr>filled := b\<rparr>]\<rparr>)"

text \<open>The send buffer that is next, and whether it is free.\<close>

definition sendq_slot :: "ne_t \<Rightarrow> int" where
  "sendq_slot ne = crem (sendq_head ne) SENDQ_LEN"

definition sendq_busy :: "ne_t \<Rightarrow> bool" where
  "sendq_busy ne \<longleftrightarrow> filled (sendq_at (sendq_slot ne) ne) \<or> sint (sendq_head ne) > sint (sendq_tail ne)"

text \<open>The data of the packet, through the data port of the card.\<close>

definition ne_put_data :: "'d nic \<Rightarrow> ne_t \<Rightarrow> mem \<Rightarrow> addr \<Rightarrow> int \<Rightarrow> 'd \<Rightarrow> 'd" where
  "ne_put_data N ne m packet n d =
     (if is16bit ne then outsw N (ne_base ne + NE_DATA) m packet (nat n) d
      else outsb N (ne_base ne + NE_DATA) m packet (nat n) d)"

text \<open>The result is \<open>None\<close> when the wait for the remote DMA does not end.\<close>

definition ne_pio_write :: "'d nic \<Rightarrow> ne_t \<Rightarrow> mem \<Rightarrow> addr \<Rightarrow> int \<Rightarrow> 'd \<Rightarrow> (int \<times> ne_t \<times> 'd) option" where
  "ne_pio_write N ne m packet n d =
     (if sendq_busy ne then Some (0, ne, d)
      else let q = sendq_slot ne in
        map_option (\<lambda>d.
            let d = ne_put_data N ne m packet n d;
                ne = set_filled q True ne;
                d = ne_start_xmit N ne (sendpage (sendq_at q ne)) n d
            in (n, ne\<lparr>sendq_head := sendq_head ne + 1\<rparr>, d))
          (ne_rdma_setup N ne CR_DM_RW (word_of_int (sendpage (sendq_at q ne) * DP_PAGESIZE)) n d))"

section \<open>Receiving\<close>

text \<open>
  The reading of the packet data in \<^verbatim>\<open>ne_pio_read\<close>, in two parts when the packet wraps around.
  The result lists what is stored into the buffer: positions and bytes, in order.
\<close>

definition ne_copy :: "'d nic \<Rightarrow> ne_t \<Rightarrow> u32 \<Rightarrow> u32 \<Rightarrow> 'd \<Rightarrow> (nat \<times> u8 list) list \<times> 'd" where
  "ne_copy N ne page pktsize d =
     (let remain = (word_of_int (recv_stoppage ne) - page) * 256 in
      if remain < pktsize then
        let (xs, d) = ne_getblock N ne (ucast (page * 256 + 4)) (sint remain) d;
            (ys, d) = ne_getblock N ne (word_of_int (recv_startpage ne * DP_PAGESIZE)) (sint (pktsize - remain)) d
        in ([(0, xs), (0, ys)], d)
      else let (xs, d) = ne_getblock N ne (ucast (page * 256 + 4)) (sint pktsize) d in ([(0, xs)], d))"

text \<open>
  \<^verbatim>\<open>ne_pio_read\<close> into a buffer of \<open>bufsize\<close> bytes, \<open>isnull\<close> when the buffer pointer is null.
\<close>

definition ne_pio_read :: "'d nic \<Rightarrow> ne_t \<Rightarrow> bool \<Rightarrow> int \<Rightarrow> 'd \<Rightarrow> int \<times> (nat \<times> u8 list) list \<times> 'd" where
  "ne_pio_read N ne isnull bufsize d =
     (let b = ne_base ne;
          d = n_out N b 0x40 d;
          (curr, d) = n_in N (b + 7) d;
          d = n_out N b 0x22 d;
          (bnry, d) = n_in N (b + 3) d;
          page = ucast bnry + 1 :: u32;
          page = (if page = word_of_int (recv_stoppage ne) then word_of_int (recv_startpage ne) else page)
      in
      if page = ucast curr then (0, [], d)
      else
        let (hdr, d) = ne_getblock N ne (ucast (page * 256)) 4 d;
            status = hdr ! 0; nxt = hdr ! 1; rbc0 = hdr ! 2; rbc1 = hdr ! 3;
            pktsize = (ucast rbc0 OR push_bit 8 (ucast rbc1)) - 4 :: u32
        in
        if pktsize < ETH_MIN_SIZE \<or> pktsize > ETH_MAX_SIZE then (-1, [], d)
        else if status AND 1 = 0 then (-1, [], d)
        else if isnull \<or> pktsize > word_of_int bufsize then (sint pktsize, [], d)
        else
          let (stores, d) = ne_copy N ne page pktsize d;
              bnry = uint nxt - 1;
              d = n_out N (b + 3) (if (word_of_int bnry :: u32) < word_of_int (recv_startpage ne)
                                   then word_of_int (recv_stoppage ne - 1) else word_of_int bnry) d
          in (sint pktsize, stores, d))"

section \<open>Interrupts\<close>

text \<open>One turn of the loop of \<^verbatim>\<open>ne_interrupt\<close>, for the value read from the interrupt status.\<close>

definition ne_isr :: "u8 \<Rightarrow> ne_t \<Rightarrow> ne_t" where
  "ne_isr isr ne =
     (if isr AND 2 \<noteq> 0 then
        let ne = ne\<lparr>sendq_tail := sendq_tail ne + 1\<rparr>
        in set_filled (crem (sendq_tail ne) SENDQ_LEN) False ne
      else ne)"

partial_function (option) ne_interrupt :: "'d nic \<Rightarrow> ne_t \<Rightarrow> 'd \<Rightarrow> (ne_t \<times> 'd) option" where
  "ne_interrupt N ne d =
     (let (isr, d) = n_in N (ne_base ne + 7) d in
      if isr = 0 then Some (ne, d)
      else ne_interrupt N (ne_isr isr ne) (n_out N (ne_base ne + 7) isr d))"

section \<open>The device entries\<close>

definition ethread :: "'d nic \<Rightarrow> ne_t \<Rightarrow> addr \<Rightarrow> int \<Rightarrow> 'd \<Rightarrow> int \<times> (nat \<times> u8 list) list \<times> 'd" where
  "ethread N ne p n d = ne_pio_read N ne (p = 0) n d"

definition ethwrite :: "'d nic \<Rightarrow> ne_t \<Rightarrow> mem \<Rightarrow> addr \<Rightarrow> int \<Rightarrow> 'd \<Rightarrow> (int \<times> ne_t \<times> 'd) option" where
  "ethwrite N ne m p n d = ne_pio_write N ne m p n d"

definition ethintr :: "'d nic \<Rightarrow> ne_t \<Rightarrow> 'd \<Rightarrow> (ne_t \<times> 'd) option" where
  "ethintr N ne d = ne_interrupt N ne d"

definition zero_ne :: ne_t where
  "zero_ne = \<lparr>ne_name = [], ne_irq = 0, ne_base = 0, ne_address = replicate 6 0, is16bit = False,
     ramsize = 0, ne_pages = 0, startaddr = 0, send_startpage = 0, send_stoppage = 0,
     recv_startpage = 0, recv_stoppage = 0, sendq = replicate 2 \<lparr>filled = False, sendpage = 0\<rparr>,
     sendq_head = 0, sendq_tail = 0\<rparr>"

text \<open>The loop of \<^verbatim>\<open>ethinit\<close> over the ports where a card may be; the result says whether one
  was found.\<close>

fun ethinit_loop :: "'d nic \<Rightarrow> (nat \<times> nat) list \<Rightarrow> ne_t \<Rightarrow> 'd \<Rightarrow> bool \<times> ne_t \<times> 'd" where
  "ethinit_loop N [] ne d = (False, ne, d)"
| "ethinit_loop N ((i, p) # ps) ne d =
     (let ne = zero_ne\<lparr>ne_name := [101, 116, 104, of_nat (48 + i)], ne_irq := 11, ne_base := p\<rparr>;
          (ok, ne, d) = ne_probe N ne d
      in if ok then (let (ne, d) = ne_init N ne d in (True, ne, d)) else ethinit_loop N ps ne d)"

definition ethinit :: "'d nic \<Rightarrow> 'd \<Rightarrow> bool \<times> ne_t \<times> 'd" where
  "ethinit N d = ethinit_loop N (zip [0..<7] [0x300, 0xC100, 0x240, 0x280, 0x320, 0x340, 0x360]) zero_ne d"

section \<open>The memory of the card\<close>

text \<open>The first page of send buffer \<open>q\<close> in the memory of the card, and the addresses of a frame
  of the largest size in it.\<close>

definition send_page :: "ne_t \<Rightarrow> nat \<Rightarrow> int" where
  "send_page ne q = startaddr ne div DP_PAGESIZE + int q * SENDQ_PAGES"

definition frame :: "ne_t \<Rightarrow> nat \<Rightarrow> int set" where
  "frame ne q = {send_page ne q * DP_PAGESIZE..<send_page ne q * DP_PAGESIZE + 1514}"

text \<open>The layout: two send buffers, and behind them the receive ring, within the memory of
  the card.\<close>

definition layout_ok :: "ne_t \<Rightarrow> bool" where
  "layout_ok ne \<longleftrightarrow> length (sendq ne) = 2 \<and> (\<forall>q < 2. sendpage (sendq ne ! q) = send_page ne q) \<and>
     startaddr ne mod DP_PAGESIZE = 0 \<and> recv_startpage ne = send_page ne 2 \<and>
     recv_startpage ne < recv_stoppage ne \<and>
     recv_stoppage ne * DP_PAGESIZE = startaddr ne + ramsize ne \<and> recv_stoppage ne < 256"

lemma less2: "(\<forall>q < 2. P q) \<longleftrightarrow> P 0 \<and> P (Suc 0)" for P :: "nat \<Rightarrow> bool"
  by (auto simp: numeral_2_eq_2 less_Suc_eq)

lemma ne_layout_ok: "layout_ok (ne_layout ne)"
  by (simp add: layout_ok_def ne_layout_def send_page_def Let_def upt_rec less2)

section \<open>The send queue\<close>

text \<open>What the kernel and the card do: initialisation, packets and interrupts.  The numbers count
  the packets that the driver has accepted and the transmissions that the card has
  reported; the card reports a transmission only for a packet that it was given.\<close>

inductive ne_run :: "'d nic \<Rightarrow> nat \<Rightarrow> nat \<Rightarrow> ne_t \<Rightarrow> bool" for N where
  run_init: "ne_init N ne d = (ne', d') \<Longrightarrow> ne_run N 0 0 ne'"
| run_write: "ne_run N k j ne \<Longrightarrow> \<not> sendq_busy ne \<Longrightarrow> ne_pio_write N ne m a n d = Some (r, ne', d') \<Longrightarrow>
    ne_run N (k + 1) j ne'"
| run_busy: "ne_run N k j ne \<Longrightarrow> sendq_busy ne \<Longrightarrow> ne_pio_write N ne m a n d = Some (r, ne', d') \<Longrightarrow>
    ne_run N k j ne'"
| run_intr: "ne_run N k j ne \<Longrightarrow> isr AND 2 \<noteq> 0 \<Longrightarrow> j < k \<Longrightarrow> ne_run N k (j + 1) (ne_isr isr ne)"
| run_other: "ne_run N k j ne \<Longrightarrow> isr AND 2 = 0 \<Longrightarrow> ne_run N k j (ne_isr isr ne)"

text \<open>The buffers of the packets in flight, those behind the first \<open>j\<close> of \<open>k\<close>.\<close>

definition inflight :: "nat \<Rightarrow> nat \<Rightarrow> nat list" where
  "inflight k j = map (\<lambda>i. i mod 2) [j..<k]"

definition sendq_ok :: "nat \<Rightarrow> nat \<Rightarrow> ne_t \<Rightarrow> bool" where
  "sendq_ok k j ne \<longleftrightarrow> layout_ok ne \<and> j \<le> k \<and> k \<le> j + 2 \<and>
     sendq_head ne = of_nat k \<and> sendq_tail ne = of_nat (j + 1) \<and>
     (\<forall>q < 2. filled (sendq ne ! q) \<longleftrightarrow> q \<in> set (inflight k j))"

lemma sint_small: "k < 2 ^ 31 \<Longrightarrow> sint (of_nat k :: u32) = int k"
  by (simp add: signed_of_nat signed_take_bit_int_eq_self)

lemma sint_min: "sint (of_nat (2 ^ 31) :: u32) = - (2 ^ 31)"
  by simp

lemma crem_small: "k \<le> 2 ^ 31 \<Longrightarrow> crem (of_nat k) 2 = int (k mod 2)"
proof (cases "k = 2 ^ 31")
  case True
  then show ?thesis unfolding crem_def True sint_min by simp
next
  case False
  moreover assume "k \<le> 2 ^ 31"
  ultimately have "k < 2 ^ 31" by simp
  then show ?thesis unfolding crem_def by (simp only: sint_small) (simp add: zmod_int)
qed

text \<open>The buffers that are in flight, by the number of packets.\<close>

lemma inflight_cases:
  assumes "j \<le> k" and "k \<le> j + 2"
  shows "set (inflight k j) = (if k = j then {} else if k = j + 1 then {j mod 2} else {0, 1})"
proof -
  consider "k = j" | "k = j + 1" | "k = j + 2" using assms by linarith
  then show ?thesis
  proof cases
    case 3
    have "{j mod 2, Suc j mod 2} = {0, 1}" by (cases "even j") (auto simp: mod_Suc mod2_eq_if)
    then show ?thesis using 3 by (simp add: inflight_def upt_rec)
  qed (simp_all add: inflight_def)
qed

lemma inflight_next: "k \<le> j + 1 \<Longrightarrow> j \<le> k \<Longrightarrow> k mod 2 \<notin> set (inflight k j)"
proof -
  assume "k \<le> j + 1" "j \<le> k"
  then consider "k = j" | "k = j + 1" by linarith
  then show ?thesis by cases (auto simp: inflight_def mod_Suc)
qed

lemma inflight_put: "j \<le> k \<Longrightarrow> set (inflight (k + 1) j) = insert (k mod 2) (set (inflight k j))"
  by (simp add: inflight_def)

lemma inflight_done: "j < k \<Longrightarrow> k \<le> j + 2 \<Longrightarrow> set (inflight k (j + 1)) = set (inflight k j) - {j mod 2}"
proof -
  assume "j < k" "k \<le> j + 2"
  then consider "k = j + 1" | "k = j + 2" by linarith
  then show ?thesis by cases (auto simp: inflight_def upt_rec mod_Suc)
qed

lemma sendq_at_int: "sendq_at (int q) ne = sendq ne ! q"
  by (simp add: sendq_at_def)

lemma set_filled_ok:
  assumes "layout_ok ne" and "q < 2"
  shows "layout_ok (set_filled (int q) b ne)" "sendq_head (set_filled (int q) b ne) = sendq_head ne"
    "sendq_tail (set_filled (int q) b ne) = sendq_tail ne"
    "sendpage (sendq_at (int q) (set_filled (int q) b ne)) = send_page ne q"
    "\<forall>p < 2. filled (sendq (set_filled (int q) b ne) ! p) = (if p = q then b else filled (sendq ne ! p))"
proof -
  have l: "length (sendq ne) = 2" "q < length (sendq ne)" using assms by (simp_all add: layout_ok_def)
  have f: "set_filled (int q) b ne = ne\<lparr>sendq := (sendq ne)[q := (sendq ne ! q)\<lparr>filled := b\<rparr>]\<rparr>"
    by (simp add: set_filled_def)
  have "sendpage ((sendq ne)[q := (sendq ne ! q)\<lparr>filled := b\<rparr>] ! p) = sendpage (sendq ne ! p)" if "p < 2" for p
    using that l by (cases "p = q") simp_all
  then show "layout_ok (set_filled (int q) b ne)"
    using assms(1) unfolding f layout_ok_def by (simp add: send_page_def)
  show "sendq_head (set_filled (int q) b ne) = sendq_head ne" "sendq_tail (set_filled (int q) b ne) = sendq_tail ne"
    by (simp_all add: f)
  show "sendpage (sendq_at (int q) (set_filled (int q) b ne)) = send_page ne q"
    using assms l by (simp add: sendq_at_def f layout_ok_def)
  show "\<forall>p < 2. filled (sendq (set_filled (int q) b ne) ! p) = (if p = q then b else filled (sendq ne ! p))"
    using l by (simp add: f nth_list_update)
qed

text \<open>Up to the overflow of the counters a packet is refused exactly when two are in flight.\<close>

lemma sendq_busy_iff:
  assumes "sendq_ok k j ne" and "k \<le> 2 ^ 31 - 2"
  shows "sendq_busy ne \<longleftrightarrow> k = j + 2" and "sendq_slot ne = int (k mod 2)"
proof -
  have ok: "layout_ok ne" "j \<le> k" "k \<le> j + 2" "sendq_head ne = of_nat k" "sendq_tail ne = of_nat (j + 1)"
    "\<forall>q < 2. filled (sendq ne ! q) \<longleftrightarrow> q \<in> set (inflight k j)" using assms(1) by (simp_all add: sendq_ok_def)
  have k: "k < 2 ^ 31" "k \<le> 2 ^ 31" "j + 1 < 2 ^ 31" using assms(2) ok(2) by simp_all
  show slot: "sendq_slot ne = int (k mod 2)" unfolding sendq_slot_def ok(4) by (rule crem_small [OF k(2)])
  have c: "sint (sendq_head ne) > sint (sendq_tail ne) \<longleftrightarrow> k > j + 1"
    unfolding ok(4,5) by (simp only: sint_small [OF k(1)] sint_small [OF k(3)] of_nat_less_iff)
  have "filled (sendq_at (sendq_slot ne) ne) \<longleftrightarrow> k mod 2 \<in> set (inflight k j)"
    using ok(6) unfolding slot by (simp add: sendq_at_def)
  then show "sendq_busy ne \<longleftrightarrow> k = j + 2"
    unfolding sendq_busy_def c using inflight_next [of k j] ok(2,3) by (cases "k \<le> j + 1") auto
qed

lemma ne_start_xmit_base: "ne_start_xmit N (set_filled q b ne) p n d = ne_start_xmit N ne p n d"
  by (simp add: ne_start_xmit_def outs_def set_filled_def)

lemma sendq_put:
  assumes "sendq_ok k j ne" and "k \<le> 2 ^ 31 - 2" and "k < j + 2"
    and "ne_pio_write N ne m a n d = Some (r, ne', d')"
  shows "r = n" and "sendq_ok (k + 1) j ne'"
    and "\<exists>d1. ne_rdma_setup N ne CR_DM_RW (word_of_int (send_page ne (k mod 2) * DP_PAGESIZE)) n d = Some d1 \<and>
      d' = ne_start_xmit N ne (send_page ne (k mod 2)) n (ne_put_data N ne m a n d1)"
proof -
  have ok: "layout_ok ne" "j \<le> k" "sendq_head ne = of_nat k" "sendq_tail ne = of_nat (j + 1)"
    "\<forall>q < 2. filled (sendq ne ! q) \<longleftrightarrow> q \<in> set (inflight k j)" using assms(1) by (simp_all add: sendq_ok_def)
  have q: "k mod 2 < 2" by simp
  note f = set_filled_ok [OF ok(1) q, of True]
  have p: "sendpage (sendq ne ! (k mod 2)) = send_page ne (k mod 2)" using ok(1) q by (simp add: layout_ok_def)
  have "\<not> sendq_busy ne" using sendq_busy_iff(1) [OF assms(1,2)] assms(3) by simp
  then obtain d1 where d1: "ne_rdma_setup N ne CR_DM_RW (word_of_int (send_page ne (k mod 2) * DP_PAGESIZE)) n d = Some d1"
    and r: "r = n" and ne': "ne' = (set_filled (int (k mod 2)) True ne)\<lparr>sendq_head := sendq_head ne + 1\<rparr>"
    and d': "d' = ne_start_xmit N ne (send_page ne (k mod 2)) n (ne_put_data N ne m a n d1)"
    using assms(4) f(2,4) p
    by (auto simp: ne_pio_write_def sendq_busy_iff(2) [OF assms(1,2)] sendq_at_int Let_def ne_start_xmit_base)
  show "r = n" by (rule r)
  show "\<exists>d1. ne_rdma_setup N ne CR_DM_RW (word_of_int (send_page ne (k mod 2) * DP_PAGESIZE)) n d = Some d1 \<and>
      d' = ne_start_xmit N ne (send_page ne (k mod 2)) n (ne_put_data N ne m a n d1)"
    using d1 d' by blast
  have "layout_ok ne'" using f(1) by (simp add: ne' layout_ok_def send_page_def)
  moreover have "\<forall>p < 2. filled (sendq ne' ! p) \<longleftrightarrow> p \<in> set (inflight (k + 1) j)"
    using f(5) ok(5) by (simp add: ne' inflight_put [OF ok(2)] del: One_nat_def)
  ultimately show "sendq_ok (k + 1) j ne'" using ok f(2,3) assms(3) by (simp add: sendq_ok_def ne' add.commute)
qed

lemma sendq_done:
  assumes "sendq_ok k j ne" and "k < 2 ^ 31" and "j < k" and "isr AND 2 \<noteq> 0"
  shows "sendq_ok k (j + 1) (ne_isr isr ne)"
proof -
  have ok: "layout_ok ne" "k \<le> j + 2" "sendq_head ne = of_nat k" "sendq_tail ne = of_nat (j + 1)"
    "\<forall>q < 2. filled (sendq ne ! q) \<longleftrightarrow> q \<in> set (inflight k j)" using assms(1) by (simp_all add: sendq_ok_def)
  let ?ne = "ne\<lparr>sendq_tail := of_nat (j + 2)\<rparr>"
  have l: "layout_ok ?ne" using ok(1) by (simp add: layout_ok_def send_page_def)
  have q: "j mod 2 < 2" by simp
  note f = set_filled_ok [OF l q, of False]
  have "j + 2 \<le> 2 ^ 31" using assms(2,3) by simp
  from crem_small [OF this] have c: "crem (of_nat (j + 2)) 2 = int (j mod 2)" by simp
  have t: "sendq_tail ne + 1 = of_nat (j + 2)" using ok(4) by simp
  have eq: "ne_isr isr ne = set_filled (int (j mod 2)) False ?ne"
    unfolding ne_isr_def t using assms(4) c by (simp add: Let_def)
  have "\<forall>p < 2. filled (sendq (ne_isr isr ne) ! p) \<longleftrightarrow> p \<in> set (inflight k (j + 1))"
    using f(5) ok(5) assms(3) by (simp add: eq inflight_done [OF _ ok(2)] del: One_nat_def)
  then show ?thesis using f(1-3) ok assms(3) unfolding sendq_ok_def eq by simp
qed

lemma ne_run_ok: "ne_run N k j ne \<Longrightarrow> k < 2 ^ 31 \<Longrightarrow> sendq_ok k j ne"
proof (induction rule: ne_run.induct)
  case (run_init ne d ne' d')
  then have ne': "ne' = ne_layout ne" by (auto simp: ne_init_def Let_def)
  have "filled (sendq (ne_layout ne) ! 0) = False" "filled (sendq (ne_layout ne) ! 1) = False"
    "sendq_head (ne_layout ne) = 0" "sendq_tail (ne_layout ne) = 1"
    by (simp_all add: ne_layout_def Let_def upt_rec)
  then show ?case unfolding ne' sendq_ok_def using ne_layout_ok by (simp add: less2 inflight_def)
next
  case (run_write k j ne m a n d r ne' d')
  then have ok: "sendq_ok k j ne" "k \<le> 2 ^ 31 - 2" by simp_all
  then have "k < j + 2" using run_write(2) sendq_busy_iff(1) [OF ok] by (simp add: sendq_ok_def)
  with sendq_put(2) [OF ok _ run_write(3)] show ?case by simp
next
  case (run_busy k j ne m a n d r ne' d')
  then show ?case by (simp add: ne_pio_write_def)
next
  case (run_intr k j ne isr)
  then show ?case using sendq_done by blast
next
  case (run_other k j ne isr)
  then show ?case by (simp add: ne_isr_def)
qed

lemma frames_apart: "p < q \<Longrightarrow> frame ne p \<inter> frame ne q = {}"
  by (auto simp: frame_def send_page_def)


text \<open>A card that answers reads from a list of bytes, and from a list of words.\<close>

definition nic0 :: "(u8 list \<times> u16 list) nic" where
  "nic0 = \<lparr>n_in = \<lambda>p (bs, ws). (hd bs, tl bs, ws), n_inw = \<lambda>p (bs, ws). (hd ws, bs, tl ws),
     n_out = \<lambda>p v d. d, n_outw = \<lambda>p v d. d\<rparr>"

lemma nic0_simps [simp]:
  "n_in nic0 p (b # bs, ws) = (b, bs, ws)" "n_inw nic0 p (bs, w # ws) = (w, bs, ws)"
  "n_out nic0 p v d = d" "n_outw nic0 p x d = d"
  by (simp_all add: nic0_def)

lemma outs_nic0 [simp]: "outs nic0 ne seq d = d"
  by (induction seq arbitrary: d) (auto simp: outs_def)

lemma outsb_nic0 [simp]: "outsb nic0 p m a n d = d"
  by (induction n arbitrary: a d) auto

lemma nic0_setup:
  assumes "\<not> is16bit ne"
  shows "ne_rdma_setup nic0 ne 0x10 a n ([1, 0, 9, 9, 9, 9, 2, 0], ws) = Some ([], ws)"
proof -
  have "crda_loop nic0 ne 1 ([2, 0], ws) = Some ([], ws)"
    by (subst crda_loop.simps) (simp add: crda_def)
  then show ?thesis by (simp add: ne_rdma_setup_def rdma_start_def ne_getblock_def assms crda_def eval_nat_numeral)
qed

lemma nic0_write:
  assumes "\<not> is16bit ne" and "\<not> sendq_busy ne"
  shows "\<exists>ne'. ne_pio_write nic0 ne (\<lambda>_. 0) 0 60 ([1, 0, 9, 9, 9, 9, 2, 0], []) = Some (60, ne', ([], [])) \<and> \<not> is16bit ne'"
  using assms by (simp add: ne_pio_write_def nic0_setup Let_def ne_start_xmit_def ne_put_data_def set_filled_def)

text \<open>Packets one by one, each transmitted before the next.\<close>

lemma ne_run_idle: "k < 2 ^ 31 \<Longrightarrow> \<exists>ne. ne_run nic0 k k ne \<and> \<not> is16bit ne"
proof (induction k)
  case 0
  have "ne_run nic0 0 0 (ne_layout zero_ne)"
    by (rule run_init [of _ zero_ne "([], [])" _ "([], [])"]) (simp add: ne_init_def Let_def)
  moreover have "\<not> is16bit (ne_layout zero_ne)" by (simp add: ne_layout_def zero_ne_def Let_def)
  ultimately show ?case by blast
next
  case (Suc k)
  then obtain ne where ne: "ne_run nic0 k k ne" "\<not> is16bit ne" by auto
  have "\<not> sendq_busy ne" using sendq_busy_iff(1) [OF ne_run_ok [OF ne(1)]] Suc.prems by simp
  with nic0_write [OF ne(2)] obtain ne' where ne': "\<not> is16bit ne'" "ne_run nic0 (k + 1) k ne'"
    using run_write [OF ne(1)] by blast
  have "ne_run nic0 (k + 1) (k + 1) (ne_isr 2 ne')" by (rule run_intr [OF ne'(2)]) simp_all
  moreover have "\<not> is16bit (ne_isr 2 ne')" using ne'(1) by (simp add: ne_isr_def set_filled_def Let_def)
  ultimately show ?case by auto
qed


section \<open>Receiving into a buffer\<close>

lemma length_insb: "length (fst (insb N p n d)) = n"
  by (induction n arbitrary: d) (auto simp: case_prod_beta Let_def)

lemma length_insw: "length (fst (insw N p n d)) = 2 * n"
  by (induction n arbitrary: d) (auto simp: case_prod_beta Let_def)

lemma length_getblock: "length (fst (ne_getblock N ne a n d)) = (if is16bit ne then 2 * nat n else nat n)"
  by (simp add: ne_getblock_def Let_def length_insb length_insw)

lemma nat_sint: "w \<le> 1514 \<Longrightarrow> nat (sint w) = unat w" for w :: u32
proof -
  assume "w \<le> 1514"
  then have "unat w \<le> 1514" by (simp add: word_le_nat_alt)
  then have "sint (of_nat (unat w) :: u32) = int (unat w)"
    by (subst signed_of_nat) (simp add: signed_take_bit_int_eq_self del: of_nat_unat)
  moreover have "(of_nat (unat w) :: u32) = w" by simp
  ultimately show ?thesis by (metis nat_int)
qed

lemma split_sint:
  fixes rem pkt :: u32
  assumes "rem < pkt" and "pkt \<le> 1514"
  shows "nat (sint rem) + nat (sint (pkt - rem)) = nat (sint pkt)"
proof -
  have u: "unat (pkt - rem) = unat pkt - unat rem" "unat rem < unat pkt" "unat pkt \<le> 1514"
    using assms by (simp_all add: unat_sub word_le_nat_alt word_less_nat_alt)
  then have "rem \<le> 1514" "pkt - rem \<le> 1514" by (simp_all add: word_le_nat_alt)
  with assms(2) u show ?thesis by (simp add: nat_sint)
qed

lemma ne_copy_total:
  assumes "pkt \<le> 1514"
  shows "sum_list (map (\<lambda>(pos, xs). length xs) (fst (ne_copy N ne page pkt d))) =
    (if is16bit ne then 2 * nat (sint pkt) else nat (sint pkt))"
    and "\<forall>(pos, xs) \<in> set (fst (ne_copy N ne page pkt d)). pos = 0"
proof -
  show "sum_list (map (\<lambda>(pos, xs). length xs) (fst (ne_copy N ne page pkt d))) =
    (if is16bit ne then 2 * nat (sint pkt) else nat (sint pkt))"
  proof -
    define rem where "rem = (word_of_int (recv_stoppage ne) - page) * 256"
    have "rem < pkt \<Longrightarrow> 2 * nat (sint rem) + 2 * nat (sint (pkt - rem)) = 2 * nat (sint pkt)"
      using split_sint [OF _ assms, of rem] by linarith
    then show ?thesis using split_sint [OF _ assms, of rem]
      unfolding ne_copy_def rem_def [symmetric] by (simp add: Let_def case_prod_beta length_getblock)
  qed
  show "\<forall>(pos, xs) \<in> set (fst (ne_copy N ne page pkt d)). pos = 0"
    by (simp add: ne_copy_def Let_def case_prod_beta)
qed

lemma ne_pio_read_form:
  assumes "ne_pio_read N ne isnull bufsize d = (r, stores, d')" and "stores \<noteq> []"
  obtains pkt page d1 where "\<not> pkt < 60" and "\<not> pkt > (1514 :: u32)" and "r = sint pkt"
    and "stores = fst (ne_copy N ne page pkt d1)"
  using assms that unfolding ne_pio_read_def Let_def case_prod_beta by (simp only: split: if_splits) auto

text \<open>
  C35: \<^verbatim>\<open>ne_pio_read\<close> does not respect the buffer it is given.  The string instruction counts
  words where the driver counts bytes, so on a 16-bit card it stores twice as many bytes
  as the packet has and as it returns; and both parts of a packet that wraps around the
  end of the receive ring are stored at the start of the buffer.
\<close>

theorem ne_pio_read_overruns:
  assumes "ne_pio_read N ne isnull bufsize d = (r, stores, d')" and "stores \<noteq> []"
  shows "60 \<le> r \<and> (\<forall>(pos, xs) \<in> set stores. pos = 0) \<and>
    sum_list (map (\<lambda>(pos, xs). length xs) stores) = (if is16bit ne then 2 * nat r else nat r)"
  using assms
proof (rule ne_pio_read_form)
  fix pkt :: u32 and page d1
  assume "\<not> pkt < 60" "\<not> pkt > 1514" "r = sint pkt" and st: "stores = fst (ne_copy N ne page pkt d1)"
  then have p: "60 \<le> pkt" "pkt \<le> 1514" "r = sint pkt" by simp_all
  have "60 \<le> nat r" using p by (simp add: nat_sint word_le_nat_alt)
  then have "60 \<le> r" by simp
  with ne_copy_total [OF p(2), of N ne page d1] show ?thesis by (simp add: st p(3))
qed

definition ne16 :: ne_t where
  "ne16 = ne_layout (zero_ne\<lparr>is16bit := True\<rparr>)"

text \<open>A packet of 60 bytes in page 0x4D, with words for the header and for the packet.\<close>

theorem ne_pio_read_overruns_witness:
  "\<exists>stores d'. ne_pio_read nic0 ne16 False 60 ([0x50, 0x4C], [0x4E01, 0x0040] @ replicate 62 7) = (60, stores, d') \<and>
     sum_list (map (\<lambda>(pos, xs). length xs) stores) = 120"
proof -
  let ?r = "ne_pio_read nic0 ne16 False 60 ([0x50, 0x4C], [0x4E01, 0x0040] @ replicate 62 7)"
  have e: "fst ?r = 60 \<and> fst (snd ?r) \<noteq> []" by code_simp
  have w: "is16bit ne16" by code_simp
  obtain stores d' where eq: "?r = (60, stores, d')" and "stores \<noteq> []" using e by (cases ?r) auto
  from ne_pio_read_overruns [OF this] w have "sum_list (map (\<lambda>(pos, xs). length xs) stores) = 120" by simp
  with eq show ?thesis by blast
qed


end
