(* ===== verification/Grep.thy ===== *)
theory Grep
  imports Cstring
begin

text \<open>
  \<^verbatim>\<open>src/grep.c\<close>: the regular expression matcher, shown to decide a declarative semantics of
  its patterns, and the loop that cuts the input into lines.  Patterns and texts are
  lists of bytes without their final NUL.
\<close>

section \<open>The matcher\<close>

function (sequential) matchhere :: "u8 list \<Rightarrow> u8 list \<Rightarrow> bool"
  and matchstar :: "u8 \<Rightarrow> u8 list \<Rightarrow> u8 list \<Rightarrow> bool" where
  "matchhere [] tx = True"
| "matchhere (c # re) tx =
     (if re \<noteq> [] \<and> hd re = 42 then matchstar c (tl re) tx
      else if c = 36 \<and> re = [] then tx = []
      else if tx \<noteq> [] \<and> (c = 46 \<or> c = hd tx) then matchhere re (tl tx)
      else False)"
| "matchstar c re tx =
     (if matchhere re tx then True
      else if tx \<noteq> [] \<and> (hd tx = c \<or> c = 46) then matchstar c re (tl tx)
      else False)"
  by pat_completeness auto
termination
  by (relation "measures [\<lambda>x. case x of Inl (re, t) \<Rightarrow> 2 * length re | Inr (c, re, t) \<Rightarrow> 2 * length re + 1,
      \<lambda>x. case x of Inl (re, t) \<Rightarrow> length t | Inr (c, re, t) \<Rightarrow> length t]")
    (auto simp: neq_Nil_conv)

declare matchstar.simps [simp del]

text \<open>The loop of \<^verbatim>\<open>match\<close> over the suffixes of the text, the empty one included.\<close>

fun match_loop :: "u8 list \<Rightarrow> u8 list \<Rightarrow> bool" where
  "match_loop re [] = matchhere re []"
| "match_loop re (x # tx) = (if matchhere re (x # tx) then True else match_loop re tx)"

definition match :: "u8 list \<Rightarrow> u8 list \<Rightarrow> bool" where
  "match re tx = (if re \<noteq> [] \<and> hd re = 94 then matchhere (tl re) tx else match_loop re tx)"

section \<open>Semantics of patterns\<close>

text \<open>
  The words that a pattern describes, each with a mark that says whether it has to
  stand at the end of the text.
\<close>

definition ok_char :: "u8 \<Rightarrow> u8 \<Rightarrow> bool" where
  "ok_char c x \<longleftrightarrow> c = 46 \<or> c = x"

function (sequential) lang :: "u8 list \<Rightarrow> (u8 list \<times> bool) set" where
  "lang [] = {([], False)}"
| "lang [c] = (if c = 36 then {([], True)} else {([x], False) | x. ok_char c x})"
| "lang (c # d # re) =
     (if d = 42 then {(xs @ w, e) | xs w e. list_all (ok_char c) xs \<and> (w, e) \<in> lang re}
      else {(x # w, e) | x w e. ok_char c x \<and> (w, e) \<in> lang (d # re)})"
  by pat_completeness auto
termination
  by (relation "measure length") auto

text \<open>A pattern matches the text at the start of it, or anywhere in it.\<close>

definition matches_here :: "u8 list \<Rightarrow> u8 list \<Rightarrow> bool" where
  "matches_here re tx \<longleftrightarrow> (\<exists>w e post. tx = w @ post \<and> (w, e) \<in> lang re \<and> (e \<longrightarrow> post = []))"

definition matches :: "u8 list \<Rightarrow> u8 list \<Rightarrow> bool" where
  "matches re tx \<longleftrightarrow>
     (if re \<noteq> [] \<and> hd re = 94 then matches_here (tl re) tx
      else \<exists>pre suf. tx = pre @ suf \<and> matches_here re suf)"

lemma matches_hereI: "(w, e) \<in> lang re \<Longrightarrow> e \<longrightarrow> post = [] \<Longrightarrow> matches_here re (w @ post)"
  unfolding matches_here_def by blast

lemma matches_hereE:
  assumes "matches_here re tx"
  obtains w e post where "tx = w @ post" and "(w, e) \<in> lang re" and "e \<longrightarrow> post = []"
  using assms unfolding matches_here_def by blast

lemma matches_here_star:
  "matches_here (c # 42 # re) tx \<longleftrightarrow> (\<exists>xs ys. tx = xs @ ys \<and> list_all (ok_char c) xs \<and> matches_here re ys)"
proof
  assume "matches_here (c # 42 # re) tx"
  then obtain v e post where "tx = v @ post" and v: "(v, e) \<in> lang (c # 42 # re)" and p: "e \<longrightarrow> post = []"
    by (rule matches_hereE)
  moreover obtain xs w where "v = xs @ w" "list_all (ok_char c) xs" "(w, e) \<in> lang re" using v by auto
  ultimately show "\<exists>xs ys. tx = xs @ ys \<and> list_all (ok_char c) xs \<and> matches_here re ys"
    by (intro exI [of _ xs] exI [of _ "w @ post"]) (simp add: matches_hereI)
next
  assume "\<exists>xs ys. tx = xs @ ys \<and> list_all (ok_char c) xs \<and> matches_here re ys"
  then obtain xs ys where t: "tx = xs @ ys" "list_all (ok_char c) xs" and y0: "matches_here re ys" by blast
  from y0 obtain w e post where y: "ys = w @ post" "(w, e) \<in> lang re" "e \<longrightarrow> post = []" by (rule matches_hereE)
  have "(xs @ w, e) \<in> lang (c # 42 # re)" using t y by auto
  from matches_hereI [OF this y(3)] show "matches_here (c # 42 # re) tx" using t y by simp
qed

lemma matches_star_step:
  "(\<exists>xs ys. tx = xs @ ys \<and> list_all (ok_char c) xs \<and> matches_here re ys) \<longleftrightarrow>
     matches_here re tx \<or>
     (tx \<noteq> [] \<and> ok_char c (hd tx) \<and> (\<exists>xs ys. tl tx = xs @ ys \<and> list_all (ok_char c) xs \<and> matches_here re ys))"
proof (cases tx)
  case (Cons t ts)
  show ?thesis
  proof
    assume "\<exists>xs ys. tx = xs @ ys \<and> list_all (ok_char c) xs \<and> matches_here re ys"
    then obtain xs ys where "tx = xs @ ys" "list_all (ok_char c) xs" "matches_here re ys" by blast
    then show "matches_here re tx \<or> (tx \<noteq> [] \<and> ok_char c (hd tx) \<and>
        (\<exists>xs ys. tl tx = xs @ ys \<and> list_all (ok_char c) xs \<and> matches_here re ys))"
      using Cons by (cases xs) auto
  next
    assume "matches_here re tx \<or> (tx \<noteq> [] \<and> ok_char c (hd tx) \<and>
        (\<exists>xs ys. tl tx = xs @ ys \<and> list_all (ok_char c) xs \<and> matches_here re ys))"
    then show "\<exists>xs ys. tx = xs @ ys \<and> list_all (ok_char c) xs \<and> matches_here re ys"
    proof
      assume "matches_here re tx"
      then show ?thesis by (intro exI [of _ "[]"] exI [of _ tx]) simp
    next
      assume "tx \<noteq> [] \<and> ok_char c (hd tx) \<and>
        (\<exists>xs ys. tl tx = xs @ ys \<and> list_all (ok_char c) xs \<and> matches_here re ys)"
      then obtain xs ys where "ok_char c t" "ts = xs @ ys" "list_all (ok_char c) xs" "matches_here re ys"
        using Cons by auto
      then show ?thesis using Cons by (intro exI [of _ "t # xs"] exI [of _ ys]) simp
    qed
  qed
qed simp

lemma matches_here_one:
  assumes "\<not> (c = 36 \<and> re = [])" and "\<not> (re \<noteq> [] \<and> hd re = 42)"
  shows "matches_here (c # re) tx \<longleftrightarrow> tx \<noteq> [] \<and> ok_char c (hd tx) \<and> matches_here re (tl tx)"
proof -
  have l: "lang (c # re) = {(x # w, e) | x w e. ok_char c x \<and> (w, e) \<in> lang re}"
    using assms by (cases re) auto
  show ?thesis
  proof
    assume "matches_here (c # re) tx"
    then obtain v e post where "tx = v @ post" and "(v, e) \<in> lang (c # re)" and p: "e \<longrightarrow> post = []"
      by (rule matches_hereE)
    moreover then obtain x w where "v = x # w" "ok_char c x" "(w, e) \<in> lang re" unfolding l by auto
    ultimately show "tx \<noteq> [] \<and> ok_char c (hd tx) \<and> matches_here re (tl tx)" by (simp add: matches_hereI)
  next
    assume a: "tx \<noteq> [] \<and> ok_char c (hd tx) \<and> matches_here re (tl tx)"
    then have "matches_here re (tl tx)" by blast
    then obtain w e post where y: "tl tx = w @ post" "(w, e) \<in> lang re" "e \<longrightarrow> post = []" by (rule matches_hereE)
    have "(hd tx # w, e) \<in> lang (c # re)" using a y unfolding l by auto
    from matches_hereI [OF this y(3)] y(1) a show "matches_here (c # re) tx" by (cases tx) simp_all
  qed
qed

lemma matchhere_iff: "matchhere re tx \<longleftrightarrow> matches_here re tx"
  and matchstar_iff: "matchstar c re' tx' \<longleftrightarrow>
    (\<exists>xs ys. tx' = xs @ ys \<and> list_all (ok_char c) xs \<and> matches_here re' ys)"
proof (induction re tx and c re' tx' rule: matchhere_matchstar.induct)
  case (1 tx)
  then show ?case using matches_hereI [of "[]" False "[]" tx] by simp
next
  case (2 c re tx)
  consider "re \<noteq> [] \<and> hd re = 42" | "\<not> (re \<noteq> [] \<and> hd re = 42)" "c = 36 \<and> re = []"
    | "\<not> (re \<noteq> [] \<and> hd re = 42)" "\<not> (c = 36 \<and> re = [])" by blast
  then show ?case
  proof cases
    case 1
    then have "matches_here (c # re) tx \<longleftrightarrow>
        (\<exists>xs ys. tx = xs @ ys \<and> list_all (ok_char c) xs \<and> matches_here (tl re) ys)"
      using matches_here_star [of c "tl re" tx] by (cases re) auto
    with 2(1) [OF 1] show ?thesis using 1 by simp
  next
    case 2
    then show ?thesis by (simp add: matches_here_def) blast
  next
    case 3
    then show ?thesis using 2(2) matches_here_one [OF 3(2,1), of tx] by (auto simp: ok_char_def)
  qed
next
  case (3 c re tx)
  have ok: "(hd tx = c \<or> c = 46) \<longleftrightarrow> ok_char c (hd tx)" by (auto simp: ok_char_def)
  show ?case
  proof (cases "\<not> matches_here re tx \<and> tx \<noteq> [] \<and> ok_char c (hd tx)")
    case True
    then show ?thesis using 3 unfolding ok
      by (subst matches_star_step, subst matchstar.simps) (simp only: ok if_True if_False simp_thms)
  next
    case False
    then show ?thesis using 3(1)
      by (subst matches_star_step, subst matchstar.simps) (simp only: ok if_False if_True simp_thms split: if_split, blast)
  qed
qed

lemma match_loop_iff: "match_loop re tx \<longleftrightarrow> (\<exists>pre suf. tx = pre @ suf \<and> matches_here re suf)"
proof (induction tx)
  case Nil
  then show ?case by (simp add: matchhere_iff)
next
  case (Cons x tx)
  have "(\<exists>pre suf. x # tx = pre @ suf \<and> matches_here re suf) \<longleftrightarrow>
      matches_here re (x # tx) \<or> (\<exists>pre suf. tx = pre @ suf \<and> matches_here re suf)"
    by (auto simp: Cons_eq_append_conv)
  with Cons show ?case by (simp add: matchhere_iff)
qed

lemma match_iff: "match re tx \<longleftrightarrow> matches re tx"
  by (simp add: match_def matches_def matchhere_iff match_loop_iff)

text \<open>
  C13: the matcher of \<^verbatim>\<open>grep\<close> terminates and decides the semantics of its patterns: \<^verbatim>\<open>match\<close>
  returns true exactly if the text contains, at its start for a pattern with \<^verbatim>\<open>^\<close> and at its
  end for one with \<^verbatim>\<open>$\<close>, a word of the language of the pattern, where a dot stands for any
  character and a star for any number of repetitions.
\<close>

theorem grep_match_correct: "match re tx \<longleftrightarrow> matches re tx"
  by (rule match_iff)

section \<open>The input loop\<close>

text \<open>
  The loop of \<^verbatim>\<open>grep\<close> over the lines in the buffer, which stands at address \<open>b\<close>; \<open>p\<close> is the
  start of the next line.  It returns that start, the memory and what has been written.
  A newline that ends a line without a match stays replaced by a NUL.
\<close>

partial_function (option) grep_lines :: "u8 list \<Rightarrow> mem \<Rightarrow> addr \<Rightarrow> u8 list \<Rightarrow> (addr \<times> mem \<times> u8 list) option" where
  "grep_lines pat m p out =
     Option.bind (strchr m p 10) (\<lambda>q.
       if q = 0 then Some (p, m, out)
       else
         let line = bytes m p (q - p); m = m(q := 0) in
         if match pat line
         then (let m = m(q := 10) in grep_lines pat m (q + 1) (out @ bytes m p (q + 1 - p)))
         else grep_lines pat m (q + 1) out)"

text \<open>The outer loop; \<open>k\<close> is the variable \<^verbatim>\<open>m\<close> of the source, the number of bytes kept from
  earlier reads.  The third argument lists what the calls of \<^verbatim>\<open>read\<close> deliver; a read returns no
  more than the space that is left.  The loop ends with a read that delivers nothing,
  because of the end of the file or of an error.\<close>

definition grep_read :: "u8 list \<Rightarrow> addr \<Rightarrow> u8 list \<Rightarrow> int \<Rightarrow> mem \<Rightarrow> u8 list \<Rightarrow> (int \<times> mem \<times> u8 list) option" where
  "grep_read pat b xs k m out =
     (let m = put (nat (int b + k)) xs m; k = k + int (length xs) in
      Option.bind (grep_lines pat m b out) (\<lambda>(p, m, out).
        let k = (if p = b then 0 else k) in
        Some (if k > 0 then let k = k - (int p - int b) in (k, snd (ulib_memmove b p k m), out)
              else (k, m, out))))"

primrec grep :: "u8 list \<Rightarrow> addr \<Rightarrow> u8 list list \<Rightarrow> int \<Rightarrow> mem \<Rightarrow> u8 list \<Rightarrow> u8 list option" where
  "grep pat b [] k m out = Some out"
| "grep pat b (xs # reads) k m out =
     (let xs = take (nat (1024 - k)) xs in
      if xs = [] then Some out
      else Option.bind (grep_read pat b xs k m out) (\<lambda>(k, m, out). grep pat b reads k m out))"

section \<open>Lines\<close>

text \<open>A text is a list of lines, each with its newline, and what follows the last newline.\<close>

definition unlines :: "u8 list list \<Rightarrow> u8 list" where
  "unlines ls = concat (map (\<lambda>l. l @ [10]) ls)"

text \<open>What the loop leaves in the buffer of the lines it has seen.\<close>

definition marked :: "u8 list \<Rightarrow> u8 list list \<Rightarrow> u8 list" where
  "marked pat ls = concat (map (\<lambda>l. l @ [if match pat l then 10 else 0]) ls)"

lemma unlines_simps [simp]: "unlines [] = []" "unlines (l # ls) = l @ 10 # unlines ls"
  "marked pat [] = []" "marked pat (l # ls) = l @ (if match pat l then 10 else 0) # marked pat ls"
  by (simp_all add: unlines_def marked_def)

lemma length_marked [simp]: "length (marked pat ls) = length (unlines ls)"
  by (induction ls) simp_all

lemma first_newline: "10 \<notin> set l \<Longrightarrow> first_index (\<lambda>x. x = (10 :: u8)) (l @ 10 # xs) = Some (length l)"
  by (induction l) auto

lemma no_newline: "10 \<notin> set l \<Longrightarrow> first_index (\<lambda>x. x = (10 :: u8)) l = None"
  by (induction l) auto

lemma put_bytes_same: "bytes m p (length xs) = xs \<Longrightarrow> put p xs m = m"
  by (rule ext) (metis add_diff_inverse_nat bytes_nth less_diff_conv2 linorder_not_le put_apply add.commute)

lemma grep_lines_text:
  assumes "cstr m p (unlines ls @ rest)" and "\<forall>l \<in> set ls. 10 \<notin> set l" and "10 \<notin> set rest" and "0 < p"
  shows "grep_lines pat m p out =
    Some (p + length (unlines ls), put p (marked pat ls) m, out @ unlines (filter (match pat) ls))"
  using assms
proof (induction ls arbitrary: m p out)
  case Nil
  then show ?case by (subst grep_lines.simps) (simp add: strchr_cstr [OF Nil(1)] no_newline)
next
  case (Cons l ls)
  let ?q = "p + length l" and ?x = "if match pat l then 10 else 0 :: u8"
  have c: "bytes m p (length l) = l" "m ?q = 10" "cstr m (?q + 1) (unlines ls @ rest)"
    using Cons.prems(1) by (simp_all add: cstr_append)
  have q: "strchr m p 10 = Some ?q"
    using strchr_cstr [OF Cons.prems(1), of 10] Cons.prems(2) by (simp add: first_newline)
  let ?m = "m(?q := ?x)"
  have c': "cstr ?m (?q + 1) (unlines ls @ rest)" using c(3) by (subst cstr_cong [of _ _ _ m]) auto
  have ih: "grep_lines pat ?m (?q + 1) o' = Some (?q + 1 + length (unlines ls), put (?q + 1) (marked pat ls) ?m,
      o' @ unlines (filter (match pat) ls))" for o'
    by (rule Cons.IH [OF c']) (use Cons.prems in auto)
  have "put p (l @ [?x]) m = (put p l m)(?q := ?x)"
    by (rule ext) (auto simp: put_def nth_append)
  then have "put p (marked pat (l # ls)) m = put (?q + 1) (marked pat ls) ?m"
    using put_append [of p "l @ [?x]" "marked pat ls" m] put_bytes_same [OF c(1)] by simp
  moreover have "bytes (m(?q := 10)) p (length l + 1) = l @ [10]"
    using c(1) bytes_cong [of p "length l" "m(?q := 10)" m] by (simp add: bytes_snoc)
  ultimately show ?case using ih Cons.prems(4) c(1,2)
    by (subst grep_lines.simps) (auto simp: q Let_def)
qed

lemma grep_read_text:
  assumes "cstr (put (nat (int b + k)) xs m) b (unlines ls @ rest)" and "\<forall>l \<in> set ls. 10 \<notin> set l"
    and "10 \<notin> set rest" and "0 < b"
  shows "grep_read pat b xs k m out = (let m' = put b (marked pat ls) (put (nat (int b + k)) xs m);
      k' = (if ls = [] then 0 else k + int (length xs)); k'' = k' - int (length (unlines ls)) in
    Some (if k' > 0 then k'' else k', if k' > 0 then snd (ulib_memmove b (b + length (unlines ls)) k'' m') else m',
      out @ unlines (filter (match pat) ls)))"
proof -
  have "length (unlines ls) = 0 \<longleftrightarrow> ls = []" by (cases ls) auto
  then show ?thesis by (simp add: grep_read_def grep_lines_text [OF assms] Let_def)
qed

lemma cstr_put: "0 \<notin> set xs \<Longrightarrow> m (b + length xs) = 0 \<Longrightarrow> cstr (put b xs m) b xs"
  using cstr_append [of "put b xs m" b xs "[]"] by (simp add: bytes_put put_apply)

lemma put_put_short: "length xs \<le> length ys \<Longrightarrow> put b xs (put b ys m) = put b (xs @ drop (length xs) ys) m"
  by (rule ext) (auto simp: put_def nth_append)

lemma ulib_memmove_none: "n \<le> 0 \<Longrightarrow> ulib_memmove d s n m = (d, m)"
  by (simp add: ulib_memmove_def ulib_copy_up)

lemma grep_first_read:
  assumes "xs = unlines ls @ rest" and "\<forall>l \<in> set ls. 10 \<notin> set l" and "10 \<notin> set rest"
    and "0 \<notin> set xs" and "xs \<noteq> []" and "length xs \<le> 1024" and "m (b + length xs) = 0" and "0 < b"
  shows "grep pat b (xs # reads) 0 m out = (let m' = put b (marked pat ls @ rest) m in
    grep pat b reads (if ls = [] then 0 else int (length rest))
      (if ls = [] then m' else snd (ulib_memmove b (b + length (unlines ls)) (int (length rest)) m'))
      (out @ unlines (filter (match pat) ls)))"
proof -
  have "cstr (put b xs m) b (unlines ls @ rest)" using cstr_put [of xs m b] assms(1,4,7) by simp
  then have c: "cstr (put (nat (int b + 0)) xs m) b (unlines ls @ rest)" by simp
  have "put b (marked pat ls) (put b xs m) = put b (marked pat ls @ rest) m"
    using put_put_short [of "marked pat ls" xs b m] assms(1) by simp
  moreover have "length xs = length (unlines ls) + length rest" "ls \<noteq> [] \<Longrightarrow> 0 < int (length (unlines ls)) + int (length rest)"
    using assms(1) by (simp, cases ls) simp_all
  ultimately show ?thesis using grep_read_text [OF c assms(2,3,8), of pat out] assms(5,6)
    by (auto simp: Let_def)
qed

text \<open>
  C22: \<^verbatim>\<open>grep\<close> is correct on an input that arrives in one read.  For every text of at most 1024
  bytes without NUL bytes, read into a buffer in which a NUL byte follows it, the output is
  exactly the lines in the language of the pattern, in order and each with its newline; text
  behind the last newline is not looked at.
\<close>

theorem grep_one_read_correct:
  assumes "\<forall>l \<in> set ls. 10 \<notin> set l" and "10 \<notin> set rest" and "0 \<notin> set (unlines ls @ rest)"
    and "length (unlines ls @ rest) \<le> 1024" and "m (b + length (unlines ls @ rest)) = 0" and "0 < b"
  shows "grep pat b [unlines ls @ rest] 0 m [] = Some (unlines (filter (matches pat) ls))"
proof (cases "unlines ls @ rest = []")
  case True
  then have "ls = []" by (cases ls) auto
  with True show ?thesis by simp
next
  case False
  have "match pat = matches pat" by (rule ext) (rule match_iff)
  with grep_first_read [of "unlines ls @ rest" ls rest m b pat "[]" "[]"] assms False show ?thesis
    by (simp add: Let_def del: grep.simps(2))
qed

theorem grep_one_read_correct_witness:
  "grep [97] 100 [[97, 98, 10, 99, 10, 98, 97, 10, 97]] 0 (\<lambda>_. 0) [] = Some [97, 98, 10, 98, 97, 10]"
proof -
  have "match [97] [97, 98]" "\<not> match [97] [99]" "match [97] [98, 97]" by code_simp+
  then have "filter (matches [97]) [[97, 98], [99], [98, 97]] = [[97, 98], [98, 97]]" by (simp add: match_iff)
  then show ?thesis using grep_one_read_correct [of "[[97, 98], [99], [98, 97]]" "[97]" "\<lambda>_. 0" 100 "[97]"] by simp
qed



text \<open>
  C39: \<^verbatim>\<open>grep\<close> takes stale bytes of the buffer for input, since nothing marks the end of what a
  read has delivered.  When a read delivers a line \<open>u\<close> that matches, whose newline is put back,
  and the next read a shorter line \<open>v\<close>, the loop goes on behind \<open>v\<close> with the end of \<open>u\<close>, and writes it
  once more if it matches.  The count of kept bytes then becomes negative, so that the next
  read stores in front of the buffer.
\<close>

theorem grep_stale_lines:
  assumes "match pat u" and "length v < length u" and "10 \<notin> set u" and "10 \<notin> set v"
    and "0 \<notin> set u" and "0 \<notin> set v" and "length u < 1024" and "m (b + length u + 1) = 0" and "0 < b"
  shows "\<exists>m'. grep pat b ([u @ [10], v @ [10]] @ reads) 0 m [] =
    grep pat b reads (int (length v) - int (length u)) m'
      (unlines (u # filter (match pat) [v, drop (length v + 1) u]))"
proof -
  let ?w = "drop (length v + 1) u" and ?m = "put b (u @ [10]) m"
  have one: "grep pat b ((u @ [10]) # reads) 0 m out = grep pat b reads 0 ?m (out @ u @ [10])" for reads out
    using grep_first_read [of "u @ [10]" "[u]" "[]" m b pat reads out] assms
    by (simp add: Let_def ulib_memmove_none del: grep.simps)
  have "cstr ?m b (u @ [10])" by (rule cstr_put) (use assms in simp_all)
  have "put b (v @ [10]) ?m = put b (unlines [v, ?w] @ []) m"
    using put_put_short [of "v @ [10]" "u @ [10]" b m] assms(2) by simp
  moreover have "cstr (put b (unlines [v, ?w] @ []) m) b (unlines [v, ?w] @ [])"
    by (rule cstr_put) (use assms in \<open>auto dest: in_set_dropD\<close>)
  ultimately have c: "cstr (put (nat (int b + 0)) (v @ [10]) ?m) b (unlines [v, ?w] @ [])" by simp
  have "\<forall>l \<in> set [v, ?w]. 10 \<notin> set l" using assms(3,4) by (auto dest: in_set_dropD)
  from grep_read_text [OF c this _ assms(9), of pat] assms(2,7)
  show ?thesis unfolding append.simps one by (auto simp: Let_def one ulib_memmove_none assms(1))
qed

theorem grep_stale_lines_witness:
  "grep [97] 100 [[97, 98, 97, 10], [98, 10]] 0 (\<lambda>_. 0) [] = Some [97, 98, 97, 10, 97, 10]"
proof -
  have "match [97] [97, 98, 97]" "\<not> match [97] [98]" "match [97] [97]" by code_simp+
  then show ?thesis
    using grep_stale_lines [of "[97]" "[97, 98, 97]" "[98]" "\<lambda>_. 0" 100 "[]"] by simp
qed

end
