(* ===== verification/Files.thy ===== *)
theory Files
  imports Fs
begin

text \<open>
  Blocks of the file system of \<^verbatim>\<open>src/fs.c\<close>, on top of the contract of the buffer cache: the super
  block, the free-block bitmap with \<^verbatim>\<open>balloc\<close> and \<^verbatim>\<open>bfree\<close>, and the block map of an inode with \<^verbatim>\<open>bmap\<close>.
  \<open>fs_ok\<close> is the invariant of the disk, \<open>inode_ok\<close> that of an in-core inode; \<open>got_block\<close> says what a
  call of \<^verbatim>\<open>bmap\<close> may change.
\<close>


section \<open>Frames\<close>

text \<open>What file system code leaves alone besides the inode table, the cache and the disk.\<close>

definition fquiet :: "('z) kfs_scheme \<Rightarrow> ('z) kfs_scheme \<Rightarrow> bool" where
  "fquiet s t \<longleftrightarrow> kheap t = kheap s \<and> phys t = phys s \<and> cur t = cur s \<and> nextpid t = nextpid s \<and>
     initproc t = initproc s \<and> tframes t = tframes s \<and> ctxs t = ctxs s \<and>
     map calm (procs t) = map calm (procs s) \<and> kfs.more t = kfs.more s \<and> havedisk1 t = havedisk1 s"

lemma inodes_more: "kbuf.more t = kbuf.more s \<Longrightarrow> inodes t = inodes s \<and> kfs.more t = kfs.more s" for s t :: "('z) kfs_scheme"
  by (cases s; cases t) (simp add: kfs.defs)

section \<open>Block operations\<close>

text \<open>A step of code that has the buffers \<open>H\<close> throughout.\<close>

definition bstep :: "nat set \<Rightarrow> ('z) kbuf_scheme \<Rightarrow> ('z) kbuf_scheme \<Rightarrow> bool" where
  "bstep H s t \<longleftrightarrow> cache_ok H t \<and> bframe s t \<and> same_on bkey bval H s t"

lemma bstep_trans: "bstep H s t \<Longrightarrow> bstep H t u \<Longrightarrow> bstep H s u"
  using bc.frame_trans by (auto simp: bstep_def same_on_def)

lemma bstep_keys: "bstep H s t \<Longrightarrow> bkey t ` H = bkey s ` H"
  by (auto simp: bstep_def same_on_def image_def)

lemma bstep_sector: "bstep H s t \<Longrightarrow> sector_ok d n t = sector_ok d n s"
  by (simp add: bstep_def bframe_def sector_ok_def)

lemma access_block:
  assumes "cache_ok H s" and "card H < NBUF" and "(d, n) \<notin> bkey s ` H" and "sector_ok d n s"
  shows "\<exists>b t u. bread d n s = Ok b t \<and> bdata (bufs t b) = contents s (d, n) \<and> bframe s t \<and> brelse b t = Ok () u \<and>
    bstep H s u \<and> contents u = contents s"
  using bc.read_block [OF assms(1-3)] assms(4) by (simp add: bstep_def bval_def) blast

lemma modify_block:
  assumes "cache_ok H s" and "card H < NBUF" and "(d, n) \<notin> bkey s ` H" and "sector_ok d n s"
  shows "\<exists>b t u v. bread d n s = Ok b t \<and> bdata (bufs t b) = contents s (d, n) \<and> bframe s t \<and> bwrite b (upd_data b f t) = Ok () u \<and>
    brelse b u = Ok () v \<and> bstep H s v \<and> contents v = (contents s)((d, n) := f (contents s (d, n)))"
  using bc.update_block [OF assms(1-3)] assms(4) by (simp add: bstep_def bval_def) blast

lemma unat_of_nat32: "n < 2 ^ 32 \<Longrightarrow> unat (of_nat n :: u32) = n"
  by (simp add: unsigned_of_nat take_bit_nat_eq_self)

definition superblk :: "u32 \<Rightarrow> ('z) kbuf_scheme \<Rightarrow> superblock" where
  "superblk dev s = (let d = contents s (dev, 1) in \<lparr>sb_size = get32 0 d, sb_nblocks = get32 4 d, sb_ninodes = get32 8 d\<rparr>)"

lemma readsb_ok:
  assumes "cache_ok H s" and "card H < NBUF" and "(dev, 1) \<notin> bkey s ` H" and "sector_ok dev 1 s"
  shows "\<exists>t. readsb dev s = Ok (superblk dev s) t \<and> bstep H s t \<and> contents t = contents s"
  using access_block [OF assms] by (auto simp: readsb_def superblk_def Let_def)

lemma bzero_ok:
  assumes "cache_ok H s" and "card H < NBUF" and "(dev, n) \<notin> bkey s ` H" and "sector_ok dev n s"
  shows "\<exists>t. bzero dev n s = Ok () t \<and> bstep H s t \<and> contents t = (contents s)((dev, n) := replicate 512 0)"
  using modify_block [OF assms, of "\<lambda>_. replicate 512 0"] by (auto simp: bzero_def Let_def)

section \<open>The block bitmap\<close>

text \<open>The bitmap block and the bit of a block number, and whether the block is marked in use.\<close>

definition bmap_block :: "u32 \<Rightarrow> ('z) kbuf_scheme \<Rightarrow> nat \<Rightarrow> u32" where
  "bmap_block dev s b = of_nat (BBLOCK b (unat (sb_ninodes (superblk dev s))))"

definition in_use :: "u32 \<Rightarrow> ('z) kbuf_scheme \<Rightarrow> nat \<Rightarrow> bool" where
  "in_use dev s b = bit_set (contents s (dev, bmap_block dev s b)) (b mod BPB)"

text \<open>A disk whose super block gives a size that can be addressed.\<close>

definition geom_ok :: "u32 \<Rightarrow> ('z) kbuf_scheme \<Rightarrow> bool" where
  "geom_ok dev s \<longleftrightarrow> (dev = 0 \<or> dev = 1 \<and> havedisk1 s) \<and> unat (sb_size (superblk dev s)) < 2 ^ 27 \<and>
     unat (sb_ninodes (superblk dev s)) < 2 ^ 27 \<and> (\<forall>n. length (contents s (dev, n)) = BSIZE)"

text \<open>The blocks that have a bit in the bitmap.\<close>

definition nblk :: "u32 \<Rightarrow> ('z) kbuf_scheme \<Rightarrow> nat" where
  "nblk dev s = (unat (sb_size (superblk dev s)) + BPB - 1) div BPB * BPB"

lemma nblk_less: "geom_ok dev s \<Longrightarrow> nblk dev s < 2 ^ 28"
  unfolding nblk_def by (rule le_less_trans [OF div_times_less_eq_dividend]) (simp add: geom_ok_def)

lemma nblk_cong: "superblk dev t = superblk dev s \<Longrightarrow> nblk dev t = nblk dev s"
  by (simp add: nblk_def)

definition is_bitmap :: "u32 \<Rightarrow> ('z) kbuf_scheme \<Rightarrow> u32 \<Rightarrow> bool" where
  "is_bitmap dev s n \<longleftrightarrow> (\<exists>b < nblk dev s. n = bmap_block dev s b)"

lemma geom_sector:
  assumes "geom_ok dev s"
  shows "sector_ok dev 1 s" and "b < 2 ^ 28 \<Longrightarrow> sector_ok dev (bmap_block dev s b) s"
    and "b < 2 ^ 28 \<Longrightarrow> unat (bmap_block dev s b) = BBLOCK b (unat (sb_ninodes (superblk dev s)))"
proof -
  show "sector_ok dev 1 s" using assms by (simp add: geom_ok_def sector_ok_def)
  assume b: "b < 2 ^ 28"
  have "b div BPB < 65536" using b by (intro less_mult_imp_div_less) simp
  moreover have "unat (sb_ninodes (superblk dev s)) div IPB < 2 ^ 24"
    using assms by (intro less_mult_imp_div_less) (simp add: geom_ok_def)
  ultimately have lt: "b div BPB + unat (sb_ninodes (superblk dev s)) div IPB + 3 < 2 ^ 28" by simp
  then show u: "unat (bmap_block dev s b) = BBLOCK b (unat (sb_ninodes (superblk dev s)))"
    unfolding bmap_block_def BBLOCK_def by (intro unat_of_nat32) simp
  show "sector_ok dev (bmap_block dev s b) s"
    using assms u lt by (simp add: geom_ok_def sector_ok_def BBLOCK_def)
qed

lemma bit_set_update:
  assumes "length d = BSIZE" and "bi < BPB" and "k < BPB"
  shows "bit_set (d[bi div 8 := (d ! (bi div 8)) OR push_bit (bi mod 8) 1]) k \<longleftrightarrow> bit_set d k \<or> k = bi"
    and "bit_set (d[bi div 8 := (d ! (bi div 8)) AND NOT (push_bit (bi mod 8) 1)]) k \<longleftrightarrow> bit_set d k \<and> k \<noteq> bi"
proof -
  have l: "bi div 8 < length d" using assms(1,2) by (simp add: less_mult_imp_div_less)
  have eq: "k = bi \<longleftrightarrow> k div 8 = bi div 8 \<and> k mod 8 = bi mod 8" by (metis div_mult_mod_eq)
  have b: "bit (push_bit (bi mod 8) 1 :: u8) n \<longleftrightarrow> n = bi mod 8" for n
  proof -
    have "bi mod 8 < LENGTH(8)" by simp
    then show ?thesis unfolding push_bit_of_1 bit_exp_iff possible_bit_word by auto
  qed
  have k8: "possible_bit TYPE(u8) (k mod 8)" by (simp add: possible_bit_word)
  show "bit_set (d[bi div 8 := (d ! (bi div 8)) OR push_bit (bi mod 8) 1]) k \<longleftrightarrow> bit_set d k \<or> k = bi"
    "bit_set (d[bi div 8 := (d ! (bi div 8)) AND NOT (push_bit (bi mod 8) 1)]) k \<longleftrightarrow> bit_set d k \<and> k \<noteq> bi"
    unfolding bit_set_def eq using l k8
    by (cases "k div 8 = bi div 8"; simp only: nth_list_update_eq nth_list_update_neq bit_or_iff bit_and_iff bit_not_iff b simp_thms)+
qed

lemma balloc_bit_Some:
  assumes "balloc_bit d = Some bi"
  shows "bi < BPB" and "\<not> bit_set d bi" and "\<And>k. k < bi \<Longrightarrow> bit_set d k"
  using assms by (auto simp: balloc_bit_def find_Some_iff)

lemma balloc_bit_None: "balloc_bit d = None \<longleftrightarrow> (\<forall>k < BPB. bit_set d k)"
  by (auto simp: balloc_bit_def find_None_iff)

text \<open>Marking a block as used.\<close>

definition mark :: "nat \<Rightarrow> u8 list \<Rightarrow> u8 list" where
  "mark bi d = d[bi div 8 := (d ! (bi div 8)) OR push_bit (bi mod 8) 1]"

lemma bmap_block_add: "BPB dvd b \<Longrightarrow> k < BPB \<Longrightarrow> bmap_block dev s (b + k) = bmap_block dev s b"
  by (auto simp: bmap_block_def BBLOCK_def elim!: dvdE)

lemma superblk_cong: "contents t = contents s \<Longrightarrow> superblk dev t = superblk dev s"
  by (simp add: superblk_def)

lemma bmap_block_cong: "contents t = contents s \<Longrightarrow> bmap_block dev t = bmap_block dev s"
  using superblk_cong [of t s dev] by (simp add: bmap_block_def [abs_def])

lemma geom_ok_cong: "contents t = contents s \<Longrightarrow> havedisk1 t = havedisk1 s \<Longrightarrow> geom_ok dev t = geom_ok dev s"
  using superblk_cong [of t s dev] by (simp add: geom_ok_def)

lemma in_use_cong: "contents t = contents s \<Longrightarrow> in_use dev t = in_use dev s"
  using bmap_block_cong [of t s dev] by (simp add: in_use_def [abs_def])

lemma is_bitmap_cong: "contents t = contents s \<Longrightarrow> is_bitmap dev t = is_bitmap dev s"
  using bmap_block_cong [of t s dev] nblk_cong [OF superblk_cong, of t s dev] by (simp add: is_bitmap_def [abs_def])

lemma round_up:
  fixes b n :: nat
  assumes "m dvd b" and "0 < m"
  shows "b < n \<Longrightarrow> b + m \<le> (n + m - 1) div m * m" and "n \<le> b \<Longrightarrow> (n + m - 1) div m * m \<le> b"
proof -
  obtain q where q: "b = m * q" using assms(1) by (rule dvdE)
  show "b + m \<le> (n + m - 1) div m * m" if "b < n"
  proof -
    have "Suc q * m \<le> n + m - 1" using that q assms(2) by (simp add: mult.commute)
    then have "Suc q \<le> (n + m - 1) div m" using assms(2) by (simp add: less_eq_div_iff_mult_less_eq)
    then have "Suc q * m \<le> (n + m - 1) div m * m" by (rule mult_le_mono1)
    then show ?thesis using q by (simp add: mult.commute)
  qed
  show "(n + m - 1) div m * m \<le> b" if "n \<le> b"
  proof -
    have "n + m - 1 < Suc q * m" using that q assms(2) by (simp add: mult.commute)
    then have "(n + m - 1) div m \<le> q" using less_mult_imp_div_less [of "n + m - 1" "Suc q" m] by simp
    then show ?thesis using q by (metis mult.commute mult_le_mono1)
  qed
qed

lemma balloc_loop_ok:
  assumes "cache_ok H s" and "card H < NBUF" and "geom_ok dev s" and "BPB dvd b"
    and "\<forall>n. is_bitmap dev s n \<longrightarrow> (dev, n) \<notin> bkey s ` H"
    and "sb = superblk dev s" and "\<forall>k < b. in_use dev s k"
  shows "if \<exists>c < (unat (sb_size sb) + BPB - 1) div BPB * BPB. \<not> in_use dev s c
    then \<exists>c t. balloc_loop dev sb b s = Ok (of_nat c) t \<and> c < (unat (sb_size sb) + BPB - 1) div BPB * BPB \<and> \<not> in_use dev s c \<and> (\<forall>k < c. in_use dev s k) \<and>
      bstep H s t \<and> contents t = (contents s)((dev, bmap_block dev s c) := mark (c mod BPB) (contents s (dev, bmap_block dev s c)))
    else balloc_loop dev sb b s = Panic ''balloc: out of blocks''"
  using assms
proof (induction "unat (sb_size sb) - b" arbitrary: b s rule: less_induct)
  case less
  let ?R = "(unat (sb_size sb) + BPB - 1) div BPB * BPB" and ?n = "bmap_block dev s b"
  let ?d = "contents s (dev, ?n)"
  have sz: "unat (sb_size sb) < 2 ^ 27" using less.prems(3,6) by (simp add: geom_ok_def)
  have blk: "in_use dev s (b + k) \<longleftrightarrow> bit_set ?d k" "bmap_block dev s (b + k) = ?n" "(b + k) mod BPB = k" if "k < BPB" for k
    using that less.prems(4) by (auto simp: in_use_def bmap_block_add elim!: dvdE)
  show ?case
  proof (cases "b < unat (sb_size sb)")
    case False
    then have "?R \<le> b" using round_up(2) [OF less.prems(4)] by simp
    then have "\<not> (\<exists>c < ?R. \<not> in_use dev s c)" using less.prems(7) by (meson less_le_trans)
    moreover have "balloc_loop dev sb b s = Panic ''balloc: out of blocks''" using False by (subst balloc_loop.simps) simp
    ultimately show ?thesis by simp
  next
    case True
    have n: "of_nat (BBLOCK b (unat (sb_ninodes sb))) = ?n" using less.prems(6) by (simp add: bmap_block_def)
    have "is_bitmap dev s ?n" 
      using less.prems(6) True round_up(1) [OF less.prems(4)] by (auto simp: is_bitmap_def nblk_def intro!: exI [of _ b])
    then have k: "(dev, ?n) \<notin> bkey s ` H" using less.prems(5) by blast
    have so: "sector_ok dev ?n s" using geom_sector(2) [OF less.prems(3)] True sz by simp
    have R: "b + BPB \<le> ?R" using round_up(1) [OF less.prems(4)] True by simp
    show ?thesis
    proof (cases "balloc_bit ?d")
      case (Some bi)
      note bi = balloc_bit_Some [OF Some]
      from modify_block [OF less.prems(1,2) k so, of "mark bi"] obtain bp t u v where
        t: "bread dev ?n s = Ok bp t" "bdata (bufs t bp) = ?d" "bwrite bp (upd_data bp (mark bi) t) = Ok () u" "brelse bp u = Ok () v"
          "bstep H s v" "contents v = (contents s)((dev, ?n) := mark bi ?d)" by blast
      have "balloc_loop dev sb b s = Ok (of_nat (b + bi)) v"
        using True n Some t(1-4) by (subst balloc_loop.simps) (simp add: mark_def [abs_def])
      moreover have "in_use dev s k" if "k < b + bi" for k
        using that less.prems(7) bi(3) [of "k - b"] blk(1) [of "k - b"] bi(1) by (cases "k < b") auto
      moreover have "\<not> in_use dev s (b + bi)" "b + bi < ?R"
        using bi blk(1) R True by auto
      moreover have "\<exists>c < ?R. \<not> in_use dev s c" using calculation(3,4) by blast
      ultimately show ?thesis using t(5,6) blk(2,3) [OF bi(1)]
        by (simp only: if_True) (intro exI [of _ "b + bi"] exI [of _ v], simp)
    next
      case None
      from access_block [OF less.prems(1,2) k so] obtain bp t u where
        t: "bread dev ?n s = Ok bp t" "bdata (bufs t bp) = ?d" "brelse bp t = Ok () u" "bstep H s u" "contents u = contents s" by blast
      have e: "balloc_loop dev sb b s = balloc_loop dev sb (b + BPB) u"
        using True n None t(1-3) by (subst balloc_loop.simps) simp
      have all: "\<forall>k < b + BPB. in_use dev s k"
      proof (intro allI impI)
        fix k assume "k < b + BPB"
        then show "in_use dev s k" using less.prems(7) None blk(1) [of "k - b"] by (cases "k < b") (auto simp: balloc_bit_None)
      qed
      note cong = in_use_cong [OF t(5)] is_bitmap_cong [OF t(5)] superblk_cong [OF t(5)] bmap_block_cong [OF t(5)] bstep_keys [OF t(4)]
      have "geom_ok dev u" using less.prems(3) t(4,5) geom_ok_cong [of u s] by (simp add: bstep_def bframe_def)
      moreover have "cache_ok H u" using t(4) by (simp add: bstep_def)
      ultimately have "if \<exists>c < ?R. \<not> in_use dev u c
        then \<exists>c v. balloc_loop dev sb (b + BPB) u = Ok (of_nat c) v \<and> c < (unat (sb_size sb) + BPB - 1) div BPB * BPB \<and> \<not> in_use dev u c \<and> (\<forall>k < c. in_use dev u k) \<and>
          bstep H u v \<and> contents v = (contents u)((dev, bmap_block dev u c) := mark (c mod BPB) (contents u (dev, bmap_block dev u c)))
        else balloc_loop dev sb (b + BPB) u = Panic ''balloc: out of blocks''"
        using less.prems all True by (intro less.hyps) (simp_all add: cong)
      then show ?thesis unfolding cong e t(5) using bstep_trans [OF t(4)] by (auto split: if_splits)
    qed
  qed
qed


text \<open>The buffers in use stand neither for the super block nor for a bitmap block.\<close>

definition clear_of_meta :: "nat set \<Rightarrow> u32 \<Rightarrow> ('z) kbuf_scheme \<Rightarrow> bool" where
  "clear_of_meta H dev s \<longleftrightarrow> (dev, 1) \<notin> bkey s ` H \<and> (\<forall>n. is_bitmap dev s n \<longrightarrow> (dev, n) \<notin> bkey s ` H)"

lemma balloc_ok:
  assumes "cache_ok H s" and "card H < NBUF" and "geom_ok dev s" and "clear_of_meta H dev s"
  shows "if \<exists>c < nblk dev s. \<not> in_use dev s c
    then \<exists>c t. balloc dev s = Ok (of_nat c) t \<and> c < nblk dev s \<and> \<not> in_use dev s c \<and> (\<forall>k < c. in_use dev s k) \<and>
      bstep H s t \<and> contents t = (contents s)((dev, bmap_block dev s c) := mark (c mod BPB) (contents s (dev, bmap_block dev s c)))
    else balloc dev s = Panic ''balloc: out of blocks''"
proof -
  from readsb_ok [OF assms(1,2), of dev] assms(4) geom_sector(1) [OF assms(3)] obtain t where
    t: "readsb dev s = Ok (superblk dev s) t" "bstep H s t" "contents t = contents s" by (auto simp: clear_of_meta_def)
  note cong = in_use_cong [OF t(3)] superblk_cong [OF t(3)] bmap_block_cong [OF t(3)]
  have g: "geom_ok dev t" "cache_ok H t" using assms(3) t(2,3) geom_ok_cong [of t s] by (simp_all add: bstep_def bframe_def)
  have m: "\<forall>n. is_bitmap dev t n \<longrightarrow> (dev, n) \<notin> bkey t ` H"
    using assms(4) is_bitmap_cong [OF t(3)] bstep_keys [OF t(2)] by (simp add: clear_of_meta_def)
  have "balloc dev s = balloc_loop dev (superblk dev s) 0 t" using t(1) by (simp add: balloc_def)
  then show ?thesis
    using balloc_loop_ok [OF g(2) assms(2) g(1) _ m, of 0 "superblk dev s"] bstep_trans [OF t(2)] unfolding cong t(3) nblk_def
    by (simp del: balloc_loop.simps split: if_splits) blast
qed

lemma mark_length [simp]: "length (mark bi d) = length d"
  by (simp add: mark_def)

lemma bmap_block_gt:
  assumes "geom_ok dev s" and "b < 2 ^ 28"
  shows "bmap_block dev s b \<noteq> 1"
proof -
  have "3 \<le> unat (bmap_block dev s b)" using geom_sector(3) [OF assms] by (simp add: BBLOCK_def)
  then show ?thesis by auto
qed

lemma bmap_block_eq:
  assumes "geom_ok dev s" and "b < 2 ^ 28" and "c < 2 ^ 28"
  shows "bmap_block dev s b = bmap_block dev s c \<longleftrightarrow> b div BPB = c div BPB"
  using geom_sector(3) [OF assms(1,2)] geom_sector(3) [OF assms(1,3)] by (auto simp: BBLOCK_def word_unat_eq_iff)

text \<open>Changing bitmap blocks bit by bit.\<close>

lemma change_bit:
  assumes "geom_ok dev s" and "c < 2 ^ 28" and "havedisk1 t = havedisk1 s"
    and "contents t = (contents s)((dev, bmap_block dev s c) := d)" and "length d = BSIZE"
    and "\<And>k. k < BPB \<Longrightarrow> bit_set d k = (if k = c mod BPB then v else bit_set (contents s (dev, bmap_block dev s c)) k)"
  shows "superblk dev t = superblk dev s" and "geom_ok dev t" and "bmap_block dev t = bmap_block dev s"
    and "\<And>k. k < 2 ^ 28 \<Longrightarrow> in_use dev t k = (if k = c then v else in_use dev s k)"
proof -
  have "contents t (dev, 1) = contents s (dev, 1)" using assms(4) bmap_block_gt [OF assms(1,2)] by simp
  then show sb: "superblk dev t = superblk dev s" by (simp add: superblk_def)
  then show bb: "bmap_block dev t = bmap_block dev s" by (simp add: bmap_block_def [abs_def])
  show "geom_ok dev t" using assms(1,3-5) sb by (simp add: geom_ok_def)
  fix k :: nat assume k: "k < 2 ^ 28"
  show "in_use dev t k = (if k = c then v else in_use dev s k)"
  proof (cases "k div BPB = c div BPB")
    case True
    then have "bmap_block dev s k = bmap_block dev s c" using bmap_block_eq [OF assms(1) k assms(2)] by simp
    moreover have "k = c \<longleftrightarrow> k mod BPB = c mod BPB" using True by (metis div_mult_mod_eq)
    ultimately show ?thesis using assms(4,6) bb by (simp add: in_use_def)
  next
    case False
    then show ?thesis using bmap_block_eq [OF assms(1) k assms(2)] assms(4) bb by (auto simp: in_use_def)
  qed
qed

lemma clear_of_meta_cong:
  "superblk dev t = superblk dev s \<Longrightarrow> bmap_block dev t = bmap_block dev s \<Longrightarrow> bkey t ` H = bkey s ` H \<Longrightarrow>
   clear_of_meta H dev t = clear_of_meta H dev s"
  using nblk_cong [of dev t s] by (simp add: clear_of_meta_def is_bitmap_def)

definition unmark :: "nat \<Rightarrow> u8 list \<Rightarrow> u8 list" where
  "unmark bi d = d[bi div 8 := (d ! (bi div 8)) AND NOT (push_bit (bi mod 8) 1)]"

lemma bit_set_mark: "length d = BSIZE \<Longrightarrow> k < BPB \<Longrightarrow> bit_set (mark (c mod BPB) d) k = (if k = c mod BPB then True else bit_set d k)"
  by (simp add: mark_def bit_set_update(1) del: push_bit_of_1)

lemma bit_set_unmark: "length d = BSIZE \<Longrightarrow> k < BPB \<Longrightarrow> bit_set (unmark (c mod BPB) d) k = (if k = c mod BPB then False else bit_set d k)"
  by (simp add: unmark_def bit_set_update(2) del: push_bit_of_1)

lemma unmark_length [simp]: "length (unmark bi d) = length d"
  by (simp add: unmark_def)

lemma bfree_ok:
  assumes "cache_ok H s" and "card H < NBUF" and "geom_ok dev s" and "clear_of_meta H dev s"
    and b: "unat b < nblk dev s" "b \<noteq> 1" "\<not> is_bitmap dev s b" "(dev, b) \<notin> bkey s ` H"
  shows "if in_use dev s (unat b)
    then \<exists>t. bfree dev b s = Ok () t \<and> bstep H s t \<and> superblk dev t = superblk dev s \<and> geom_ok dev t \<and>
      (\<forall>k < nblk dev s. in_use dev t k \<longleftrightarrow> in_use dev s k \<and> k \<noteq> unat b) \<and> contents t (dev, b) = replicate 512 0 \<and>
      (\<forall>d n. (d, n) \<noteq> (dev, b) \<and> (d, n) \<noteq> (dev, bmap_block dev s (unat b)) \<longrightarrow> contents t (d, n) = contents s (d, n))
    else bfree dev b s = Panic ''freeing free block''"
proof -
  have b28: "unat b < 2 ^ 28" "sector_ok dev b s" using b(1) nblk_less [OF assms(3)] assms(3) by (simp_all add: geom_ok_def sector_ok_def)
  let ?m = "bmap_block dev s (unat b)" let ?bi = "unat b mod BPB"
  have bm: "is_bitmap dev s ?m" using b(1) by (auto simp: is_bitmap_def)
  from bzero_ok [OF assms(1,2) b(4) b28(2)] obtain t where
    t: "bzero dev b s = Ok () t" "bstep H s t" "contents t = (contents s)((dev, b) := replicate 512 0)" by blast
  have sb: "superblk dev t = superblk dev s" using t(3) b(2) by (simp add: superblk_def)
  then have bb: "bmap_block dev t = bmap_block dev s" by (simp add: bmap_block_def [abs_def])
  have g: "geom_ok dev t" "cache_ok H t" using assms(3) t(2,3) sb by (auto simp: geom_ok_def bstep_def bframe_def)
  have cl: "clear_of_meta H dev t" using assms(4) clear_of_meta_cong [OF sb bb bstep_keys [OF t(2)]] by simp
  have iu: "in_use dev t k = in_use dev s k" if "k < nblk dev s" for k
  proof -
    have "bmap_block dev s k \<noteq> b" using b(3) that by (auto simp: is_bitmap_def)
    then show ?thesis using t(3) bb by (simp add: in_use_def)
  qed
  from readsb_ok [OF g(2) assms(2), of dev] cl geom_sector(1) [OF g(1)] obtain u where
    u: "readsb dev t = Ok (superblk dev s) u" "bstep H t u" "contents u = contents t" using sb by (auto simp: clear_of_meta_def)
  have gu: "geom_ok dev u" "cache_ok H u" using g(1) u(2,3) geom_ok_cong [of u t] by (simp_all add: bstep_def bframe_def)
  have m: "(dev, ?m) \<notin> bkey u ` H"
    using cl bm bstep_keys [OF u(2)] nblk_cong [OF sb] bb by (simp add: clear_of_meta_def is_bitmap_def)
  have so: "sector_ok dev ?m u"
    using geom_sector(2) [OF gu(1) b28(1)] bmap_block_cong [OF u(3)] bb by simp
  have su: "bstep H s u" "contents u (dev, ?m) = contents s (dev, ?m)"
    using bstep_trans [OF t(2) u(2)] b(3) bm t(3) u(3) by auto
  have mn: "of_nat (BBLOCK (unat b) (unat (sb_ninodes (superblk dev s)))) = ?m" by (simp add: bmap_block_def)
  show ?thesis
  proof (cases "in_use dev s (unat b)")
    case False
    from access_block [OF gu(2) assms(2) m so] obtain bp v where "bread dev ?m u = Ok bp v" "bdata (bufs v bp) = contents s (dev, ?m)"
      using su(2) by auto
    then have "bfree dev b s = Panic ''freeing free block''"
      using t(1) u(1) False mn by (simp add: bfree_def in_use_def Let_def)
    with False show ?thesis by simp
  next
    case True
    from modify_block [OF gu(2) assms(2) m so, of "unmark ?bi"] obtain bp v w x where
      v: "bread dev ?m u = Ok bp v" "bdata (bufs v bp) = contents s (dev, ?m)" "bwrite bp (upd_data bp (unmark ?bi) v) = Ok () w"
        "brelse bp w = Ok () x" "bstep H u x" "contents x = (contents u)((dev, ?m) := unmark ?bi (contents s (dev, ?m)))"
      using su(2) by auto
    have "bfree dev b s = Ok () x"
      using t(1) u(1) v(1-4) True mn by (simp add: bfree_def in_use_def Let_def unmark_def [abs_def])
    moreover have "bstep H s x" by (rule bstep_trans [OF su(1) v(5)])
    moreover have ch: "superblk dev x = superblk dev u \<and> geom_ok dev x \<and> (\<forall>k < 2 ^ 28. in_use dev x k = (if k = unat b then False else in_use dev u k))"
    proof -
      have l: "length (contents u (dev, ?m)) = BSIZE" using gu(1) by (simp add: geom_ok_def)
      have mu: "bmap_block dev u (unat b) = ?m" using bmap_block_cong [OF u(3)] bb by simp
      have "contents x = (contents u)((dev, bmap_block dev u (unat b)) := unmark ?bi (contents u (dev, ?m)))"
        using v(6) su(2) mu by simp
      moreover have "havedisk1 x = havedisk1 u" using v(5) by (simp add: bstep_def bframe_def)
      moreover have "bit_set (unmark ?bi (contents u (dev, ?m))) k = (if k = ?bi then False else bit_set (contents u (dev, bmap_block dev u (unat b))) k)"
        if "k < BPB" for k using bit_set_unmark [OF l] that mu by simp
      ultimately show ?thesis using change_bit [OF gu(1) b28(1), of x "unmark ?bi (contents u (dev, ?m))" False] l by simp
    qed
    moreover have "superblk dev u = superblk dev s" using superblk_cong [OF u(3)] sb by simp
    moreover have "in_use dev u k = in_use dev s k" if "k < nblk dev s" for k
      using iu [OF that] in_use_cong [OF u(3)] by simp
    moreover have "nblk dev s < 2 ^ 28" by (rule nblk_less [OF assms(3)])
    moreover have "contents x (dev, b) = replicate 512 0" using v(6) u(3) t(3) bm b(3) by auto
    moreover have "\<forall>d n. (d, n) \<noteq> (dev, b) \<and> (d, n) \<noteq> (dev, ?m) \<longrightarrow> contents x (d, n) = contents s (d, n)"
      using v(6) u(3) t(3) by simp
    ultimately show ?thesis using True by (intro if_P [THEN iffD2]) auto
  qed
qed


section \<open>Consistent file systems\<close>

text \<open>The last block of the boot block, super block, inodes and bitmap.\<close>

definition last_meta :: "u32 \<Rightarrow> ('z) kbuf_scheme \<Rightarrow> nat" where
  "last_meta dev s = BBLOCK (nblk dev s - 1) (unat (sb_ninodes (superblk dev s)))"

text \<open>The blocks with structural information are marked as used, and the blocks that are not are zero.\<close>

definition fs_ok :: "u32 \<Rightarrow> ('z) kbuf_scheme \<Rightarrow> bool" where
  "fs_ok dev s \<longleftrightarrow> geom_ok dev s \<and> (\<forall>k \<le> last_meta dev s. in_use dev s k) \<and>
     (\<forall>c < nblk dev s. \<not> in_use dev s c \<longrightarrow> contents s (dev, of_nat c) = replicate BSIZE 0)"

definition nfree :: "u32 \<Rightarrow> ('z) kbuf_scheme \<Rightarrow> nat" where
  "nfree dev s = card {c. c < nblk dev s \<and> \<not> in_use dev s c}"

text \<open>A data block in use.\<close>

definition addr_ok :: "u32 \<Rightarrow> ('z) kbuf_scheme \<Rightarrow> u32 \<Rightarrow> bool" where
  "addr_ok dev s a \<longleftrightarrow> last_meta dev s < unat a \<and> unat a < nblk dev s \<and> in_use dev s (unat a)"

lemma bitmap_meta: "geom_ok dev s \<Longrightarrow> is_bitmap dev s n \<Longrightarrow> unat n \<le> last_meta dev s"
proof -
  assume g: "geom_ok dev s" and "is_bitmap dev s n"
  then obtain b where b: "b < nblk dev s" "n = bmap_block dev s b" by (auto simp: is_bitmap_def nblk_def)
  have "unat n = BBLOCK b (unat (sb_ninodes (superblk dev s)))" using geom_sector(3) [OF g, of b] b nblk_less [OF g] by simp
  also have "\<dots> \<le> last_meta dev s" using b(1) by (simp add: last_meta_def BBLOCK_def nblk_def div_le_mono)
  finally show ?thesis .
qed

lemma meta_ge: "3 \<le> last_meta dev s"
  by (simp add: last_meta_def BBLOCK_def)

lemma addr_okD:
  assumes "geom_ok dev s" and "addr_ok dev s a"
  shows "a \<noteq> 0" "a \<noteq> 1" "\<not> is_bitmap dev s a" "sector_ok dev a s"
proof -
  have m: "3 < unat a" using assms(2) meta_ge [of dev s] by (simp add: addr_ok_def)
  then show "a \<noteq> 0" "a \<noteq> 1" by auto
  show "\<not> is_bitmap dev s a" using bitmap_meta [OF assms(1), of a] assms(2) by (auto simp: addr_ok_def)
  show "sector_ok dev a s" using assms nblk_less [OF assms(1)] by (simp add: addr_ok_def sector_ok_def geom_ok_def)
qed

lemma is_bitmap_super: "superblk dev t = superblk dev s \<Longrightarrow> is_bitmap dev t = is_bitmap dev s"
  using nblk_cong [of dev t s] by (simp add: is_bitmap_def [abs_def] bmap_block_def)

text \<open>All blocks but those of the bitmap are the same.\<close>

definition data_same :: "u32 \<Rightarrow> ('z) kbuf_scheme \<Rightarrow> ('z) kbuf_scheme \<Rightarrow> bool" where
  "data_same dev s t \<longleftrightarrow> superblk dev t = superblk dev s \<and>
     (\<forall>d n. d \<noteq> dev \<or> \<not> is_bitmap dev s n \<longrightarrow> contents t (d, n) = contents s (d, n))"

lemma fs_balloc:
  assumes "cache_ok H s" and "card H < NBUF" and "fs_ok dev s" and "clear_of_meta H dev s" and "0 < nfree dev s"
  shows "\<exists>a t. balloc dev s = Ok a t \<and> bstep H s t \<and> fs_ok dev t \<and> addr_ok dev t a \<and> \<not> in_use dev s (unat a) \<and>
    contents t (dev, a) = replicate BSIZE 0 \<and> data_same dev s t \<and> nfree dev t = nfree dev s - 1 \<and>
    (\<forall>k < nblk dev s. in_use dev t k \<longleftrightarrow> in_use dev s k \<or> k = unat a)"
proof -
  let ?R = "nblk dev s"
  have g: "geom_ok dev s" using assms(3) by (simp add: fs_ok_def)
  have "{c. c < ?R \<and> \<not> in_use dev s c} \<noteq> {}" using assms(5) unfolding nfree_def card_gt_0_iff by simp
  then obtain c0 where c0: "c0 < ?R" "\<not> in_use dev s c0" by blast
  then have "\<exists>c < ?R. \<not> in_use dev s c" by blast
  with balloc_ok [OF assms(1,2) g assms(4)] obtain c t where
    c: "balloc dev s = Ok (of_nat c) t" "c < nblk dev s" "\<not> in_use dev s c" "\<forall>k < c. in_use dev s k" "bstep H s t"
      "contents t = (contents s)((dev, bmap_block dev s c) := mark (c mod BPB) (contents s (dev, bmap_block dev s c)))"
    unfolding nblk_def by auto
  have c28: "c < 2 ^ 28" using c(2) nblk_less [OF g] by simp
  then have uc: "unat (of_nat c :: u32) = c" by (intro unat_of_nat32) simp
  have l: "length (contents s (dev, bmap_block dev s c)) = BSIZE" using g by (simp add: geom_ok_def)
  have hd: "havedisk1 t = havedisk1 s" using c(5) by (simp add: bstep_def bframe_def)
  note ch = change_bit [OF g c28 hd c(6) _ bit_set_mark [OF l], simplified]
  have ch: "superblk dev t = superblk dev s" "geom_ok dev t" "bmap_block dev t = bmap_block dev s"
    "\<And>k. k < 2 ^ 28 \<Longrightarrow> in_use dev t k = (if k = c then True else in_use dev s k)"
    using ch l by simp_all
  have meta: "last_meta dev t = last_meta dev s" "nblk dev t = nblk dev s" using ch(1) by (simp_all add: last_meta_def nblk_def)
  have lm: "last_meta dev s < c" using assms(3) c(3) by (meson fs_ok_def not_le)
  have bm: "is_bitmap dev s (bmap_block dev s c)" using c(2) by (auto simp: is_bitmap_def nblk_def)
  have same: "data_same dev s t" using c(6) ch(1) bm by (auto simp: data_same_def)
  have dat: "contents t (dev, of_nat k) = contents s (dev, of_nat k)" if "last_meta dev s < k" "k < nblk dev s" for k
    using same that nblk_less [OF g] unat_of_nat32 [of k] bitmap_meta [OF g, of "of_nat k"] by (auto simp: data_same_def)
  have zero: "contents t (dev, of_nat k) = replicate BSIZE 0" if "k < nblk dev s" "\<not> in_use dev s k" for k
  proof -
    have "last_meta dev s < k" using assms(3) that(2) by (meson fs_ok_def not_le)
    then show ?thesis using dat [OF _ that(1)] assms(3) that by (simp add: fs_ok_def)
  qed
  have "fs_ok dev t"
    unfolding fs_ok_def meta using ch(2,4) zero assms(3) lm c28 nblk_less [OF g] by (auto simp: fs_ok_def split: if_splits)
  moreover have R: "?R < 2 ^ 28"
    by (rule nblk_less [OF g])
  have "c < ?R" using c(4) c0 by (meson le_less_trans not_le)
  then have "{c. c < ?R \<and> \<not> in_use dev t c} = {c. c < ?R \<and> \<not> in_use dev s c} - {c}" "c \<in> {c. c < ?R \<and> \<not> in_use dev s c}"
    using ch(4) [OF less_trans [OF _ R]] c(3) by (auto split: if_splits)
  then have "nfree dev t = nfree dev s - 1" unfolding nfree_def meta by simp
  moreover have "addr_ok dev t (of_nat c)" using lm c(2) ch(4) [OF c28] by (simp add: addr_ok_def meta uc)
  moreover have "\<forall>k < nblk dev s. in_use dev t k \<longleftrightarrow> in_use dev s k \<or> k = c" using ch(4) nblk_less [OF g] by auto
  ultimately show ?thesis using c(1,3,5) zero [OF c(2,3)] same uc by (intro exI [of _ "of_nat c"] exI [of _ t]) simp
qed


text \<open>The structure depends on the contents of the disk only.\<close>

lemma fs_cong:
  assumes "contents t = contents s" and "havedisk1 t = havedisk1 s"
  shows "superblk dev t = superblk dev s" "in_use dev t = in_use dev s" "fs_ok dev t = fs_ok dev s" "nfree dev t = nfree dev s"
    "addr_ok dev t = addr_ok dev s" "nblk dev t = nblk dev s" "last_meta dev t = last_meta dev s"
proof -
  note c = superblk_cong [OF assms(1), of dev] in_use_cong [OF assms(1), of dev]
  show "superblk dev t = superblk dev s" "in_use dev t = in_use dev s" by (fact c)+
  show "fs_ok dev t = fs_ok dev s" "nfree dev t = nfree dev s" "addr_ok dev t = addr_ok dev s" "nblk dev t = nblk dev s"
    "last_meta dev t = last_meta dev s"
    using c geom_ok_cong [OF assms, of dev] assms(1)
    by (simp_all add: fs_ok_def nfree_def addr_ok_def [abs_def] nblk_def last_meta_def)
qed

text \<open>Changing a block in use that is neither the super block nor a part of the bitmap.\<close>

lemma fs_write:
  assumes "fs_ok dev s" and a: "a \<noteq> 1" "\<not> is_bitmap dev s a" "in_use dev s (unat a)" and lt: "last_meta dev s < nblk dev s"
    and t: "contents t = (contents s)((dev, a) := d)" "length d = BSIZE" "havedisk1 t = havedisk1 s"
  shows "superblk dev t = superblk dev s" "fs_ok dev t" "nfree dev t = nfree dev s" "addr_ok dev t = addr_ok dev s"
    "nblk dev t = nblk dev s" "last_meta dev t = last_meta dev s" "\<forall>k < nblk dev s. in_use dev t k = in_use dev s k"
proof -
  have g: "geom_ok dev s" using assms(1) by (simp add: fs_ok_def)
  show sb: "superblk dev t = superblk dev s" using t(1) a(1) by (simp add: superblk_def)
  have bb: "bmap_block dev t = bmap_block dev s" using sb by (simp add: bmap_block_def [abs_def])
  show nb: "nblk dev t = nblk dev s" and lm: "last_meta dev t = last_meta dev s" using sb by (simp_all add: nblk_def last_meta_def)
  have iu: "in_use dev t k = in_use dev s k" if "k < nblk dev s" for k
  proof -
    have "bmap_block dev s k \<noteq> a" using a(2) that by (auto simp: is_bitmap_def)
    then show ?thesis using t(1) bb by (simp add: in_use_def)
  qed
  then show "\<forall>k < nblk dev s. in_use dev t k = in_use dev s k" by blast
  then show "addr_ok dev t = addr_ok dev s" by (auto simp: addr_ok_def fun_eq_iff nb lm)
  have ne: "of_nat k \<noteq> a" if "k < nblk dev s" "\<not> in_use dev s k" for k
    using that a(3) unat_of_nat32 [of k] nblk_less [OF g] by auto
  have "geom_ok dev t" using g t sb by (simp add: geom_ok_def)
  then show "fs_ok dev t" using assms(1) t(1) iu ne lt by (auto simp: fs_ok_def nb lm)
  show "nfree dev t = nfree dev s"
    unfolding nfree_def nb using iu by (intro arg_cong [of _ _ card] Collect_cong conj_cong refl) simp
qed

lemma fs_data:
  assumes "fs_ok dev s" and "addr_ok dev s a" and "contents t = (contents s)((dev, a) := d)" and "length d = BSIZE"
    and "havedisk1 t = havedisk1 s"
  shows "superblk dev t = superblk dev s" "fs_ok dev t" "nfree dev t = nfree dev s" "addr_ok dev t = addr_ok dev s"
    "nblk dev t = nblk dev s" "last_meta dev t = last_meta dev s" "\<forall>k < nblk dev s. in_use dev t k = in_use dev s k"
proof -
  have "geom_ok dev s" using assms(1) by (simp add: fs_ok_def)
  note a = addr_okD [OF this assms(2)]
  have "in_use dev s (unat a)" "last_meta dev s < nblk dev s" using assms(2) by (auto simp: addr_ok_def)
  note fs_write [OF assms(1) a(2,3) this assms(3-5)]
  then show "superblk dev t = superblk dev s" "fs_ok dev t" "nfree dev t = nfree dev s" "addr_ok dev t = addr_ok dev s"
    "nblk dev t = nblk dev s" "last_meta dev t = last_meta dev s" "\<forall>k < nblk dev s. in_use dev t k = in_use dev s k" by blast+
qed

section \<open>The blocks of a file\<close>

definition file_blk :: "('z) kbuf_scheme \<Rightarrow> inode \<Rightarrow> nat \<Rightarrow> u32" where
  "file_blk s ip bn =
     (if bn < NDIRECT then iaddrs ip ! bn
      else if iaddrs ip ! NDIRECT = 0 then 0
      else get32 (4 * (bn - NDIRECT)) (contents s (idev ip, iaddrs ip ! NDIRECT)))"

text \<open>The blocks of the file are data blocks in use, and no block occurs twice.\<close>

definition inode_ok :: "('z) kbuf_scheme \<Rightarrow> inode \<Rightarrow> bool" where
  "inode_ok s ip \<longleftrightarrow> length (iaddrs ip) = NDIRECT + 1 \<and>
     (\<forall>bn < MAXFILE. file_blk s ip bn \<noteq> 0 \<longrightarrow> addr_ok (idev ip) s (file_blk s ip bn) \<and> file_blk s ip bn \<noteq> iaddrs ip ! NDIRECT) \<and>
     (iaddrs ip ! NDIRECT \<noteq> 0 \<longrightarrow> addr_ok (idev ip) s (iaddrs ip ! NDIRECT)) \<and>
     (\<forall>bn < MAXFILE. \<forall>bn' < MAXFILE. file_blk s ip bn = file_blk s ip bn' \<and> file_blk s ip bn \<noteq> 0 \<longrightarrow> bn = bn')"

text \<open>The end of \<^verbatim>\<open>bmap\<close> for a block number past the direct ones.\<close>

definition bmap_entry :: "u32 \<Rightarrow> u32 \<Rightarrow> nat \<Rightarrow> ('z) kfs_scheme \<Rightarrow> (u32, ('z) kfs_scheme) res" where
  "bmap_entry dev a k s = bindr (bread dev a s) (\<lambda>bp s.
     let c = get32 (4 * k) (bdata (bufs s bp)) in
     bindr (if c = 0 then bindr (balloc dev s) (\<lambda>c s. bindr (bwrite bp (upd_data bp (put32 (4 * k) c) s)) (\<lambda>_ s. Ok c s)) else Ok c s)
       (\<lambda>c s. bindr (brelse bp s) (\<lambda>_ s. Ok c s)))"

lemma bmap_entry_old:
  assumes "cache_ok {} s" and "sector_ok dev a s" and "get32 (4 * k) (contents s (dev, a)) \<noteq> 0"
  shows "\<exists>t. bmap_entry dev a k s = Ok (get32 (4 * k) (contents s (dev, a))) t \<and> bstep {} s t \<and> contents t = contents s"
  using access_block [OF assms(1) _ _ assms(2)] assms(3) by (auto simp: bmap_entry_def Let_def)

lemma bmap_entry_new:
  assumes "cache_ok {} s" and "fs_ok dev s" and "addr_ok dev s a" and "get32 (4 * k) (contents s (dev, a)) = 0" and "0 < nfree dev s"
  shows "\<exists>c t. bmap_entry dev a k s = Ok c t \<and> bstep {} s t \<and> fs_ok dev t \<and> addr_ok dev t c \<and> \<not> in_use dev s (unat c) \<and>
    superblk dev t = superblk dev s \<and> nfree dev t = nfree dev s - 1 \<and> (\<forall>j < nblk dev s. in_use dev t j \<longleftrightarrow> in_use dev s j \<or> j = unat c) \<and>
    contents t (dev, a) = put32 (4 * k) c (contents s (dev, a)) \<and>
    (\<forall>d n. d \<noteq> dev \<or> \<not> is_bitmap dev s n \<and> n \<noteq> a \<longrightarrow> contents t (d, n) = contents s (d, n))"
proof -
  have g: "geom_ok dev s" using assms(2) by (simp add: fs_ok_def)
  note a = addr_okD [OF g assms(3)]
  from bc.rd [OF assms(1), of dev a] a(4) obtain bp t where
    t: "bread dev a s = Ok bp t" "cache_ok {bp} t" "bframe s t" "contents t = contents s" "bkey t bp = (dev, a)" "bval t bp = contents s (dev, a)"
    by auto
  have hd: "havedisk1 t = havedisk1 s" using t(3) by (simp add: bframe_def)
  note cg = fs_cong [OF t(4) hd, of dev]
  have cl: "clear_of_meta {bp} dev t"
    using a(2,3) t(5) is_bitmap_cong [OF t(4)] by (auto simp: clear_of_meta_def)
  have "fs_ok dev t" "0 < nfree dev t" using assms(2,5) cg by auto
  from fs_balloc [OF t(2) _ this(1) cl this(2)] obtain c u where
    u: "balloc dev t = Ok c u" "bstep {bp} t u" "fs_ok dev u" "addr_ok dev u c" "\<not> in_use dev s (unat c)" "data_same dev t u"
      "nfree dev u = nfree dev s - 1" "\<forall>j < nblk dev s. in_use dev u j \<longleftrightarrow> in_use dev s j \<or> j = unat c"
    by (auto simp: cg)
  let ?f = "put32 (4 * k) c" let ?u = "upd_data bp ?f u"
  have vu: "bval u bp = contents s (dev, a)" "bkey u bp = (dev, a)" "cache_ok {bp} u" "havedisk1 u = havedisk1 s"
    using u(2) t(5,6) hd by (auto simp: bstep_def same_on_def bframe_def)
  have u': "cache_ok {bp} ?u" "bkey ?u bp = (dev, a)" "bval ?u bp = ?f (contents s (dev, a))" "contents ?u = contents u" "bframe u ?u"
    using vu by (simp_all add: bc.upd)
  have "sector_ok dev a ?u" using a(4) vu(4) u'(5) by (simp add: sector_ok_def bframe_def)
  with bc.wr [OF u'(1), of bp] u'(2,3) obtain v where
    v: "bwrite bp ?u = Ok () v" "cache_ok {bp} v" "bframe ?u v" "contents v = (contents u)((dev, a) := ?f (contents s (dev, a)))"
      "bkey v bp = (dev, a)" "bval v bp = ?f (contents s (dev, a))" unfolding u'(4) by auto
  from bc.rel [OF v(2), of bp] v(4-6) obtain w where
    w: "brelse bp v = Ok () w" "cache_ok {} w" "bframe v w" "contents w = contents v" by auto
  have "bmap_entry dev a k s = Ok c w"
    using t(1) t(6) assms(4) u(1) v(1) w(1) by (simp add: bmap_entry_def Let_def bval_def)
  moreover have bs: "bstep {} s w"
    using w(2) bc.frame_trans [OF t(3) bc.frame_trans [OF _ bc.frame_trans [OF u'(5) bc.frame_trans [OF v(3) w(3)]]]] u(2)
    by (simp add: bstep_def same_on_def)
  moreover have "fs_ok dev w" "superblk dev w = superblk dev u" "nfree dev w = nfree dev u" "addr_ok dev w = addr_ok dev u"
     "\<forall>k < nblk dev u. in_use dev w k = in_use dev u k"
  proof -
    have sb: "superblk dev u = superblk dev s" using u(6) cg(1) by (simp add: data_same_def)
    have "addr_ok dev u a" using assms(3) u(8) by (simp add: addr_ok_def last_meta_def nblk_def sb)
    moreover have "length (?f (contents s (dev, a))) = BSIZE" using g by (simp add: geom_ok_def)
    moreover have "havedisk1 w = havedisk1 u" using bs vu(4) by (simp add: bstep_def bframe_def)
    ultimately show "fs_ok dev w" "superblk dev w = superblk dev u" "nfree dev w = nfree dev u" "addr_ok dev w = addr_ok dev u"
      "\<forall>k < nblk dev u. in_use dev w k = in_use dev u k"
      using fs_data [OF u(3), of a w "?f (contents s (dev, a))"] w(4) v(4) by auto
  qed
  moreover have "superblk dev u = superblk dev s" "nblk dev u = nblk dev s"
    using u(6) cg(1) by (simp_all add: data_same_def nblk_def)
  moreover have "contents w (d, n) = contents s (d, n)" if "d \<noteq> dev \<or> \<not> is_bitmap dev s n \<and> n \<noteq> a" for d n
    using that u(6) t(4) w(4) v(4) is_bitmap_super [OF cg(1)] by (auto simp: data_same_def)
  ultimately show ?thesis using u(4,5,7,8) w(4) v(4) by (intro exI [of _ c] exI [of _ w]) simp
qed


section \<open>Finding and allocating the blocks of a file\<close>

lemma upd_inode_simps [simp]:
  "contents (upd_inode i f s) = contents s" "havedisk1 (upd_inode i f s) = havedisk1 s" "cache_ok H (upd_inode i f s) = cache_ok H s"
  "inodes (upd_inode i f s) = (inodes s)[i := f (inodes s ! i)]" "bkey (upd_inode i f s) = bkey s" "bval (upd_inode i f s) = bval s"
  by (simp_all add: cache_ok_def in_proc_def) (simp_all add: contents_def on_disk_def fun_eq_iff upd_inode_def bkey_def bval_def bcache_ok_def lru_def)

lemma upd_inode_fs [simp]:
  "superblk dev (upd_inode i f s) = superblk dev s" "in_use dev (upd_inode i f s) = in_use dev s" "fs_ok dev (upd_inode i f s) = fs_ok dev s"
  "nfree dev (upd_inode i f s) = nfree dev s" "addr_ok dev (upd_inode i f s) = addr_ok dev s" "nblk dev (upd_inode i f s) = nblk dev s"
  "last_meta dev (upd_inode i f s) = last_meta dev s" "file_blk (upd_inode i f s) = file_blk s" "inode_ok (upd_inode i f s) = inode_ok s"
  "is_bitmap dev (upd_inode i f s) = is_bitmap dev s"
proof -
  note c = fs_cong [of "upd_inode i f s" s]
  show "superblk dev (upd_inode i f s) = superblk dev s" "in_use dev (upd_inode i f s) = in_use dev s" "fs_ok dev (upd_inode i f s) = fs_ok dev s"
    "nfree dev (upd_inode i f s) = nfree dev s" "addr_ok dev (upd_inode i f s) = addr_ok dev s" "nblk dev (upd_inode i f s) = nblk dev s"
    "last_meta dev (upd_inode i f s) = last_meta dev s"
    by (rule c; simp)+
  then show "is_bitmap dev (upd_inode i f s) = is_bitmap dev s" by (intro is_bitmap_super) simp
  show "file_blk (upd_inode i f s) = file_blk s" by (simp add: file_blk_def fun_eq_iff)
  then show "inode_ok (upd_inode i f s) = inode_ok s" using c(5) by (simp add: inode_ok_def fun_eq_iff)
qed

lemma fquiet_trans: "fquiet s t \<Longrightarrow> fquiet t u \<Longrightarrow> fquiet s u"
  by (simp add: fquiet_def)

lemma fquiet_refl [simp]: "fquiet s s"
  by (simp add: fquiet_def)

lemma fquiet_upd_inode [simp]: "fquiet s (upd_inode i f t) = fquiet s t"
  by (simp add: fquiet_def upd_inode_def)

lemma bstep_fs:
  assumes "bstep H s t"
  shows "inodes t = inodes s" and "fquiet s t" and "cache_ok H t" and "havedisk1 t = havedisk1 s"
  using assms inodes_more [of t s] by (auto simp: bstep_def bframe_def quiet_def fquiet_def)

text \<open>Blocks are only added to those in use.\<close>

definition grown :: "u32 \<Rightarrow> ('z) kbuf_scheme \<Rightarrow> ('z) kbuf_scheme \<Rightarrow> bool" where
  "grown dev s t \<longleftrightarrow> superblk dev t = superblk dev s \<and> (\<forall>k < nblk dev s. in_use dev s k \<longrightarrow> in_use dev t k)"

lemma grown_addr_ok: "grown dev s t \<Longrightarrow> addr_ok dev s a \<Longrightarrow> addr_ok dev t a"
  by (simp add: grown_def addr_ok_def nblk_def last_meta_def)

text \<open>An inode that has got the fresh block \<open>c\<close> as its block \<open>bn\<close>.\<close>

lemma inode_ok_add:
  assumes "inode_ok s ip" and "idev ip = dev" and "idev ip' = dev" and "length (iaddrs ip') = NDIRECT + 1" and "bn < MAXFILE"
    and "iaddrs ip' ! NDIRECT = iaddrs ip ! NDIRECT"
    and "\<forall>k < MAXFILE. file_blk t ip' k = (if k = bn then c else file_blk s ip k)"
    and "grown dev s t" and "addr_ok dev t c" and "\<not> in_use dev s (unat c)"
  shows "inode_ok t ip'"
proof -
  have old: "addr_ok dev s (file_blk s ip k)" "file_blk s ip k \<noteq> iaddrs ip ! NDIRECT" if "k < MAXFILE" "file_blk s ip k \<noteq> 0" for k
    using assms(1,2) that by (auto simp: inode_ok_def)
  have ind: "iaddrs ip ! NDIRECT \<noteq> 0 \<longrightarrow> addr_ok dev s (iaddrs ip ! NDIRECT)" using assms(1,2) by (simp add: inode_ok_def)
  have ne: "file_blk s ip k \<noteq> c" if "k < MAXFILE" "file_blk s ip k \<noteq> 0" for k
    using old(1) [OF that] assms(10) by (auto simp: addr_ok_def)
  have c: "c \<noteq> iaddrs ip ! NDIRECT" "c \<noteq> 0"
    using ind assms(9,10) by (auto simp: addr_ok_def)
  have uniq: "k = k'" if "k < MAXFILE" "k' < MAXFILE" "file_blk s ip k = file_blk s ip k'" "file_blk s ip k \<noteq> 0" for k k'
    using assms(1) that unfolding inode_ok_def by blast
  have "addr_ok dev t (file_blk t ip' k) \<and> file_blk t ip' k \<noteq> iaddrs ip' ! NDIRECT" if "k < MAXFILE" "file_blk t ip' k \<noteq> 0" for k
    using that assms(6,7,9) old [of k] c grown_addr_ok [OF assms(8)] by (cases "k = bn") auto
  moreover have "k = k'" if "k < MAXFILE" "k' < MAXFILE" "file_blk t ip' k = file_blk t ip' k'" "file_blk t ip' k \<noteq> 0" for k k'
    using that assms(7) ne uniq [of k k'] c(2) by (cases "k = bn"; cases "k' = bn") auto
  ultimately show ?thesis
    unfolding inode_ok_def assms(3,6) using assms(4) ind grown_addr_ok [OF assms(8)] by blast
qed

lemma get32_zeros: "p + 4 \<le> n \<Longrightarrow> get32 p (replicate n 0) = 0"
  by (simp add: get32_def)

text \<open>What \<^verbatim>\<open>bmap\<close> for block \<open>bn\<close> of inode \<open>i\<close> achieves when it returns \<open>a\<close>.\<close>

definition got_block :: "nat \<Rightarrow> nat \<Rightarrow> ('z) kfs_scheme \<Rightarrow> ('z) kfs_scheme \<Rightarrow> u32 \<Rightarrow> bool" where
  "got_block i bn s t a \<longleftrightarrow> (let ip = inodes s ! i; ip' = inodes t ! i; dev = idev ip in
     inodes t = (inodes s)[i := ip\<lparr>iaddrs := iaddrs ip'\<rparr>] \<and> cache_ok {} t \<and> fquiet s t \<and> fs_ok dev t \<and> inode_ok t ip' \<and>
     a = file_blk t ip' bn \<and> a \<noteq> 0 \<and> grown dev s t \<and> nfree dev s \<le> nfree dev t + 2 \<and>
     (\<forall>k < MAXFILE. k \<noteq> bn \<longrightarrow> file_blk t ip' k = file_blk s ip k) \<and>
     (if file_blk s ip bn \<noteq> 0 then a = file_blk s ip bn \<and> contents t = contents s \<and> inodes t = inodes s else \<not> in_use dev s (unat a)) \<and>
     (iaddrs ip' ! NDIRECT = iaddrs ip ! NDIRECT \<or> iaddrs ip ! NDIRECT = 0 \<and> \<not> in_use dev s (unat (iaddrs ip' ! NDIRECT))) \<and>
     (\<forall>k < nblk dev s. in_use dev t k \<longrightarrow> in_use dev s k \<or> k = unat a \<or> k = unat (iaddrs ip' ! NDIRECT)) \<and>
     (\<forall>d n. d \<noteq> dev \<or> \<not> is_bitmap dev s n \<and> (n = 0 \<or> n \<noteq> iaddrs ip' ! NDIRECT) \<longrightarrow> contents t (d, n) = contents s (d, n)))"

lemma bmap_direct:
  assumes s: "cache_ok {} s" "fs_ok dev s" "i < length (inodes s)" "idev (inodes s ! i) = dev" "inode_ok s (inodes s ! i)"
    and "bn < NDIRECT" and "file_blk s (inodes s ! i) bn \<noteq> 0 \<or> 0 < nfree dev s"
  shows "\<exists>a t. bmap i bn s = Ok a t \<and> got_block i bn s t a"
proof (cases "iaddrs (inodes s ! i) ! bn = 0")
  case False
  then show ?thesis using assms by (auto simp: bmap_def got_block_def file_blk_def grown_def Let_def)
next
  case True
  let ?ip = "inodes s ! i"
  have z: "file_blk s ?ip bn = 0" "0 < nfree dev s" using True assms(6,7) by (auto simp: file_blk_def)
  from fs_balloc [OF s(1) _ s(2) _ z(2)] obtain a t where
    t: "balloc dev s = Ok a t" "bstep {} s t" "fs_ok dev t" "addr_ok dev t a" "\<not> in_use dev s (unat a)" "data_same dev s t"
      "nfree dev t = nfree dev s - 1" "\<forall>k < nblk dev s. in_use dev t k \<longleftrightarrow> in_use dev s k \<or> k = unat a"
    by (auto simp: clear_of_meta_def)
  let ?ip' = "?ip\<lparr>iaddrs := (iaddrs ?ip)[bn := a]\<rparr>" and ?t = "upd_inode i (\<lambda>ip. ip\<lparr>iaddrs := (iaddrs ip)[bn := a]\<rparr>) t"
  have it: "inodes t = inodes s" by (rule bstep_fs(1) [OF t(2)])
  have g: "grown dev s t" using t(6,8) by (auto simp: grown_def data_same_def)
  have ind: "iaddrs ?ip ! NDIRECT \<noteq> 0 \<longrightarrow> contents t (dev, iaddrs ?ip ! NDIRECT) = contents s (dev, iaddrs ?ip ! NDIRECT)"
    using s(4,5) t(6) addr_okD(3) [of dev s "iaddrs ?ip ! NDIRECT"] s(2) by (auto simp: inode_ok_def fs_ok_def data_same_def)
  have fb: "\<forall>k < MAXFILE. file_blk t ?ip' k = (if k = bn then a else file_blk s ?ip k)"
  proof (intro allI impI)
    fix k :: nat
    have "length (iaddrs ?ip) = NDIRECT + 1" using s(5) by (simp add: inode_ok_def)
    then show "file_blk t ?ip' k = (if k = bn then a else file_blk s ?ip k)"
      using s(4) assms(6) ind by (cases "k < NDIRECT") (simp_all add: file_blk_def)
  qed
  have "inode_ok t ?ip'"
    using s(4,5) assms(6) by (intro inode_ok_add [OF s(5) s(4) _ _ _ _ fb g t(4,5)]) (auto simp: inode_ok_def)
  moreover have "bmap i bn s = Ok a ?t" using assms(6) True t(1) s(4) by (simp add: bmap_def Let_def)
  moreover have "a \<noteq> 0" using t(4) by (auto simp: addr_ok_def)
  moreover have "file_blk t ?ip' bn = a" using fb assms(6) by simp
  ultimately show ?thesis using s t(3,5-8) it g fb z assms(6) bstep_fs [OF t(2)]
    by (intro exI [of _ a] exI [of _ ?t]) (simp add: got_block_def Let_def data_same_def grown_def)
qed

text \<open>The indirect block is there.\<close>

lemma bmap_indirect:
  assumes s: "cache_ok {} s" "fs_ok dev s" "i < length (inodes s)" "idev (inodes s ! i) = dev" "inode_ok s (inodes s ! i)"
    and "NDIRECT \<le> bn" and "bn < MAXFILE" and "iaddrs (inodes s ! i) ! NDIRECT \<noteq> 0"
    and "file_blk s (inodes s ! i) bn \<noteq> 0 \<or> 0 < nfree dev s"
  shows "\<exists>a t. bmap_entry dev (iaddrs (inodes s ! i) ! NDIRECT) (bn - NDIRECT) s = Ok a t \<and> got_block i bn s t a \<and> nfree dev s \<le> nfree dev t + 1 \<and> inodes t = inodes s"
proof -
  let ?ip = "inodes s ! i" let ?a = "iaddrs ?ip ! NDIRECT" and ?k = "bn - NDIRECT"
  have k: "4 * ?k + 4 \<le> 512" using assms(6,7) by simp
  have fb: "file_blk s ?ip bn = get32 (4 * ?k) (contents s (dev, ?a))" using assms(4,6,8) by (simp add: file_blk_def)
  have a: "addr_ok dev s ?a" "geom_ok dev s" using s(2,4,5) assms(8) by (auto simp: inode_ok_def fs_ok_def)
  note a' = addr_okD [OF a(2,1)]
  show ?thesis
  proof (cases "file_blk s ?ip bn = 0")
    case False
    with bmap_entry_old [OF s(1) a'(4), of ?k] fb obtain t where
      t: "bmap_entry dev ?a ?k s = Ok (file_blk s ?ip bn) t" "bstep {} s t" "contents t = contents s" by auto
    note f = bstep_fs [OF t(2)]
    note c = fs_cong [OF t(3) f(4)]
    have "file_blk t = file_blk s" using t(3) by (simp add: file_blk_def fun_eq_iff)
    moreover from this have "inode_ok t = inode_ok s" using c(5) by (simp add: inode_ok_def fun_eq_iff)
    ultimately show ?thesis using t f s c False
      by (intro exI [of _ "file_blk s ?ip bn"] exI [of _ t]) (simp add: got_block_def grown_def Let_def)
  next
    case True
    then have "get32 (4 * ?k) (contents s (dev, ?a)) = 0" "0 < nfree dev s" using fb assms(9) by auto
    from bmap_entry_new [OF s(1,2) a(1) this] obtain c t where
      t: "bmap_entry dev ?a ?k s = Ok c t" "bstep {} s t" "fs_ok dev t" "addr_ok dev t c" "\<not> in_use dev s (unat c)"
        "superblk dev t = superblk dev s" "nfree dev t = nfree dev s - 1" "\<forall>j < nblk dev s. in_use dev t j \<longleftrightarrow> in_use dev s j \<or> j = unat c"
        "contents t (dev, ?a) = put32 (4 * ?k) c (contents s (dev, ?a))"
        "\<forall>d n. d \<noteq> dev \<or> \<not> is_bitmap dev s n \<and> n \<noteq> ?a \<longrightarrow> contents t (d, n) = contents s (d, n)" by blast
    note f = bstep_fs [OF t(2)]
    have g: "grown dev s t" using t(6,8) by (auto simp: grown_def)
    have len: "length (contents s (dev, ?a)) = BSIZE" using a(2) by (simp add: geom_ok_def)
    have fb': "\<forall>j < MAXFILE. file_blk t ?ip j = (if j = bn then c else file_blk s ?ip j)"
    proof (intro allI impI)
      fix j :: nat assume "j < MAXFILE"
      have "4 * (j - NDIRECT) + 4 \<le> 4 * ?k \<or> 4 * ?k + 4 \<le> 4 * (j - NDIRECT)" if "NDIRECT \<le> j" "j \<noteq> bn"
        using that assms(6) by arith
      then show "file_blk t ?ip j = (if j = bn then c else file_blk s ?ip j)"
        using assms(4,6,8) t(9) k len by (cases "j < NDIRECT"; cases "j = bn") (simp_all add: file_blk_def)
    qed
    have "inode_ok t ?ip"
      using s(4,5) assms(7) by (intro inode_ok_add [OF s(5) s(4) _ _ _ _ fb' g t(4,5)]) (auto simp: inode_ok_def)
    moreover have "c \<noteq> 0" using t(4) by (auto simp: addr_ok_def)
    moreover have "file_blk t ?ip bn = c" using fb' assms(7) by simp
    moreover have "nfree dev s \<le> nfree dev t + 1" using t(7) by simp
    moreover have "\<forall>d n. d \<noteq> dev \<or> \<not> is_bitmap dev s n \<and> (n = 0 \<or> n \<noteq> ?a) \<longrightarrow> contents t (d, n) = contents s (d, n)"
      using t(10) assms(8) by metis
    ultimately show ?thesis using t(1,3,5,8) f s g fb' True assms(7)
      by (intro exI [of _ c] exI [of _ t]) (simp add: got_block_def Let_def)
  qed
qed


lemma bmap_entry_eq:
  assumes "NDIRECT \<le> bn" and "bn < MAXFILE"
  shows "bmap i bn s = bindr (if iaddrs (inodes s ! i) ! NDIRECT = 0
      then bindr (balloc (idev (inodes s ! i)) s) (\<lambda>a s. Ok a (upd_inode i (\<lambda>ip. ip\<lparr>iaddrs := (iaddrs ip)[NDIRECT := a]\<rparr>) s))
      else Ok (iaddrs (inodes s ! i) ! NDIRECT) s) (\<lambda>a s'. bmap_entry (idev (inodes s ! i)) a (bn - NDIRECT) s')"
proof -
  have "bn - NDIRECT < NINDIRECT" using assms by simp
  then show ?thesis using assms(1) by (simp add: bmap_def bmap_entry_def Let_def)
qed

text \<open>A fresh indirect block.\<close>

lemma new_indirect:
  assumes s: "cache_ok {} s" "fs_ok dev s" "i < length (inodes s)" "idev (inodes s ! i) = dev" "inode_ok s (inodes s ! i)"
    and "iaddrs (inodes s ! i) ! NDIRECT = 0" and "0 < nfree dev s"
  shows "\<exists>a t. balloc dev s = Ok a t \<and> inodes t = inodes s \<and> cache_ok {} t \<and> fquiet s t \<and> fs_ok dev t \<and> a \<noteq> 0 \<and> \<not> in_use dev s (unat a) \<and>
    grown dev s t \<and> nfree dev t = nfree dev s - 1 \<and> (\<forall>d n. d \<noteq> dev \<or> \<not> is_bitmap dev s n \<longrightarrow> contents t (d, n) = contents s (d, n)) \<and>
    (\<forall>k < nblk dev s. in_use dev t k \<longrightarrow> in_use dev s k \<or> k = unat a) \<and>
    (let ip = (inodes s ! i)\<lparr>iaddrs := (iaddrs (inodes s ! i))[NDIRECT := a]\<rparr> in
      inode_ok t ip \<and> (\<forall>k < MAXFILE. file_blk t ip k = file_blk s (inodes s ! i) k))"
proof -
  let ?ip = "inodes s ! i"
  from fs_balloc [OF s(1) _ s(2) _ assms(7)] obtain a t where
    t: "balloc dev s = Ok a t" "bstep {} s t" "fs_ok dev t" "addr_ok dev t a" "\<not> in_use dev s (unat a)" "contents t (dev, a) = replicate BSIZE 0"
      "data_same dev s t" "nfree dev t = nfree dev s - 1" "\<forall>k < nblk dev s. in_use dev t k \<longleftrightarrow> in_use dev s k \<or> k = unat a"
    by (auto simp: clear_of_meta_def)
  let ?ip' = "?ip\<lparr>iaddrs := (iaddrs ?ip)[NDIRECT := a]\<rparr>"
  have g: "grown dev s t" using t(7,9) by (auto simp: grown_def data_same_def)
  have a0: "a \<noteq> 0" using t(4) by (auto simp: addr_ok_def)
  have len: "length (iaddrs ?ip) = NDIRECT + 1" using s(5) by (simp add: inode_ok_def)
  have fb: "file_blk t ?ip' k = file_blk s ?ip k" if "k < MAXFILE" for k
    using that len s(4) t(6) a0 assms(6) get32_zeros [of "4 * (k - NDIRECT)" BSIZE]
    by (cases "k < NDIRECT") (simp_all add: file_blk_def)
  have old: "addr_ok dev s (file_blk s ?ip k)" "file_blk s ?ip k \<noteq> a" if "k < MAXFILE" "file_blk s ?ip k \<noteq> 0" for k
  proof -
    show "addr_ok dev s (file_blk s ?ip k)" using s(4,5) that by (simp add: inode_ok_def)
    then show "file_blk s ?ip k \<noteq> a" using t(5) by (auto simp: addr_ok_def)
  qed
  have "inode_ok t ?ip'"
    unfolding inode_ok_def
  proof (intro conjI allI impI)
    fix k k' :: nat assume k: "k < MAXFILE" "k' < MAXFILE" "file_blk t ?ip' k = file_blk t ?ip' k' \<and> file_blk t ?ip' k \<noteq> 0"
    then show "k = k'" using s(5) unfolding inode_ok_def fb [OF k(1)] fb [OF k(2)] by blast
  qed (use len s(4) t(4) fb old grown_addr_ok [OF g] in \<open>simp_all\<close>)
  then show ?thesis using t a0 g fb bstep_fs [OF t(2)]
    by (intro exI [of _ a] exI [of _ t]) (simp add: data_same_def Let_def)
qed

lemma bmap_ok:
  assumes s: "cache_ok {} s" "fs_ok dev s" "i < length (inodes s)" "idev (inodes s ! i) = dev" "inode_ok s (inodes s ! i)"
    and bn: "bn < MAXFILE" and free: "file_blk s (inodes s ! i) bn \<noteq> 0 \<or> 2 \<le> nfree dev s"
  shows "\<exists>a t. bmap i bn s = Ok a t \<and> got_block i bn s t a"
proof -
  let ?ip = "inodes s ! i"
  consider "bn < NDIRECT" | "NDIRECT \<le> bn" "iaddrs ?ip ! NDIRECT \<noteq> 0" | "NDIRECT \<le> bn" "iaddrs ?ip ! NDIRECT = 0" by linarith
  then show ?thesis
  proof cases
    case 1
    then show ?thesis using bmap_direct [OF s] free by auto
  next
    case 2
    then show ?thesis using bmap_indirect [OF s 2(1) bn 2(2)] free bmap_entry_eq [OF 2(1) bn, of i s] s(4) by auto
  next
    case 3
    have z: "file_blk s ?ip bn = 0" using 3 by (simp add: file_blk_def)
    with free have n: "2 \<le> nfree dev s" by simp
    then have "0 < nfree dev s" by simp
    from new_indirect [OF s 3(2) this] obtain a t where t: "balloc dev s = Ok a t" "inodes t = inodes s" "cache_ok {} t" "fquiet s t" "fs_ok dev t" "a \<noteq> 0"
      "\<not> in_use dev s (unat a)" "grown dev s t" "nfree dev t = nfree dev s - 1"
      "\<forall>d n. d \<noteq> dev \<or> \<not> is_bitmap dev s n \<longrightarrow> contents t (d, n) = contents s (d, n)"
      "\<forall>k < nblk dev s. in_use dev t k \<longrightarrow> in_use dev s k \<or> k = unat a"
      "inode_ok t (?ip\<lparr>iaddrs := (iaddrs ?ip)[NDIRECT := a]\<rparr>)"
      "\<forall>k < MAXFILE. file_blk t (?ip\<lparr>iaddrs := (iaddrs ?ip)[NDIRECT := a]\<rparr>) k = file_blk s ?ip k"
      unfolding Let_def by (elim exE conjE)
    let ?t = "upd_inode i (\<lambda>ip. ip\<lparr>iaddrs := (iaddrs ip)[NDIRECT := a]\<rparr>) t"
    have len: "length (iaddrs ?ip) = NDIRECT + 1" using s(5) by (simp add: inode_ok_def)
    have "0 < nfree dev t" using n t(9) by simp
    from bmap_indirect [of ?t dev i bn] t(2,3,5,6,12) this s(3,4) 3(1) bn len obtain c u where
      u: "bmap_entry dev a (bn - NDIRECT) ?t = Ok c u" "got_block i bn ?t u c" "nfree dev t \<le> nfree dev u + 1" "inodes u = inodes ?t" by auto
    have "bmap i bn s = Ok c u" using bmap_entry_eq [OF 3(1) bn, of i s] 3(2) t(1) u(1) s(4) by simp
    moreover have "got_block i bn s u c"
    proof -
      let ?ip1 = "?ip\<lparr>iaddrs := (iaddrs ?ip)[NDIRECT := a]\<rparr>" and ?ip' = "inodes u ! i"
      have i1: "inodes ?t ! i = ?ip1" using t(2) s(3) by simp
      note gb = u(2) [unfolded got_block_def Let_def i1, simplified]
      have z1: "file_blk t ?ip1 bn = 0" using t(13) bn z by simp
      have sb: "superblk dev t = superblk dev s" using t(8) by (simp add: grown_def)
      have nb: "nblk dev t = nblk dev s" "last_meta dev t = last_meta dev s" using sb by (simp_all add: nblk_def last_meta_def)
      have gr: "grown dev s u" using t(8) gb s(4) nb by (simp add: grown_def)
      have iu: "inodes u = (inodes s)[i := ?ip\<lparr>iaddrs := iaddrs ?ip'\<rparr>]" using gb t(2) by simp
      then have dv: "idev ?ip' = dev" using s(3,4) by (metis inode.select_convs(1) inode.surjective inode.update_convs(10) nth_list_update_eq)
      have c: "c = file_blk u ?ip' bn" "c \<noteq> 0" "inode_ok u ?ip'" "fs_ok dev u" using gb s(4) by auto
      have fresh: "\<not> in_use dev s (unat x)" if "\<not> in_use dev t (unat x)" "addr_ok dev u x" for x
        using that t(8) gr nb by (auto simp: grown_def addr_ok_def nblk_def)
      have "\<not> in_use dev t (unat c)" using gb z1 s(4) by (elim conjE) simp
      moreover have "addr_ok dev u c" using c(1,2,3) dv bn unfolding inode_ok_def by blast
      ultimately have "\<not> in_use dev s (unat c)" by (rule fresh)
      moreover have "iaddrs ?ip' ! NDIRECT = iaddrs ?ip ! NDIRECT \<or> iaddrs ?ip ! NDIRECT = 0 \<and> \<not> in_use dev s (unat (iaddrs ?ip' ! NDIRECT))"
        using c(3) dv gb s(4) t(7) 3(2) len fresh [of "iaddrs ?ip' ! NDIRECT"] by (cases "iaddrs ?ip' ! NDIRECT = 0") (auto simp: inode_ok_def)
      moreover have "fquiet s u" using fquiet_trans [OF t(4)] gb by (simp add: fquiet_def upd_inode_def)
      moreover have "file_blk u ?ip' k = file_blk s ?ip k" if "k < MAXFILE" "k \<noteq> bn" for k using gb t(13) that by simp
      moreover have "contents u (d, n) = contents s (d, n)" if "d \<noteq> dev \<or> \<not> is_bitmap dev s n \<and> (n = 0 \<or> n \<noteq> iaddrs ?ip' ! NDIRECT)" for d n
        using gb t(10) that s(4) is_bitmap_super [OF sb] by auto
      moreover have "iaddrs ?ip' ! NDIRECT = a" using u(4) i1 len by simp
      then have "\<forall>k < nblk dev s. in_use dev u k \<longrightarrow> in_use dev s k \<or> k = unat (file_blk u ?ip' bn) \<or> k = unat (iaddrs ?ip' ! NDIRECT)"
        using gb nb(1) t(11) s(4) by auto
      ultimately show ?thesis using iu c gr z gb u(3) t(9) s(4) n unfolding got_block_def Let_def by simp
    qed
    ultimately show ?thesis by blast
  qed
qed

end
