(* ===== verification/Filedata.thy ===== *)
theory Filedata
  imports Files
begin

text \<open>
  The contents of files.  \<^verbatim>\<open>readi\<close> and \<^verbatim>\<open>writei\<close> of \<^verbatim>\<open>src/fs.c\<close>, with the block mapping and the
  buffer cache below them, implement reading and replacing a slice of a byte string.
\<close>

section \<open>The byte string of a file\<close>

definition fbyte :: "('z) kbuf_scheme \<Rightarrow> inode \<Rightarrow> nat \<Rightarrow> u8" where
  "fbyte s ip p = contents s (idev ip, file_blk s ip (p div BSIZE)) ! (p mod BSIZE)"

definition fdata :: "('z) kbuf_scheme \<Rightarrow> inode \<Rightarrow> u8 list" where
  "fdata s ip = map (fbyte s ip) [0..<unat (isize ip)]"

text \<open>The size is possible and there are no holes below it.\<close>

definition file_ok :: "('z) kbuf_scheme \<Rightarrow> inode \<Rightarrow> bool" where
  "file_ok s ip \<longleftrightarrow> inode_ok s ip \<and> unat (isize ip) \<le> MAXFILE * BSIZE \<and>
     (\<forall>k < MAXFILE. k * BSIZE < unat (isize ip) \<longrightarrow> file_blk s ip k \<noteq> 0)"

lemma file_ok_blk: "file_ok s ip \<Longrightarrow> p < unat (isize ip) \<Longrightarrow> p div BSIZE < MAXFILE \<and> file_blk s ip (p div BSIZE) \<noteq> 0"
proof -
  assume f: "file_ok s ip" and p: "p < unat (isize ip)"
  then have "p < MAXFILE * BSIZE" by (simp add: file_ok_def)
  then have "p div BSIZE < MAXFILE" by (intro less_mult_imp_div_less) simp
  moreover have "p div BSIZE * BSIZE < unat (isize ip)" using p by (rule le_less_trans [OF div_times_less_eq_dividend])
  ultimately show ?thesis using f unfolding file_ok_def by blast
qed

lemma file_cong:
  assumes "contents t = contents s" and "havedisk1 t = havedisk1 s"
  shows "file_blk t = file_blk s" "fbyte t = fbyte s" "fdata t = fdata s" "inode_ok t = inode_ok s" "file_ok t = file_ok s"
proof -
  show b: "file_blk t = file_blk s" using assms(1) by (intro ext) (simp add: file_blk_def)
  show f: "fbyte t = fbyte s" using assms(1) b by (simp add: fbyte_def [abs_def])
  show "fdata t = fdata s" using f by (simp add: fdata_def [abs_def])
  show i: "inode_ok t = inode_ok s" using b fs_cong(5) [OF assms] by (simp add: inode_ok_def [abs_def])
  show "file_ok t = file_ok s" using b i by (simp add: file_ok_def [abs_def])
qed

lemma chunk_div:
  fixes off j :: nat
  assumes "j < BSIZE - off mod BSIZE"
  shows "(off + j) div BSIZE = off div BSIZE" and "(off + j) mod BSIZE = off mod BSIZE + j"
proof -
  have "off mod BSIZE + j < BSIZE" using assms by simp
  moreover have "off + j = off div BSIZE * BSIZE + (off mod BSIZE + j)" by simp
  ultimately show "(off + j) div BSIZE = off div BSIZE" "(off + j) mod BSIZE = off mod BSIZE + j"
    by (metis div_mult_self3 div_less add_cancel_right_right zero_neq_numeral, metis mod_mult_self3 mod_less)
qed

lemma fs_geom: "fs_ok dev s \<Longrightarrow> geom_ok dev s" "geom_ok dev s \<Longrightarrow> length (contents s (dev, n)) = BSIZE"
  by (simp_all add: fs_ok_def geom_ok_def)

section \<open>Reading\<close>

lemma bmap_old:
  assumes "cache_ok {} s" and "fs_ok dev s" and "idev (inodes s ! i) = dev" and "inode_ok s (inodes s ! i)"
    and "bn < MAXFILE" and "file_blk s (inodes s ! i) bn \<noteq> 0"
  shows "\<exists>t. bmap i bn s = Ok (file_blk s (inodes s ! i) bn) t \<and> bstep {} s t \<and> contents t = contents s"
proof (cases "bn < NDIRECT")
  case True
  then show ?thesis using assms bc.frame_refl [of s] by (auto simp: bmap_def file_blk_def bstep_def same_on_def)
next
  case False
  let ?a = "iaddrs (inodes s ! i) ! NDIRECT"
  have a: "?a \<noteq> 0" "get32 (4 * (bn - NDIRECT)) (contents s (dev, ?a)) \<noteq> 0"
    "file_blk s (inodes s ! i) bn = get32 (4 * (bn - NDIRECT)) (contents s (dev, ?a))"
    using assms(3,6) False by (auto simp: file_blk_def split: if_splits)
  then have "addr_ok dev s ?a" using assms(3,4) by (simp add: inode_ok_def)
  then have "sector_ok dev ?a s" using addr_okD(4) fs_geom(1) [OF assms(2)] by blast
  from bmap_entry_old [OF assms(1) this a(2)] obtain t where
    "bmap_entry dev ?a (bn - NDIRECT) s = Ok (file_blk s (inodes s ! i) bn) t" "bstep {} s t" "contents t = contents s" using a(3) by auto
  then show ?thesis using bmap_entry_eq [of bn i s] assms(3,5) False a(1) by auto
qed

lemma take_chunk:
  assumes "length d = BSIZE" and "l \<le> BSIZE - off mod BSIZE" and "d = contents s (idev ip, file_blk s ip (off div BSIZE))"
  shows "take l (drop (off mod BSIZE) d) = map (fbyte s ip) [off..<off + l]"
  using assms chunk_div [of _ off] by (intro nth_equalityI) (simp_all add: fbyte_def)

lemma readi_loop_ok:
  assumes "cache_ok {} s" and "fs_ok dev s" and "idev (inodes s ! i) = dev" and "file_ok s (inodes s ! i)"
    and "off + n \<le> unat (isize (inodes s ! i))"
  shows "\<exists>t. readi_loop i off n acc s = Ok (acc @ map (fbyte s (inodes s ! i)) [off..<off + n]) t \<and> bstep {} s t \<and> contents t = contents s"
  using assms
proof (induction n arbitrary: off acc s rule: less_induct)
  case (less n)
  show ?case
  proof (cases "n = 0")
    case True
    then show ?thesis using less.prems(1) bc.frame_refl [of s] by (subst readi_loop.simps) (simp add: bstep_def same_on_def)
  next
    case False
    let ?ip = "inodes s ! i" and ?l = "min n (BSIZE - off mod BSIZE)" let ?a = "file_blk s ?ip (off div BSIZE)"
    note g = fs_geom(1) [OF less.prems(2)]
    have ok: "inode_ok s ?ip" using less.prems(4) by (simp add: file_ok_def)
    have b: "off div BSIZE < MAXFILE" "?a \<noteq> 0" using file_ok_blk [OF less.prems(4), of off] less.prems(5) False by auto
    then have "addr_ok dev s ?a" using ok less.prems(3) by (simp add: inode_ok_def)
    then have so: "sector_ok dev ?a s" using addr_okD(4) [OF g] by blast
    from bmap_old [OF less.prems(1-3) ok b] obtain t where t: "bmap i (off div BSIZE) s = Ok ?a t" "bstep {} s t" "contents t = contents s"
      by blast
    note t' = bstep_fs [OF t(2)]
    from access_block [OF t'(3), of dev ?a] so bstep_sector [OF t(2)] obtain bp u v where
      u: "bread dev ?a t = Ok bp u" "bdata (bufs u bp) = contents s (dev, ?a)" "brelse bp u = Ok () v" "bstep {} t v" "contents v = contents s"
      using t(3) by auto
    note v = bstep_trans [OF t(2) u(4)]
    note v' = bstep_fs [OF v]
    note cg = file_cong [OF u(5) v'(4)] fs_cong(3) [OF u(5) v'(4)]
    have l: "?l \<le> n" "0 < ?l" using False chunk_pos [of n off] by simp_all
    have "take ?l (drop (off mod BSIZE) (contents s (dev, ?a))) = map (fbyte s ?ip) [off..<off + ?l]"
      by (intro take_chunk fs_geom(2) [OF g]) (simp_all add: less.prems(3))
    then have e: "readi_loop i off n acc s = readi_loop i (off + ?l) (n - ?l) (acc @ map (fbyte s ?ip) [off..<off + ?l]) v"
      using False t(1) u(1-3) t'(1) less.prems(3) by (subst readi_loop.simps) (simp add: Let_def del: readi_loop.simps)
    have "n - ?l < n" using l by linarith
    moreover have "off + ?l + (n - ?l) \<le> unat (isize (inodes v ! i))" using l(1) less.prems(5) v'(1) by simp
    moreover have "fs_ok dev v" "idev (inodes v ! i) = dev" "file_ok v (inodes v ! i)" using less.prems(2-4) v'(1) cg by simp_all
    ultimately obtain w where w: "readi_loop i (off + ?l) (n - ?l) (acc @ map (fbyte s ?ip) [off..<off + ?l]) v =
        Ok (acc @ map (fbyte s ?ip) [off..<off + ?l] @ map (fbyte s ?ip) [off + ?l..<off + ?l + (n - ?l)]) w" "bstep {} v w" "contents w = contents v"
      using less.IH [of "n - ?l" v "off + ?l" "acc @ map (fbyte s ?ip) [off..<off + ?l]"] v'(3)
      unfolding cg(2) v'(1) append_assoc by blast
    have "[off..<off + n] = [off..<off + ?l] @ [off + ?l..<off + ?l + (n - ?l)]" using l(1) upt_add_eq_append [of off "off + ?l" "n - ?l"] by simp
    then show ?thesis using e w(1,3) u(5) bstep_trans [OF v w(2)] by (intro exI [of _ w]) (simp del: upt.simps upt_Suc readi_loop.simps)
  qed
qed

lemma slice_fdata:
  assumes "off + n \<le> unat (isize ip)"
  shows "map (fbyte s ip) [off..<off + n] = take n (drop off (fdata s ip))"
  using assms by (simp add: fdata_def take_map drop_map)

lemma readi_data_ok:
  assumes "cache_ok {} s" and "fs_ok (idev (inodes s ! i)) s" and "file_ok s (inodes s ! i)"
    and "off \<le> isize (inodes s ! i)" and "off \<le> off + n"
  shows "\<exists>t. readi_data i off n s = Ok (int (length (take (unat n) (drop (unat off) (fdata s (inodes s ! i))))),
      take (unat n) (drop (unat off) (fdata s (inodes s ! i)))) t \<and> bstep {} s t \<and> contents t = contents s"
proof -
  let ?ip = "inodes s ! i" define n' where "n' = (if off + n > isize ?ip then isize ?ip - off else n)"
  let ?xs = "take (unat n) (drop (unat off) (fdata s ?ip))"
  have sz: "unat (isize ?ip) \<le> 71680" using assms(3) by (simp add: file_ok_def)
  have add: "unat (off + n) = unat off + unat n" using assms(5) by (simp add: unat_plus_simple)
  have un: "unat n' = min (unat n) (unat (isize ?ip) - unat off)"
    using assms(4) add by (auto simp: n'_def word_less_nat_alt word_le_nat_alt unat_sub)
  then have le: "unat off + unat n' \<le> unat (isize ?ip)" using assms(4) by (simp add: word_le_nat_alt)
  from readi_loop_ok [OF assms(1,2) refl assms(3) le, of "[]"] obtain t where
    t: "readi_loop i (unat off) (unat n') [] s = Ok (take (unat n') (drop (unat off) (fdata s ?ip))) t" "bstep {} s t" "contents t = contents s"
    using slice_fdata [OF le, of s] by auto
  have x: "take (unat n') (drop (unat off) (fdata s ?ip)) = ?xs" "length ?xs = unat n'"
    using un by (simp_all add: fdata_def min_def)
  have "unat n' < 2 ^ 31" using un sz by simp
  then have "sint n' = int (unat n')" using sint_of_nat32 [of "unat n'"] by simp
  moreover have e: "readi_data i off n s = bindr (readi_loop i (unat off) (unat n') [] s) (\<lambda>xs s. Ok (sint n', xs) s)"
    unfolding readi_data_def n'_def Let_def using assms(4,5) by (auto simp del: readi_loop.simps)
  ultimately have "readi_data i off n s = Ok (int (length ?xs), ?xs) t"
    unfolding e t(1) x by (simp add: x(2))
  then show ?thesis using t(2,3) by blast
qed

section \<open>Writing\<close>

definition owned :: "('z) kbuf_scheme \<Rightarrow> inode \<Rightarrow> u32 \<Rightarrow> bool" where
  "owned s ip n \<longleftrightarrow> n \<noteq> 0 \<and> (n = iaddrs ip ! NDIRECT \<or> (\<exists>k < MAXFILE. file_blk s ip k = n))"

lemma owned_addr_ok: "inode_ok s ip \<Longrightarrow> owned s ip n \<Longrightarrow> addr_ok (idev ip) s n"
  by (auto simp: owned_def inode_ok_def)

text \<open>
  A step of a write to inode \<open>i\<close>: it may add blocks, which were free, and changes no block that is
  neither a block of the file nor a part of the bitmap.  Only blocks of the file become in use.
\<close>

definition wstep :: "nat \<Rightarrow> ('z) kfs_scheme \<Rightarrow> ('z) kfs_scheme \<Rightarrow> bool" where
  "wstep i s t \<longleftrightarrow> (let ip = inodes s ! i; ip' = inodes t ! i; dev = idev ip in
     inodes t = (inodes s)[i := ip\<lparr>iaddrs := iaddrs ip'\<rparr>] \<and> cache_ok {} t \<and> fquiet s t \<and> fs_ok dev t \<and> inode_ok t ip' \<and> grown dev s t \<and>
     (\<forall>n. owned t ip' n \<longrightarrow> owned s ip n \<or> \<not> in_use dev s (unat n)) \<and> (\<forall>n. owned s ip n \<longrightarrow> owned t ip' n) \<and>
     (\<forall>k < MAXFILE. file_blk s ip k \<noteq> 0 \<longrightarrow> file_blk t ip' k \<noteq> 0) \<and>
     (\<forall>k < nblk dev s. in_use dev t k \<longrightarrow> in_use dev s k \<or> owned t ip' (of_nat k)) \<and>
     (\<forall>d n. d \<noteq> dev \<or> \<not> is_bitmap dev s n \<and> \<not> owned t ip' n \<longrightarrow> contents t (d, n) = contents s (d, n)))"

lemma inode_upd_fields:
  assumes "inodes t = (inodes s)[i := (inodes s ! i)\<lparr>iaddrs := as\<rparr>]" and "i < length (inodes s)"
  shows "inodes t ! i = (inodes s ! i)\<lparr>iaddrs := as\<rparr>" "length (inodes t) = length (inodes s)"
  using assms by simp_all

lemma wstepD:
  assumes "wstep i s t" and "i < length (inodes s)" and "idev (inodes s ! i) = dev"
  shows "inodes t = (inodes s)[i := (inodes s ! i)\<lparr>iaddrs := iaddrs (inodes t ! i)\<rparr>]" "cache_ok {} t" "fquiet s t" "fs_ok dev t"
    "inode_ok t (inodes t ! i)" "grown dev s t"
    "\<And>n. owned t (inodes t ! i) n \<Longrightarrow> owned s (inodes s ! i) n \<or> \<not> in_use dev s (unat n)"
    "\<And>k. k < MAXFILE \<Longrightarrow> file_blk s (inodes s ! i) k \<noteq> 0 \<Longrightarrow> file_blk t (inodes t ! i) k \<noteq> 0"
    "\<And>d n. d \<noteq> dev \<or> \<not> is_bitmap dev s n \<and> \<not> owned t (inodes t ! i) n \<Longrightarrow> contents t (d, n) = contents s (d, n)"
    "i < length (inodes t)" "idev (inodes t ! i) = dev" "isize (inodes t ! i) = isize (inodes s ! i)"
    "\<And>n. owned s (inodes s ! i) n \<Longrightarrow> owned t (inodes t ! i) n"
    "\<And>k. k < nblk dev s \<Longrightarrow> in_use dev t k \<Longrightarrow> in_use dev s k \<or> owned t (inodes t ! i) (of_nat k)"
proof -
  show 1: "inodes t = (inodes s)[i := (inodes s ! i)\<lparr>iaddrs := iaddrs (inodes t ! i)\<rparr>]" using assms(1) by (simp add: wstep_def Let_def)
  have "inodes t ! i = (inodes s ! i)\<lparr>iaddrs := iaddrs (inodes t ! i)\<rparr>" using inode_upd_fields(1) [OF 1 assms(2)] .
  then show "i < length (inodes t)" "idev (inodes t ! i) = dev" "isize (inodes t ! i) = isize (inodes s ! i)"
    using inode_upd_fields(2) [OF 1 assms(2)] assms(2,3) by (simp, metis inode.select_convs(1) inode.surjective inode.update_convs(10),
      metis inode.ext_inject inode.surjective inode.update_convs(10))
qed (use assms(1,3) in \<open>auto simp: wstep_def Let_def\<close>)

lemma wstep_trans:
  assumes "wstep i s t" and "wstep i t u" and "i < length (inodes s)"
  shows "wstep i s u"
proof -
  let ?dev = "idev (inodes s ! i)"
  note t = wstepD [OF assms(1,3) refl]
  note u = wstepD [OF assms(2) t(10,11)]
  have "inodes u = (inodes s)[i := (inodes s ! i)\<lparr>iaddrs := iaddrs (inodes u ! i)\<rparr>]"
    using u(1) inode_upd_fields(1) [OF t(1) assms(3)] t(1) by (metis list_update_overwrite inode.update_convs(10) inode.surjective)
  moreover have g: "grown ?dev s u" using t(6) u(6) by (auto simp: grown_def nblk_def)
  moreover have sb: "superblk ?dev t = superblk ?dev s" using t(6) by (simp add: grown_def)
  have "owned s (inodes s ! i) n \<or> \<not> in_use ?dev s (unat n)" if n: "owned u (inodes u ! i) n" for n
  proof (cases "owned t (inodes t ! i) n")
    case False
    then have "\<not> in_use ?dev t (unat n)" using n u(7) by blast
    moreover have "addr_ok ?dev u n" using owned_addr_ok [OF u(5) n] u(11) by simp
    then have "unat n < nblk ?dev s" using g by (simp add: addr_ok_def grown_def nblk_def)
    ultimately show ?thesis using t(6) by (auto simp: grown_def)
  qed (use t(7) in blast)
  moreover have "contents u (d, n) = contents s (d, n)" if c: "d \<noteq> ?dev \<or> \<not> is_bitmap ?dev s n \<and> \<not> owned u (inodes u ! i) n" for d n
    using c u(9) [of d n] t(9) [of d n] u(13) is_bitmap_super [OF sb] by metis
  moreover have "\<forall>k < MAXFILE. file_blk s (inodes s ! i) k \<noteq> 0 \<longrightarrow> file_blk u (inodes u ! i) k \<noteq> 0" using t(8) u(8) by blast
  moreover have "\<forall>n. owned s (inodes s ! i) n \<longrightarrow> owned u (inodes u ! i) n" using t(13) u(13) by blast
  moreover have "\<forall>k < nblk ?dev s. in_use ?dev u k \<longrightarrow> in_use ?dev s k \<or> owned u (inodes u ! i) (of_nat k)"
    using t(14) u(14) u(13) nblk_cong [OF sb] by metis
  ultimately show ?thesis using u(2,4,5) fquiet_trans [OF t(3) u(3)] unfolding wstep_def Let_def by blast
qed

lemma got_block_wstep:
  assumes "got_block i bn s t a" and "i < length (inodes s)" and "bn < MAXFILE" and "inode_ok s (inodes s ! i)"
    and "fs_ok (idev (inodes s ! i)) s"
  shows "wstep i s t"
proof -
  let ?ip = "inodes s ! i" and ?ip' = "inodes t ! i" let ?dev = "idev ?ip"
  note gb = assms(1) [unfolded got_block_def Let_def]
  have ok: "inode_ok t ?ip'" "grown ?dev s t" "fs_ok ?dev t"
    and ind: "iaddrs ?ip' ! NDIRECT = iaddrs ?ip ! NDIRECT \<or> iaddrs ?ip ! NDIRECT = 0 \<and> \<not> in_use ?dev s (unat (iaddrs ?ip' ! NDIRECT))"
    and oth: "\<forall>k < MAXFILE. k \<noteq> bn \<longrightarrow> file_blk t ?ip' k = file_blk s ?ip k" and a: "a = file_blk t ?ip' bn" "a \<noteq> 0"
    and new: "if file_blk s ?ip bn \<noteq> 0 then a = file_blk s ?ip bn \<and> contents t = contents s \<and> inodes t = inodes s else \<not> in_use ?dev s (unat a)"
    and bits: "\<forall>k < nblk ?dev s. in_use ?dev t k \<longrightarrow> in_use ?dev s k \<or> k = unat a \<or> k = unat (iaddrs ?ip' ! NDIRECT)"
    and same: "\<forall>d n. d \<noteq> ?dev \<or> \<not> is_bitmap ?dev s n \<and> (n = 0 \<or> n \<noteq> iaddrs ?ip' ! NDIRECT) \<longrightarrow> contents t (d, n) = contents s (d, n)"
    using gb by blast+
  have fb: "file_blk t ?ip' k = file_blk s ?ip k" if "k < MAXFILE" "file_blk s ?ip k \<noteq> 0" for k
    using that oth a new by (cases "k = bn") auto
  have fresh: "owned s ?ip n \<or> \<not> in_use ?dev s (unat n)" if "owned t ?ip' n" for n
  proof -
    from that consider "n \<noteq> 0" "n = iaddrs ?ip' ! NDIRECT" | k where "n \<noteq> 0" "k < MAXFILE" "file_blk t ?ip' k = n" by (auto simp: owned_def)
    then show ?thesis
    proof cases
      case (2 k)
      then show ?thesis using a new oth by (cases "k = bn"; cases "file_blk s ?ip bn = 0") (auto simp: owned_def)
    qed (use ind in \<open>auto simp: owned_def\<close>)
  qed
  have mono: "owned t ?ip' n" if "owned s ?ip n" for n
    using that fb ind unfolding owned_def by metis
  have "in_use ?dev t k \<longrightarrow> in_use ?dev s k \<or> owned t ?ip' (of_nat k)" if "k < nblk ?dev s" for k
  proof (intro impI)
    assume "in_use ?dev t k"
    with bits that consider "in_use ?dev s k" | "k = unat a" | "k = unat (iaddrs ?ip' ! NDIRECT)" by blast
    then show "in_use ?dev s k \<or> owned t ?ip' (of_nat k)"
    proof cases
      case 3
      moreover have "iaddrs ?ip' ! NDIRECT = 0 \<Longrightarrow> in_use ?dev s k" using 3 assms(5) by (simp add: fs_ok_def)
      ultimately show ?thesis by (auto simp: owned_def)
    qed (use a assms(3) in \<open>auto simp: owned_def\<close>)
  qed
  moreover have "contents t (d, n) = contents s (d, n)" if "d \<noteq> ?dev \<or> \<not> is_bitmap ?dev s n \<and> \<not> owned t ?ip' n" for d n using same that by (auto simp: owned_def)
  moreover have "file_blk t ?ip' k \<noteq> 0" if "k < MAXFILE" "file_blk s ?ip k \<noteq> 0" for k using that fb by simp
  ultimately show ?thesis using gb fresh mono unfolding wstep_def Let_def by blast
qed

lemma file_blk_data:
  "contents t = (contents s)((idev ip, a) := d) \<Longrightarrow> a \<noteq> iaddrs ip ! NDIRECT \<Longrightarrow> file_blk t ip k = file_blk s ip k"
  by (simp add: file_blk_def)

lemma data_wstep:
  assumes "bstep {} s t" and "fs_ok (idev (inodes s ! i)) s" and "inode_ok s (inodes s ! i)" and "bn < MAXFILE"
    and "a = file_blk s (inodes s ! i) bn" and "a \<noteq> 0" and "contents t = (contents s)((idev (inodes s ! i), a) := d)" and "length d = BSIZE"
  shows "wstep i s t" and "\<forall>k. file_blk t (inodes s ! i) k = file_blk s (inodes s ! i) k"
    and "nfree (idev (inodes s ! i)) t = nfree (idev (inodes s ! i)) s"
proof -
  let ?ip = "inodes s ! i" let ?dev = "idev ?ip"
  note t = bstep_fs [OF assms(1)]
  have a: "addr_ok ?dev s a" "a \<noteq> iaddrs ?ip ! NDIRECT" using assms(3-6) by (auto simp: inode_ok_def)
  note fd = fs_data [OF assms(2) a(1) assms(7,8) t(4)]
  show fb: "\<forall>k. file_blk t ?ip k = file_blk s ?ip k" using file_blk_data [OF assms(7) a(2)] by blast
  then have fb': "file_blk t ?ip = file_blk s ?ip" by blast
  show "nfree ?dev t = nfree ?dev s" by (rule fd(3))
  have "owned t ?ip = owned s ?ip" using fb by (simp add: owned_def fun_eq_iff)
  moreover have "inode_ok t ?ip" using assms(3) unfolding inode_ok_def fb' fd(4) .
  moreover have "grown ?dev s t" using fd(1,7) by (simp add: grown_def)
  moreover have "contents t (d', n) = contents s (d', n)" if "d' \<noteq> ?dev \<or> \<not> is_bitmap ?dev s n \<and> \<not> owned s ?ip n" for d' n
    using that assms(4-7) by (auto simp: owned_def)
  ultimately show "wstep i s t" using t fd(2,7) fb unfolding wstep_def Let_def by simp
qed

text \<open>A write of the bytes \<open>xs\<close> at offset \<open>off\<close> of inode \<open>i\<close>.\<close>

definition wrote :: "nat \<Rightarrow> nat \<Rightarrow> u8 list \<Rightarrow> ('z) kfs_scheme \<Rightarrow> ('z) kfs_scheme \<Rightarrow> bool" where
  "wrote i off xs s t \<longleftrightarrow> wstep i s t \<and>
     (\<forall>j < length xs. file_blk t (inodes t ! i) ((off + j) div BSIZE) \<noteq> 0 \<and> fbyte t (inodes t ! i) (off + j) = xs ! j) \<and>
     (\<forall>p < MAXFILE * BSIZE. (p < off \<or> off + length xs \<le> p) \<and> file_blk s (inodes s ! i) (p div BSIZE) \<noteq> 0 \<longrightarrow>
        fbyte t (inodes t ! i) p = fbyte s (inodes s ! i) p) \<and>
     ((\<forall>p. off \<le> p \<and> p < off + length xs \<longrightarrow> file_blk s (inodes s ! i) (p div BSIZE) \<noteq> 0) \<longrightarrow> inodes t = inodes s)"

lemma div_MAXFILE: "p < MAXFILE * BSIZE \<Longrightarrow> p div BSIZE < MAXFILE" for p :: nat
  by (intro less_mult_imp_div_less) simp

lemma wrote_trans:
  assumes t: "wrote i off xs s t" and u: "wrote i (off + length xs) ys t u" and i: "i < length (inodes s)"
    and le: "off + length xs + length ys \<le> MAXFILE * BSIZE"
  shows "wrote i off (xs @ ys) s u"
proof -
  have w: "wstep i s t" "wstep i t u" using t u by (simp_all add: wrote_def)
  note t' = wstepD [OF w(1) i refl]
  note u' = wstepD [OF w(2) t'(10,11)]
  have "wstep i s u" by (rule wstep_trans [OF w i])
  moreover have "file_blk u (inodes u ! i) ((off + j) div BSIZE) \<noteq> 0 \<and> fbyte u (inodes u ! i) (off + j) = (xs @ ys) ! j"
    if j: "j < length (xs @ ys)" for j
  proof (cases "j < length xs")
    case True
    have lt: "off + j < MAXFILE * BSIZE" using True le by simp
    have "file_blk t (inodes t ! i) ((off + j) div BSIZE) \<noteq> 0" "fbyte t (inodes t ! i) (off + j) = xs ! j"
      using t True by (simp_all add: wrote_def)
    then show ?thesis using u u'(8) [OF div_MAXFILE [OF lt]] True lt by (simp add: wrote_def nth_append)
  next
    case False
    then have "file_blk u (inodes u ! i) ((off + length xs + (j - length xs)) div BSIZE) \<noteq> 0 \<and>
        fbyte u (inodes u ! i) (off + length xs + (j - length xs)) = ys ! (j - length xs)"
      using u j unfolding wrote_def by (metis add_diff_inverse_nat length_append nat_add_left_cancel_less)
    then show ?thesis using False by (simp add: nth_append)
  qed
  moreover have "fbyte u (inodes u ! i) p = fbyte s (inodes s ! i) p"
    if p: "p < MAXFILE * BSIZE" "p < off \<or> off + length (xs @ ys) \<le> p" "file_blk s (inodes s ! i) (p div BSIZE) \<noteq> 0" for p
  proof -
    have "fbyte t (inodes t ! i) p = fbyte s (inodes s ! i) p" using t p by (auto simp: wrote_def)
    moreover have "fbyte u (inodes u ! i) p = fbyte t (inodes t ! i) p"
      using u p(1,2) t'(8) [OF div_MAXFILE [OF p(1)] p(3)] by (auto simp: wrote_def)
    ultimately show ?thesis by simp
  qed
  moreover have "inodes u = inodes s" if h: "\<forall>p. off \<le> p \<and> p < off + length (xs @ ys) \<longrightarrow> file_blk s (inodes s ! i) (p div BSIZE) \<noteq> 0"
  proof -
    have st: "inodes t = inodes s" using t h by (simp add: wrote_def)
    have "file_blk t (inodes t ! i) (p div BSIZE) \<noteq> 0" if "off + length xs \<le> p" "p < off + length xs + length ys" for p
    proof -
      have "p < MAXFILE * BSIZE" using that le by linarith
      moreover have "file_blk s (inodes s ! i) (p div BSIZE) \<noteq> 0" using h that by simp
      ultimately show ?thesis using t'(8) [OF div_MAXFILE] by blast
    qed
    then show ?thesis using u st by (simp add: wrote_def)
  qed
  ultimately show ?thesis unfolding wrote_def by blast
qed

lemma nth_splice:
  assumes "k + length xs \<le> length d" and "p < length d"
  shows "(take k d @ xs @ drop (k + length xs) d) ! p = (if k \<le> p \<and> p < k + length xs then xs ! (p - k) else d ! p)"
  using assms by (auto simp: nth_append min_def)

lemma write_data:
  assumes gb: "got_block i (off div BSIZE) s t a" and s: "i < length (inodes s)" "inode_ok s (inodes s ! i)" "fs_ok (idev (inodes s ! i)) s"
    and off: "off < MAXFILE * BSIZE" "length xs \<le> BSIZE - off mod BSIZE" and w: "inodes w = inodes t"
      "\<forall>k. file_blk w (inodes t ! i) k = file_blk t (inodes t ! i) k"
      "contents w = (contents t)((idev (inodes s ! i), a) :=
         take (off mod BSIZE) (contents t (idev (inodes s ! i), a)) @ xs @ drop (off mod BSIZE + length xs) (contents t (idev (inodes s ! i), a)))"
  shows "j < length xs \<Longrightarrow> file_blk w (inodes w ! i) ((off + j) div BSIZE) \<noteq> 0 \<and> fbyte w (inodes w ! i) (off + j) = xs ! j"
    and "p < MAXFILE * BSIZE \<Longrightarrow> p < off \<or> off + length xs \<le> p \<Longrightarrow> file_blk s (inodes s ! i) (p div BSIZE) \<noteq> 0 \<Longrightarrow>
      fbyte w (inodes w ! i) p = fbyte s (inodes s ! i) p"
proof -
  let ?ip = "inodes s ! i" and ?ip' = "inodes t ! i" and ?bn = "off div BSIZE" let ?dev = "idev ?ip"
  note ws = wstepD [OF got_block_wstep [OF gb s(1) div_MAXFILE [OF off(1)] s(2,3)] s(1) refl]
  have len: "length (contents t (?dev, n)) = BSIZE" for n using fs_geom ws(4) by blast
  have a: "a = file_blk t ?ip' ?bn" "a \<noteq> 0" and oth: "\<forall>k < MAXFILE. k \<noteq> ?bn \<longrightarrow> file_blk t ?ip' k = file_blk s ?ip k"
    and old: "file_blk s ?ip ?bn \<noteq> 0 \<Longrightarrow> a = file_blk s ?ip ?bn \<and> contents t = contents s"
    and same: "\<forall>d n. d \<noteq> ?dev \<or> \<not> is_bitmap ?dev s n \<and> (n = 0 \<or> n \<noteq> iaddrs ?ip' ! NDIRECT) \<longrightarrow> contents t (d, n) = contents s (d, n)"
    using gb [unfolded got_block_def Let_def] by (auto split: if_splits)
  have k: "off mod BSIZE + length xs \<le> BSIZE" using off(2) mod_less_divisor [of BSIZE off] by simp
  have new: "contents w (?dev, a) ! p = (if off mod BSIZE \<le> p \<and> p < off mod BSIZE + length xs then xs ! (p - off mod BSIZE) else contents t (?dev, a) ! p)"
    if "p < BSIZE" for p using nth_splice [of "off mod BSIZE" xs "contents t (?dev, a)" p] len k that w(3) by simp
  show "file_blk w (inodes w ! i) ((off + j) div BSIZE) \<noteq> 0 \<and> fbyte w (inodes w ! i) (off + j) = xs ! j" if j: "j < length xs"
  proof -
    have "j < BSIZE - off mod BSIZE" using j off(2) by simp
    note cd = chunk_div [OF this]
    show ?thesis using a w(1,2) ws(11) new [of "off mod BSIZE + j"] j k by (simp add: fbyte_def cd)
  qed
  show "fbyte w (inodes w ! i) p = fbyte s ?ip p"
    if p: "p < MAXFILE * BSIZE" "p < off \<or> off + length xs \<le> p" "file_blk s ?ip (p div BSIZE) \<noteq> 0"
  proof (cases "p div BSIZE = ?bn")
    case True
    have "p = ?bn * BSIZE + p mod BSIZE" "off = ?bn * BSIZE + off mod BSIZE" using True by (metis div_mult_mod_eq)+
    then have "p mod BSIZE < off mod BSIZE \<or> off mod BSIZE + length xs \<le> p mod BSIZE" using p(2) by linarith
    then show ?thesis using new [of "p mod BSIZE"] old a w(1,2) ws(11) p(3) True by (auto simp: fbyte_def)
  next
    case False
    let ?b = "file_blk t ?ip' (p div BSIZE)"
    note q = div_MAXFILE [OF p(1)]
    have b: "?b = file_blk s ?ip (p div BSIZE)" "?b \<noteq> 0" using oth q False p(3) by auto
    have "?b \<noteq> a" using ws(5) a q div_MAXFILE [OF off(1)] False unfolding inode_ok_def by blast
    moreover have "?b \<noteq> iaddrs ?ip' ! NDIRECT" using ws(5) b(2) q unfolding inode_ok_def by blast
    moreover have "addr_ok ?dev s ?b" using s(2) q b p(3) by (auto simp: inode_ok_def)
    then have "\<not> is_bitmap ?dev s ?b" by (rule addr_okD(3) [OF fs_geom(1) [OF s(3)]])
    ultimately show ?thesis using same w ws(11) b(1) by (simp add: fbyte_def)
  qed
qed

lemma write_chunk:
  assumes s: "cache_ok {} s" "fs_ok dev s" "i < length (inodes s)" "idev (inodes s ! i) = dev" "inode_ok s (inodes s ! i)"
    and off: "off < MAXFILE * BSIZE" "length xs \<le> BSIZE - off mod BSIZE" "xs \<noteq> []" and free: "2 \<le> nfree dev s"
  shows "\<exists>a t bp u v w. bmap i (off div BSIZE) s = Ok a t \<and> idev (inodes t ! i) = dev \<and> bread dev a t = Ok bp u \<and>
    bwrite bp (upd_data bp (\<lambda>d. take (off mod BSIZE) d @ xs @ drop (off mod BSIZE + length xs) d) u) = Ok () v \<and> brelse bp v = Ok () w \<and>
    wrote i off xs s w \<and> nfree dev s \<le> nfree dev w + 2"
proof -
  let ?f = "\<lambda>d. take (off mod BSIZE) d @ xs @ drop (off mod BSIZE + length xs) d"
  from bmap_ok [OF s div_MAXFILE [OF off(1)]] free obtain a t where t: "bmap i (off div BSIZE) s = Ok a t" "got_block i (off div BSIZE) s t a"
    by blast
  have fs: "fs_ok (idev (inodes s ! i)) s" using s(2,4) by simp
  note st = got_block_wstep [OF t(2) s(3) div_MAXFILE [OF off(1)] s(5) fs]
  note ws = wstepD [OF st s(3,4)]
  have a: "a = file_blk t (inodes t ! i) (off div BSIZE)" "a \<noteq> 0" "nfree dev s \<le> nfree dev t + 2"
    using t(2) s(4) by (auto simp: got_block_def Let_def)
  then have ad: "addr_ok dev t a" using ws(5,11) div_MAXFILE [OF off(1)] by (auto simp: inode_ok_def)
  note g = fs_geom(1) [OF ws(4)]
  from modify_block [OF ws(2), of dev a ?f] addr_okD(4) [OF g ad] obtain bp u v w where
    u: "bread dev a t = Ok bp u" "bwrite bp (upd_data bp ?f u) = Ok () v" "brelse bp v = Ok () w" "bstep {} t w"
      "contents w = (contents t)((dev, a) := ?f (contents t (dev, a)))" by auto
  have "length (?f (contents t (dev, a))) = BSIZE" using fs_geom(2) [OF g] off(2) mod_less_divisor [of BSIZE off] by simp
  note dw = data_wstep [OF u(4), of i, unfolded ws(11), OF ws(4,5) div_MAXFILE [OF off(1)] a(1,2) u(5) this]
  have "inodes w = inodes s" if "\<forall>p. off \<le> p \<and> p < off + length xs \<longrightarrow> file_blk s (inodes s ! i) (p div BSIZE) \<noteq> 0"
  proof -
    have "file_blk s (inodes s ! i) (off div BSIZE) \<noteq> 0" using that off(3) by simp
    then have "inodes t = inodes s" using t(2) by (simp add: got_block_def Let_def)
    then show ?thesis using bstep_fs(1) [OF u(4)] by simp
  qed
  then have "wrote i off xs s w"
    unfolding wrote_def
    using wstep_trans [OF st dw(1) s(3)] write_data [OF t(2) s(3,5) _ off(1,2) bstep_fs(1) [OF u(4)] dw(2)] s(2,4) u(5) by blast
  then show ?thesis using t(1) u(1-3) ws(11) a(3) dw(3) by (intro exI [of _ a] exI [of _ t] exI [of _ bp] exI [of _ u] exI [of _ v] exI [of _ w]) simp
qed

text \<open>Two blocks per block written are enough: one for the data and one for the table of indirect blocks.\<close>

definition blocks_for :: "nat \<Rightarrow> nat \<Rightarrow> nat" where
  "blocks_for off n = (if n = 0 then 0 else 2 * ((off mod BSIZE + n + BSIZE - 1) div BSIZE))"

lemma blocks_for_step:
  assumes "0 < n"
  shows "blocks_for (off + min n (BSIZE - off mod BSIZE)) (n - min n (BSIZE - off mod BSIZE)) + 2 \<le> blocks_for off n"
proof (cases "n \<le> BSIZE - off mod BSIZE")
  case True
  have "1 \<le> (off mod BSIZE + n + BSIZE - 1) div BSIZE" using assms div_le_mono [of BSIZE "off mod BSIZE + n + BSIZE - 1" BSIZE] by simp
  then show ?thesis using True assms by (simp add: blocks_for_def)
next
  case False
  have "off div BSIZE * BSIZE + k + (BSIZE - k) = (off div BSIZE + 1) * BSIZE" if "k < BSIZE" for k using that by simp
  note this [of "off mod BSIZE", unfolded div_mult_mod_eq]
  then have "off + (BSIZE - off mod BSIZE) = (off div BSIZE + 1) * BSIZE" by (simp only: mod_less_divisor zero_less_numeral)
  then have "(off + (BSIZE - off mod BSIZE)) mod BSIZE = 0" by (metis mod_mult_self2_is_0)
  moreover have "off mod BSIZE + n + BSIZE - 1 = (n - (BSIZE - off mod BSIZE) + BSIZE - 1) + BSIZE" using False mod_less_divisor [of BSIZE off] by simp
  then have "(off mod BSIZE + n + BSIZE - 1) div BSIZE = (n - (BSIZE - off mod BSIZE) + BSIZE - 1) div BSIZE + 1" by simp
  ultimately show ?thesis using False assms by (simp add: blocks_for_def)
qed

lemma writei_loop_ok:
  assumes "cache_ok {} s" "fs_ok dev s" "i < length (inodes s)" "idev (inodes s ! i) = dev" "inode_ok s (inodes s ! i)"
    and "off + n \<le> MAXFILE * BSIZE" and "blocks_for off n \<le> nfree dev s" and "0 < n"
  shows "\<exists>t. writei_loop i m src off n s = Ok (off + n) t \<and> wrote i off (bytes m src n) s t"
  using assms
proof (induction n arbitrary: off src s rule: less_induct)
  case (less n)
  let ?l = "min n (BSIZE - off mod BSIZE)"
  have l: "?l \<le> n" "0 < ?l" "length (bytes m src ?l) \<le> BSIZE - off mod BSIZE" "off < MAXFILE * BSIZE"
    using less.prems(6,8) chunk_pos [of n off] by simp_all
  have ne: "bytes m src ?l \<noteq> []" using l(2) length_bytes [of m src ?l] by (metis list.size(3) less_irrefl)
  have bf: "blocks_for (off + ?l) (n - ?l) + 2 \<le> nfree dev s" using blocks_for_step [OF less.prems(8), of off] less.prems(7) by linarith
  then have "2 \<le> nfree dev s" by simp
  from write_chunk [OF less.prems(1-5) l(4,3) ne this] obtain a t bp u v w where
    w: "bmap i (off div BSIZE) s = Ok a t" "idev (inodes t ! i) = dev" "bread dev a t = Ok bp u"
      "bwrite bp (upd_data bp (\<lambda>d. take (off mod BSIZE) d @ bytes m src ?l @ drop (off mod BSIZE + length (bytes m src ?l)) d) u) = Ok () v"
      "brelse bp v = Ok () w" "wrote i off (bytes m src ?l) s w" "nfree dev s \<le> nfree dev w + 2" by (elim exE conjE)
  have e: "writei_loop i m src off n s = writei_loop i m (src + ?l) (off + ?l) (n - ?l) w"
    using less.prems(8) w(1-5) by (subst writei_loop.simps) (simp add: Let_def del: writei_loop.simps)
  have "wstep i s w" using w(6) by (simp add: wrote_def)
  note ws = wstepD [OF this less.prems(3,4)]
  have ap: "bytes m src n = bytes m src ?l @ bytes m (src + ?l) (n - ?l)"
    using l(1) by (intro nth_equalityI) (auto simp: nth_append)
  show ?case
  proof (cases "n - ?l = 0")
    case True
    then have "?l = n" using l(1) by simp
    then show ?thesis using e w(6) by (subst (asm) writei_loop.simps [of i m "src + ?l"]) simp
  next
    case False
    then have n: "n - ?l < n" "off + ?l + (n - ?l) = off + n" "0 < n - ?l" using l(1,2) by linarith+
    have le: "off + ?l + (n - ?l) \<le> MAXFILE * BSIZE" unfolding n(2) by (rule less.prems(6))
    have "blocks_for (off + ?l) (n - ?l) \<le> nfree dev w" using bf w(7) by linarith
    from less.IH [OF n(1) ws(2,4,10,11,5) le this n(3), of "src + ?l"] obtain x where x: "writei_loop i m (src + ?l) (off + ?l) (n - ?l) w = Ok (off + n) x" "wrote i (off + ?l) (bytes m (src + ?l) (n - ?l)) w x"
      unfolding n(2) by blast
    have "wrote i off (bytes m src n) s x"
      unfolding ap by (rule wrote_trans [OF w(6) _ less.prems(3)]) (use x(2) less.prems(6) n(2) in \<open>simp_all del: min_less_iff_conj\<close>)
    then show ?thesis using e x(1) by simp
  qed
qed

section \<open>Updating the inode on disk\<close>

lemma length_put_dinode [simp]: "length (put_dinode k ip d) = length d"
proof -
  have "length (fold (\<lambda>j d. put32 (p j) (v j) d) js d) = length d" for p v d and js :: "nat list" by (induction js arbitrary: d) simp_all
  then show ?thesis by (simp add: put_dinode_def Let_def)
qed

lemma put32_apart: "j \<noteq> k \<Longrightarrow> get32 (p + 4 * j) (put32 (p + 4 * k) w d) = get32 (p + 4 * j) d"
  by (rule get32_put_other(2)) arith

lemma get_fold_put32:
  assumes "distinct js" and "\<forall>j \<in> set js. p + 4 * j + 4 \<le> length d"
  shows "j \<in> set js \<Longrightarrow> get32 (p + 4 * j) (fold (\<lambda>j d. put32 (p + 4 * j) (v j) d) js d) = v j"
    and "q + 4 \<le> p \<Longrightarrow> get32 q (fold (\<lambda>j d. put32 (p + 4 * j) (v j) d) js d) = get32 q d"
    and "q + 2 \<le> p \<Longrightarrow> get16 q (fold (\<lambda>j d. put32 (p + 4 * j) (v j) d) js d) = get16 q d"
  using assms
proof (induction js arbitrary: d)
  case (Cons k js)
  have other: "j \<notin> set js \<Longrightarrow> get32 (p + 4 * j) (fold (\<lambda>j d. put32 (p + 4 * j) (v j) d) js d) = get32 (p + 4 * j) d" for d
    by (induction js arbitrary: d) (auto simp: put32_apart)
  { case 1
    then show ?case using Cons.IH(1) [of "put32 (p + 4 * k) (v k) d"] other by (cases "j = k") auto }
  { case 2 then show ?case using Cons.IH(2) [of "put32 (p + 4 * k) (v k) d"] by auto }
  { case 3 then show ?case using Cons.IH(3) [of "put32 (p + 4 * k) (v k) d"] by auto }
qed simp_all

lemma get_put_dinode:
  assumes "64 * k + 64 \<le> length d" and "length (iaddrs ip) = NDIRECT + 1"
  shows "get_dinode k (put_dinode k ip d) ip = ip"
proof -
  let ?p = "64 * k + 12"
  let ?d = "put32 (64 * k + 8) (isize ip) (put16 (64 * k + 6) (inlink ip) (put16 (64 * k + 4) (iminor ip)
    (put16 (64 * k + 2) (imajor ip) (put16 (64 * k) (itype ip) d))))"
  have e: "put_dinode k ip d = fold (\<lambda>j d. put32 (?p + 4 * j) (iaddrs ip ! j) d) [0..<NDIRECT + 1] ?d"
    by (simp add: put_dinode_def Let_def del: upt_Suc)
  have b: "\<forall>j \<in> set [0..<NDIRECT + 1]. ?p + 4 * j + 4 \<le> length ?d" using assms(1) by auto
  note f = get_fold_put32 [OF distinct_upt b, where v = "\<lambda>j. iaddrs ip ! j"]
  have "map (\<lambda>j. get32 (?p + 4 * j) (put_dinode k ip d)) [0..<NDIRECT + 1] = map (\<lambda>j. iaddrs ip ! j) [0..<NDIRECT + 1]"
    unfolding e using f(1) by (intro map_cong refl) blast
  also have "\<dots> = iaddrs ip" using assms(2) by (metis map_nth)
  finally have "map (\<lambda>j. get32 (?p + 4 * j) (put_dinode k ip d)) [0..<NDIRECT + 1] = iaddrs ip" .
  moreover have "get16 q (put_dinode k ip d) = get16 q ?d" if "q + 2 \<le> ?p" for q unfolding e by (rule f(3) [OF that])
  then have "get16 (64 * k) (put_dinode k ip d) = itype ip" "get16 (64 * k + 2) (put_dinode k ip d) = imajor ip"
    "get16 (64 * k + 4) (put_dinode k ip d) = iminor ip" "get16 (64 * k + 6) (put_dinode k ip d) = inlink ip"
    using assms(1) by simp_all
  moreover have "get32 q (put_dinode k ip d) = get32 q ?d" if "q + 4 \<le> ?p" for q unfolding e by (rule f(2) [OF that])
  then have "get32 (64 * k + 8) (put_dinode k ip d) = isize ip"
    using assms(1) by simp
  ultimately show ?thesis by (simp add: get_dinode_def Let_def del: upt_Suc upt.simps)
qed

lemma nth_put_dinode: "p < 64 * k \<or> 64 * k + 64 \<le> p \<Longrightarrow> put_dinode k ip d ! p = d ! p"
proof -
  assume p: "p < 64 * k \<or> 64 * k + 64 \<le> p"
  have "fold (\<lambda>j d. put32 (64 * k + 12 + 4 * j) (iaddrs ip ! j) d) js d ! p = d ! p" if "set js \<subseteq> {0..<NDIRECT + 1}" for js d
    using that p by (induction js arbitrary: d) (auto simp: put32_def)
  then show ?thesis using p by (simp add: put_dinode_def Let_def put32_def put16_def del: upt_Suc) auto
qed

lemma get_dinode_cong:
  assumes "\<forall>p. 64 * k \<le> p \<and> p < 64 * k + 64 \<longrightarrow> d ! p = d' ! p"
  shows "get_dinode k d ip = get_dinode k d' ip"
proof -
  have "get16 (64 * k + o') d = get16 (64 * k + o') d'" if "o' + 2 \<le> 64" for o' using assms that by (simp add: get16_def)
  from this [of 0] this [of 2] this [of 4] this [of 6]
  have "get16 (64 * k) d = get16 (64 * k) d'" "get16 (64 * k + 2) d = get16 (64 * k + 2) d'" "get16 (64 * k + 4) d = get16 (64 * k + 4) d'"
    "get16 (64 * k + 6) d = get16 (64 * k + 6) d'" by simp_all
  moreover have g: "get32 (64 * k + o') d = get32 (64 * k + o') d'" if "o' + 4 \<le> 64" for o' using assms that by (simp add: get32_def)
  moreover have "map (\<lambda>j. get32 (64 * k + 12 + 4 * j) d) [0..<NDIRECT + 1] = map (\<lambda>j. get32 (64 * k + 12 + 4 * j) d') [0..<NDIRECT + 1]"
    using g [of "12 + 4 * _"] by (intro map_cong refl) (auto simp: add.assoc)
  ultimately show ?thesis using g [of 8] by (simp add: get_dinode_def Let_def del: upt_Suc upt.simps)
qed

lemma IBLOCK_meta:
  assumes "geom_ok dev s" and "k < unat (sb_ninodes (superblk dev s))"
  shows "unat (of_nat (IBLOCK k) :: u32) = IBLOCK k" "IBLOCK k \<le> last_meta dev s" "of_nat (IBLOCK k) \<noteq> (1 :: u32)"
    "\<not> is_bitmap dev s (of_nat (IBLOCK k))" "sector_ok dev (of_nat (IBLOCK k)) s"
proof -
  have n: "unat (sb_ninodes (superblk dev s)) < 2 ^ 27" and d: "dev = 0 \<or> dev = 1 \<and> havedisk1 s" using assms(1) by (simp_all add: geom_ok_def)
  have "k div IPB \<le> k" by simp
  then have lt: "IBLOCK k < 2 ^ 28" using assms(2) n by (simp add: IBLOCK_def)
  then show u: "unat (of_nat (IBLOCK k) :: u32) = IBLOCK k" by (intro unat_of_nat32) simp
  have le: "k div IPB \<le> unat (sb_ninodes (superblk dev s)) div IPB" using assms(2) by (intro div_le_mono) simp
  then show "IBLOCK k \<le> last_meta dev s" by (simp add: IBLOCK_def last_meta_def BBLOCK_def)
  show "of_nat (IBLOCK k) \<noteq> (1 :: u32)"
  proof
    assume "of_nat (IBLOCK k) = (1 :: u32)"
    then show False using u by (simp add: IBLOCK_def)
  qed
  show "\<not> is_bitmap dev s (of_nat (IBLOCK k))"
  proof
    assume "is_bitmap dev s (of_nat (IBLOCK k))"
    then obtain b where b: "b < nblk dev s" "of_nat (IBLOCK k) = bmap_block dev s b" by (auto simp: is_bitmap_def)
    then show False using geom_sector(3) [OF assms(1), of b] nblk_less [OF assms(1)] u le by (simp add: BBLOCK_def IBLOCK_def)
  qed
  show "sector_ok dev (of_nat (IBLOCK k)) s" using u lt d by (simp add: sector_ok_def)
qed

definition inode_block :: "inode \<Rightarrow> u32" where
  "inode_block ip = of_nat (IBLOCK (unat (inum ip)))"

definition disk_inode :: "('z) kbuf_scheme \<Rightarrow> inode \<Rightarrow> inode" where
  "disk_inode s ip = get_dinode (unat (inum ip) mod IPB) (contents s (idev ip, inode_block ip)) ip"

text \<open>The inode numbers that the super block has room for.\<close>

definition inum_ok :: "('z) kbuf_scheme \<Rightarrow> inode \<Rightarrow> bool" where
  "inum_ok s ip \<longleftrightarrow> unat (inum ip) < unat (sb_ninodes (superblk (idev ip) s))"

lemma disk_inode_other:
  assumes "fs_ok (idev ip) s" and "inum_ok s ip" and "inum_ok s jp" and "idev jp = idev ip" and "inum jp \<noteq> inum ip"
    and "contents t = (contents s)((idev ip, inode_block ip) := put_dinode (unat (inum ip) mod IPB) ip' (contents s (idev ip, inode_block ip)))"
  shows "disk_inode t jp = disk_inode s jp"
proof (cases "inode_block jp = inode_block ip")
  case True
  let ?k = "unat (inum ip)" and ?j = "unat (inum jp)"
  note g = fs_geom(1) [OF assms(1)]
  have "IBLOCK ?j = IBLOCK ?k"
    using IBLOCK_meta(1) [OF g] assms(2-4) True by (metis inode_block_def inum_ok_def)
  then have "?j div IPB = ?k div IPB" by (simp add: IBLOCK_def)
  moreover have "?j \<noteq> ?k" using assms(5) by (simp add: unat_eq_iff)
  ultimately have ne: "?j mod IPB \<noteq> ?k mod IPB" by (metis div_mult_mod_eq)
  have "64 * (?j mod IPB) + 64 \<le> 64 * (?k mod IPB) \<or> 64 * (?k mod IPB) + 64 \<le> 64 * (?j mod IPB)" using ne by linarith
  then have "\<forall>p. 64 * (?j mod IPB) \<le> p \<and> p < 64 * (?j mod IPB) + 64 \<longrightarrow>
      put_dinode (?k mod IPB) ip' (contents s (idev ip, inode_block ip)) ! p = contents s (idev ip, inode_block ip) ! p"
    by (intro allI impI nth_put_dinode) linarith
  from get_dinode_cong [OF this] show ?thesis using True assms(4,6) by (simp add: disk_inode_def)
qed (use assms(4,6) in \<open>simp add: disk_inode_def\<close>)

lemma iupdate_ok:
  assumes "cache_ok {} s" and "fs_ok dev s" and "idev (inodes s ! i) = dev" and "inode_ok s (inodes s ! i)"
    and "inum_ok s (inodes s ! i)" and "last_meta dev s < nblk dev s"
  shows "\<exists>t. iupdate i s = Ok () t \<and> bstep {} s t \<and> fs_ok dev t \<and> superblk dev t = superblk dev s \<and>
    (\<forall>k < nblk dev s. in_use dev t k = in_use dev s k) \<and> disk_inode t (inodes s ! i) = inodes s ! i \<and>
    contents t = (contents s)((dev, inode_block (inodes s ! i)) :=
      put_dinode (unat (inum (inodes s ! i)) mod IPB) (inodes s ! i) (contents s (dev, inode_block (inodes s ! i))))"
proof -
  let ?ip = "inodes s ! i" let ?k = "unat (inum ?ip)" let ?b = "of_nat (IBLOCK ?k) :: u32"
  note g = fs_geom(1) [OF assms(2)]
  have n: "?k < unat (sb_ninodes (superblk dev s))" using assms(3,5) by (simp add: inum_ok_def)
  note ib = IBLOCK_meta [OF g n]
  from modify_block [OF assms(1), of dev ?b "put_dinode (?k mod IPB) ?ip"] ib(5) obtain bp t u v where
    t: "bread dev ?b s = Ok bp t" "bframe s t" "bwrite bp (upd_data bp (put_dinode (?k mod IPB) ?ip) t) = Ok () u" "brelse bp u = Ok () v"
      "bstep {} s v" "contents v = (contents s)((dev, ?b) := put_dinode (?k mod IPB) ?ip (contents s (dev, ?b)))" by auto
  have "inodes t = inodes s" using t(2) inodes_more [of t s] by (simp add: bframe_def quiet_def)
  then have e: "iupdate i s = Ok () v" using t(1,3,4) assms(3) by (simp add: iupdate_def Let_def)
  have iu: "in_use dev s (unat ?b)" using assms(2) ib(1,2) by (simp add: fs_ok_def)
  have len: "length (put_dinode (?k mod IPB) ?ip (contents s (dev, ?b))) = BSIZE" using fs_geom(2) [OF g] by simp
  note fw = fs_write [OF assms(2) ib(3,4) iu assms(6) t(6) len bstep_fs(4) [OF t(5)]]
  have "?k mod IPB < IPB" by simp
  then have "64 * (?k mod IPB) + 64 \<le> length (contents s (dev, ?b))" using fs_geom(2) [OF g, of ?b] by linarith
  then have "disk_inode v ?ip = ?ip" using get_put_dinode t(6) assms(3,4) by (simp add: disk_inode_def inode_block_def inode_ok_def)
  then show ?thesis using e t(5,6) fw(1,2,7) by (simp add: inode_block_def)
qed

section \<open>Whole files\<close>

lemma inode_ok_same:
  assumes "inode_ok s ip" and "\<forall>k < MAXFILE. file_blk t ip k = file_blk s ip k" and "grown (idev ip) s t"
  shows "inode_ok t ip"
  unfolding inode_ok_def
proof (intro conjI allI impI)
  fix k k' :: nat assume k: "k < MAXFILE" "k' < MAXFILE" "file_blk t ip k = file_blk t ip k' \<and> file_blk t ip k \<noteq> 0"
  from k(3) have "file_blk s ip k = file_blk s ip k' \<and> file_blk s ip k \<noteq> 0" unfolding assms(2) [rule_format, OF k(1)] assms(2) [rule_format, OF k(2)] .
  then show "k = k'" using assms(1) k(1,2) unfolding inode_ok_def by blast
qed (use assms grown_addr_ok [OF assms(3)] in \<open>simp_all add: inode_ok_def\<close>)

lemma file_frame:
  assumes "inode_ok s ip" and "\<forall>n. owned s ip n \<longrightarrow> contents t (idev ip, n) = contents s (idev ip, n)" and "grown (idev ip) s t"
  shows "k < MAXFILE \<Longrightarrow> file_blk t ip k = file_blk s ip k" and "inode_ok t ip"
    and "p < MAXFILE * BSIZE \<Longrightarrow> file_blk s ip (p div BSIZE) \<noteq> 0 \<Longrightarrow> fbyte t ip p = fbyte s ip p"
    and "file_ok s ip \<Longrightarrow> file_ok t ip \<and> fdata t ip = fdata s ip"
proof -
  show fb: "file_blk t ip k = file_blk s ip k" if "k < MAXFILE" for k
    using assms(2) by (cases "iaddrs ip ! NDIRECT = 0") (simp_all add: file_blk_def owned_def)
  show ok: "inode_ok t ip" by (rule inode_ok_same [OF assms(1) _ assms(3)]) (simp add: fb)
  show bt: "fbyte t ip p = fbyte s ip p" if p: "p < MAXFILE * BSIZE" "file_blk s ip (p div BSIZE) \<noteq> 0" for p
    using fb [OF div_MAXFILE [OF p(1)]] p assms(2) div_MAXFILE [OF p(1)] by (auto simp: fbyte_def owned_def)
  show "file_ok t ip \<and> fdata t ip = fdata s ip" if f: "file_ok s ip"
  proof
    show "file_ok t ip" using f ok fb by (simp add: file_ok_def)
    show "fdata t ip = fdata s ip"
      unfolding fdata_def using f file_ok_blk [OF f] by (intro map_cong refl bt) (auto simp: file_ok_def)
  qed
qed

lemma file_resize: "file_blk s (ip\<lparr>isize := z\<rparr>) = file_blk s ip" "fbyte s (ip\<lparr>isize := z\<rparr>) = fbyte s ip" "inode_ok s (ip\<lparr>isize := z\<rparr>) = inode_ok s ip"
  "owned s (ip\<lparr>isize := z\<rparr>) = owned s ip"
proof -
  show b: "file_blk s (ip\<lparr>isize := z\<rparr>) = file_blk s ip" by (intro ext) (simp add: file_blk_def)
  show "fbyte s (ip\<lparr>isize := z\<rparr>) = fbyte s ip" "inode_ok s (ip\<lparr>isize := z\<rparr>) = inode_ok s ip" "owned s (ip\<lparr>isize := z\<rparr>) = owned s ip"
    using b by (simp_all add: fbyte_def [abs_def] inode_ok_def owned_def [abs_def])
qed

text \<open>The files that share no block with inode \<open>i\<close> are as before.\<close>

definition others_same :: "nat \<Rightarrow> ('z) kfs_scheme \<Rightarrow> ('z) kfs_scheme \<Rightarrow> bool" where
  "others_same i s t \<longleftrightarrow> (\<forall>jp. file_ok s jp \<and> (idev jp = idev (inodes s ! i) \<longrightarrow> (\<forall>n. owned s jp n \<longrightarrow> \<not> owned s (inodes s ! i) n)) \<longrightarrow>
     file_ok t jp \<and> fdata t jp = fdata s jp)"

lemma others_sameI:
  assumes "\<forall>d n. d \<noteq> idev (inodes s ! i) \<or> addr_ok (idev (inodes s ! i)) s n \<and> \<not> owned s (inodes s ! i) n \<longrightarrow>
      contents t (d, n) = contents s (d, n)" and "grown (idev (inodes s ! i)) s t"
  shows "others_same i s t"
  unfolding others_same_def
proof (intro allI impI)
  fix jp assume j: "file_ok s jp \<and> (idev jp = idev (inodes s ! i) \<longrightarrow> (\<forall>n. owned s jp n \<longrightarrow> \<not> owned s (inodes s ! i) n))"
  have "grown (idev jp) s t"
  proof (cases "idev jp = idev (inodes s ! i)")
    case False
    then have "contents t (idev jp, n) = contents s (idev jp, n)" for n using assms(1) by blast
    then have "superblk (idev jp) t = superblk (idev jp) s" "in_use (idev jp) t = in_use (idev jp) s"
      by (simp_all add: superblk_def in_use_def [abs_def] bmap_block_def)
    then show ?thesis by (simp add: grown_def)
  qed (use assms(2) in simp)
  moreover have ok: "inode_ok s jp" using j by (simp add: file_ok_def)
  moreover have "\<forall>n. owned s jp n \<longrightarrow> contents t (idev jp, n) = contents s (idev jp, n)"
  proof (intro allI impI)
    fix n assume n: "owned s jp n"
    then have "addr_ok (idev jp) s n" by (rule owned_addr_ok [OF ok])
    then show "contents t (idev jp, n) = contents s (idev jp, n)" using assms(1) j n by (cases "idev jp = idev (inodes s ! i)") auto
  qed
  ultimately show "file_ok t jp \<and> fdata t jp = fdata s jp" using file_frame(4) j by blast
qed

text \<open>A write that has reached offset \<open>off + length xs\<close> gives the new contents, once the size is right.\<close>

lemma wrote_fdata:
  assumes w: "wrote i off xs s t" and s: "i < length (inodes s)" "file_ok s (inodes s ! i)"
    and le: "off \<le> unat (isize (inodes s ! i))" "off + length xs \<le> MAXFILE * BSIZE"
    and z: "unat z = max (unat (isize (inodes s ! i))) (off + length xs)"
  shows "file_ok t ((inodes t ! i)\<lparr>isize := z\<rparr>)"
    and "fdata t ((inodes t ! i)\<lparr>isize := z\<rparr>) = take off (fdata s (inodes s ! i)) @ xs @ drop (off + length xs) (fdata s (inodes s ! i))"
proof -
  let ?n = "unat (isize (inodes s ! i))"
  note ws = wstepD [OF _ s(1) refl, of t]
  have st: "wstep i s t" using w by (simp add: wrote_def)
  have sz: "?n \<le> MAXFILE * BSIZE" using s(2) by (simp add: file_ok_def)
  have new: "file_blk t (inodes t ! i) ((off + j) div BSIZE) \<noteq> 0" "fbyte t (inodes t ! i) (off + j) = xs ! j" if "j < length xs" for j
    using w that by (simp_all add: wrote_def)
  have new': "fbyte t (inodes t ! i) p = xs ! (p - off)" if "p - off < length xs" "\<not> p < off" for p using new(2) [OF that(1)] that(2) by simp
  have old: "fbyte t (inodes t ! i) p = fbyte s (inodes s ! i) p" if "p < ?n" "p < off \<or> off + length xs \<le> p" for p
    using w that sz file_ok_blk [OF s(2), of p] by (auto simp: wrote_def)
  have "file_blk t (inodes t ! i) k \<noteq> 0" if k: "k < MAXFILE" "k * BSIZE < unat z" for k
  proof (cases "k * BSIZE < ?n")
    case True
    then show ?thesis using ws(8) [OF st k(1)] s(2) k(1) by (simp add: file_ok_def)
  next
    case False
    then have "file_blk t (inodes t ! i) ((off + (k * BSIZE - off)) div BSIZE) \<noteq> 0" using k z le by (intro new) auto
    moreover have "off + (k * BSIZE - off) = k * BSIZE" using False le by simp
    ultimately show ?thesis by simp
  qed
  then show "file_ok t ((inodes t ! i)\<lparr>isize := z\<rparr>)" using ws(5) [OF st] sz le z by (simp add: file_ok_def file_resize)
  show "fdata t ((inodes t ! i)\<lparr>isize := z\<rparr>) = take off (fdata s (inodes s ! i)) @ xs @ drop (off + length xs) (fdata s (inodes s ! i))"
    using z le new' old by (intro nth_equalityI) (auto simp: fdata_def file_resize nth_append)
qed

text \<open>
  What a whole write promises: the new contents of the file; the invariants; that the other files are as
  before; that the inode on disk agrees with the one in core when the file has grown, and neither has changed
  otherwise; that all other inodes on disk are as before, as are all blocks but those of the file, of
  the bitmap and of the inode; and that the blocks in use are those from before and those of the file.
\<close>

definition write_done :: "nat \<Rightarrow> nat \<Rightarrow> u8 list \<Rightarrow> ('z) kfs_scheme \<Rightarrow> ('z) kfs_scheme \<Rightarrow> bool" where
  "write_done i off xs s t \<longleftrightarrow> (let ip = inodes s ! i; ip' = inodes t ! i; dev = idev ip in
     fdata t ip' = take off (fdata s ip) @ xs @ drop (off + length xs) (fdata s ip) \<and> file_ok t ip' \<and>
     inodes t = (inodes s)[i := ip\<lparr>isize := isize ip', iaddrs := iaddrs ip'\<rparr>] \<and>
     fs_ok dev t \<and> cache_ok {} t \<and> fquiet s t \<and> others_same i s t \<and>
     (if unat (isize ip) < off + length xs then disk_inode t ip' = ip'
      else ip' = ip \<and> contents t (dev, inode_block ip) = contents s (dev, inode_block ip)) \<and>
     (\<forall>jp. idev jp = dev \<and> inum jp \<noteq> inum ip \<and> inum_ok s jp \<longrightarrow> disk_inode t jp = disk_inode s jp) \<and>
     (\<forall>d n. d \<noteq> dev \<or> \<not> is_bitmap dev s n \<and> \<not> owned t ip' n \<and> n \<noteq> inode_block ip \<longrightarrow> contents t (d, n) = contents s (d, n)) \<and>
     (\<forall>k < nblk dev s. in_use dev t k \<longleftrightarrow> in_use dev s k \<or> owned t ip' (of_nat k)))"

lemma bits_of_file:
  assumes "inode_ok t ip'" and "idev ip' = dev" and "grown dev s t" and "geom_ok dev s"
    and "\<forall>k < nblk dev s. in_use dev t k \<longrightarrow> in_use dev s k \<or> owned t ip' (of_nat k)"
  shows "\<forall>k < nblk dev s. in_use dev t k \<longleftrightarrow> in_use dev s k \<or> owned t ip' (of_nat k)"
proof (intro allI impI iffI)
  fix k assume k: "k < nblk dev s" "in_use dev s k \<or> owned t ip' (of_nat k)"
  have "unat (of_nat k :: u32) = k" using nblk_less [OF assms(4)] k(1) by (intro unat_of_nat32) simp
  moreover have "owned t ip' (of_nat k) \<Longrightarrow> in_use dev t (unat (of_nat k :: u32))"
    using owned_addr_ok [OF assms(1)] assms(2) by (simp add: addr_ok_def)
  ultimately show "in_use dev t k" using k assms(3) by (auto simp: grown_def)
qed (use assms(5) in blast)

lemma wstep_others:
  assumes "wstep i s t" and "i < length (inodes s)" and "fs_ok (idev (inodes s ! i)) s"
  shows "d \<noteq> idev (inodes s ! i) \<or> addr_ok (idev (inodes s ! i)) s n \<and> \<not> owned s (inodes s ! i) n \<longrightarrow> contents t (d, n) = contents s (d, n)"
proof
  note ws = wstepD [OF assms(1,2) refl]
  assume "d \<noteq> idev (inodes s ! i) \<or> addr_ok (idev (inodes s ! i)) s n \<and> \<not> owned s (inodes s ! i) n"
  then have "d \<noteq> idev (inodes s ! i) \<or> \<not> is_bitmap (idev (inodes s ! i)) s n \<and> \<not> owned t (inodes t ! i) n"
    using addr_okD(3) [OF fs_geom(1) [OF assms(3)]] ws(7) by (auto simp: addr_ok_def)
  then show "contents t (d, n) = contents s (d, n)" by (rule ws(9))
qed

text \<open>The block of an inode is not a block of a file.\<close>

lemma inode_block_clear:
  assumes "geom_ok (idev ip) s" and "inum_ok s ip" and "superblk (idev ip) t = superblk (idev ip) s" and "inode_ok t ip'" and "idev ip' = idev ip"
  shows "\<not> owned t ip' (inode_block ip)" "\<not> is_bitmap (idev ip) s (inode_block ip)"
proof -
  note ib = IBLOCK_meta [OF assms(1) assms(2) [unfolded inum_ok_def]]
  have "last_meta (idev ip) t = last_meta (idev ip) s" using assms(3) by (simp add: last_meta_def nblk_def)
  then show "\<not> owned t ip' (inode_block ip)"
    using owned_addr_ok [OF assms(4), of "inode_block ip"] ib(1,2) assms(5) by (auto simp: addr_ok_def inode_block_def)
  show "\<not> is_bitmap (idev ip) s (inode_block ip)" using ib(4) by (simp add: inode_block_def)
qed

lemma inode_isize_id: "ip\<lparr>isize := isize ip\<rparr> = ip" "ip\<lparr>isize := z, iaddrs := as\<rparr> = ip\<lparr>iaddrs := as, isize := z\<rparr>" "ip\<lparr>iaddrs := iaddrs ip\<rparr> = ip"
  for ip :: inode by simp_all

lemma wstep_inode:
  assumes "wstep i s t" and "i < length (inodes s)"
  shows "inodes t ! i = (inodes s ! i)\<lparr>iaddrs := iaddrs (inodes t ! i)\<rparr>" "inum (inodes t ! i) = inum (inodes s ! i)"
proof -
  show "inodes t ! i = (inodes s ! i)\<lparr>iaddrs := iaddrs (inodes t ! i)\<rparr>"
    by (rule inode_upd_fields(1) [OF wstepD(1) [OF assms refl] assms(2)])
  then show "inum (inodes t ! i) = inum (inodes s ! i)" by (metis inode.ext_inject inode.surjective inode.update_convs(10))
qed

lemma addr_not_inode_block: "geom_ok (idev ip) s \<Longrightarrow> inum_ok s ip \<Longrightarrow> addr_ok (idev ip) s n \<Longrightarrow> n \<noteq> inode_block ip"
  using IBLOCK_meta(1,2) [of "idev ip" s "unat (inum ip)"] by (auto simp: inum_ok_def inode_block_def addr_ok_def)

text \<open>A write that makes a file longer has found a data block.\<close>

lemma wrote_meta:
  assumes w: "wrote i off xs s t" and s: "i < length (inodes s)"
    and le: "off \<le> unat (isize (inodes s ! i))" "unat (isize (inodes s ! i)) < off + length xs" "off + length xs \<le> MAXFILE * BSIZE"
  shows "last_meta (idev (inodes s ! i)) t < nblk (idev (inodes s ! i)) t"
proof -
  have "wstep i s t" using w by (simp add: wrote_def)
  note ws = wstepD [OF this s refl]
  have x: "0 < length xs" and o: "off < MAXFILE * BSIZE" using le by linarith+
  have "\<forall>j < length xs. file_blk t (inodes t ! i) ((off + j) div BSIZE) \<noteq> 0" using w by (simp add: wrote_def)
  from this [rule_format, OF x] have "file_blk t (inodes t ! i) (off div BSIZE) \<noteq> 0" "off div BSIZE < MAXFILE" using div_MAXFILE [OF o] by simp_all
  then show ?thesis using ws(5,11) by (auto simp: inode_ok_def addr_ok_def)
qed

lemma wrote_done:
  assumes w: "wrote i off xs s t" and s: "i < length (inodes s)" "file_ok s (inodes s ! i)" "fs_ok (idev (inodes s ! i)) s" "inum_ok s (inodes s ! i)"
    and le: "off \<le> unat (isize (inodes s ! i))" "off + length xs \<le> unat (isize (inodes s ! i))"
  shows "write_done i off xs s t"
proof -
  let ?ip = "inodes s ! i" let ?dev = "idev ?ip"
  have st: "wstep i s t" using w by (simp add: wrote_def)
  note ws = wstepD [OF st s(1) refl]
  note g = fs_geom(1) [OF s(3)]
  have "unat (isize ?ip) \<le> MAXFILE * BSIZE" using s(2) by (simp add: file_ok_def)
  then have "off + length xs \<le> MAXFILE * BSIZE" "unat (isize ?ip) = max (unat (isize ?ip)) (off + length xs)" using le by simp_all
  note fd = wrote_fdata [OF w s(1,2) le(1) this]
  have "\<forall>p. off \<le> p \<and> p < off + length xs \<longrightarrow> file_blk s ?ip (p div BSIZE) \<noteq> 0" using file_ok_blk [OF s(2)] le(2) by auto
  then have it: "inodes t = inodes s" using w by (simp add: wrote_def)
  have "(inodes t ! i)\<lparr>isize := isize ?ip\<rparr> = inodes t ! i" unfolding ws(12) [symmetric] by simp
  note fd = fd [unfolded this]
  have "others_same i s t" using ws(6) wstep_others [OF st s(1,3)] by (intro others_sameI) blast+
  moreover have sb: "superblk ?dev t = superblk ?dev s" using ws(6) by (simp add: grown_def)
  have ib: "contents t (idev jp, inode_block jp) = contents s (idev jp, inode_block jp)" if "idev jp = ?dev" "inum_ok s jp" for jp
    using inode_block_clear [OF _ that(2), of t "inodes t ! i"] g sb ws(5,9,11) that(1) by simp
  moreover have "disk_inode t jp = disk_inode s jp" if "idev jp = ?dev" "inum_ok s jp" for jp using ib [OF that] by (simp add: disk_inode_def)
  moreover have "\<forall>k < nblk ?dev s. in_use ?dev t k \<longleftrightarrow> in_use ?dev s k \<or> owned t (inodes t ! i) (of_nat k)"
    using bits_of_file [OF ws(5,11,6) g] ws(14) by blast
  moreover have "\<forall>d n. d \<noteq> ?dev \<or> \<not> is_bitmap ?dev s n \<and> \<not> owned t (inodes t ! i) n \<longrightarrow> contents t (d, n) = contents s (d, n)" using ws(9) by blast
  ultimately show ?thesis using fd ws(1-4) ws(12) le(2) s(4) it ib [OF refl s(4)] by (simp add: write_done_def Let_def)
qed

lemma wrote_grow:
  assumes w: "wrote i off xs s t" and s: "i < length (inodes s)" "file_ok s (inodes s ! i)" "fs_ok (idev (inodes s ! i)) s" "inum_ok s (inodes s ! i)"
    and le: "off \<le> unat (isize (inodes s ! i))" "unat (isize (inodes s ! i)) < off + length xs" "off + length xs \<le> MAXFILE * BSIZE"
  shows "\<exists>u. iupdate i (upd_inode i (\<lambda>ip. ip\<lparr>isize := of_nat (off + length xs)\<rparr>) t) = Ok () u \<and> write_done i off xs s u"
proof -
  let ?ip = "inodes s ! i" and ?z = "of_nat (off + length xs) :: u32" let ?dev = "idev ?ip"
  let ?t = "upd_inode i (\<lambda>ip. ip\<lparr>isize := ?z\<rparr>) t" and ?ip' = "(inodes t ! i)\<lparr>isize := ?z\<rparr>"
  have st: "wstep i s t" using w by (simp add: wrote_def)
  note ws = wstepD [OF st s(1) refl]
  note g = fs_geom(1) [OF s(3)]
  have z: "unat ?z = off + length xs" using le(3) by (intro unat_of_nat32) simp
  then have "unat ?z = max (unat (isize ?ip)) (off + length xs)" using le by simp
  note fd = wrote_fdata [OF w s(1,2) le(1,3) this]
  have i1: "inodes ?t ! i = ?ip'" "idev ?ip' = ?dev" "inum ?ip' = inum ?ip" using ws(10,11) wstep_inode(2) [OF st s(1)] by simp_all
  have ok: "inode_ok t ?ip'" using ws(5) by (simp add: file_resize)
  have lm: "last_meta ?dev t < nblk ?dev t" using wrote_meta [OF w s(1) le(1-3)] .
  have sb: "superblk ?dev t = superblk ?dev s" using ws(6) by (simp add: grown_def)
  have ib: "inode_block ?ip' = inode_block ?ip" "inum_ok ?t ?ip'" using i1 s(4) sb by (simp_all add: inode_block_def inum_ok_def)
  from iupdate_ok [of ?t ?dev i] ws(2,4) i1 ok lm ib obtain u where
    u: "iupdate i ?t = Ok () u" "bstep {} ?t u" "fs_ok ?dev u" "superblk ?dev u = superblk ?dev t" "\<forall>k < nblk ?dev t. in_use ?dev u k = in_use ?dev t k"
      "disk_inode u ?ip' = ?ip'" "contents u = (contents t)((?dev, inode_block ?ip) := put_dinode (unat (inum ?ip) mod IPB) ?ip' (contents t (?dev, inode_block ?ip)))" by auto
  note bs = bstep_fs [OF u(2)]
  have nb: "nblk ?dev t = nblk ?dev s" "is_bitmap ?dev t = is_bitmap ?dev s" using sb nblk_cong is_bitmap_super by blast+
  have gt: "grown ?dev t u" and gs: "grown ?dev s u" using u(4,5) ws(6) nb by (auto simp: grown_def)
  have clear: "\<not> owned t ?ip' (inode_block jp)" "\<not> is_bitmap ?dev s (inode_block jp)" if "idev jp = ?dev" "inum_ok s jp" for jp
    using inode_block_clear [of jp s t ?ip'] g that ok i1(2) sb by auto
  have same: "contents u (d, n) = contents t (d, n)" if "d \<noteq> ?dev \<or> n \<noteq> inode_block ?ip" for d n using u(7) that by auto
  have oc: "\<forall>n. owned t ?ip' n \<longrightarrow> contents u (idev ?ip', n) = contents t (idev ?ip', n)" using clear(1) [OF refl s(4)] by (intro allI impI same) blast
  note ff = file_frame [OF ok oc, unfolded i1(2), OF gt]
  have ow: "owned u ?ip' = owned t ?ip'" unfolding owned_def using ff(1) by (auto simp: fun_eq_iff)
  have ot: "owned t ?ip' = owned t (inodes t ! i)" by (simp add: file_resize)
  have iu: "inodes u ! i = ?ip'" using bs(1) i1(1) by simp
  have "others_same i s u"
  proof (rule others_sameI [OF _ gs], intro allI impI)
    fix d n assume dn: "d \<noteq> ?dev \<or> addr_ok ?dev s n \<and> \<not> owned s ?ip n"
    have "d \<noteq> ?dev \<or> n \<noteq> inode_block ?ip" using dn addr_not_inode_block [OF g s(4)] by blast
    then have "contents u (d, n) = contents t (d, n)" by (rule same)
    also have "\<dots> = contents s (d, n)" using wstep_others [OF st s(1,3)] dn by blast
    finally show "contents u (d, n) = contents s (d, n)" .
  qed
  moreover have "\<forall>k < nblk ?dev s. in_use ?dev u k \<longleftrightarrow> in_use ?dev s k \<or> owned u ?ip' (of_nat k)"
    using bits_of_file [OF ff(2) i1(2) gs g] ws(14) u(5) nb(1) ow ot by auto
  moreover have "\<forall>d n. d \<noteq> ?dev \<or> \<not> is_bitmap ?dev s n \<and> \<not> owned u ?ip' n \<and> n \<noteq> inode_block ?ip \<longrightarrow> contents u (d, n) = contents s (d, n)"
    using same ws(9) ow ot by metis
  moreover have "disk_inode u jp = disk_inode s jp" if j: "idev jp = ?dev" "inum jp \<noteq> inum ?ip" "inum_ok s jp" for jp
  proof -
    have "fs_ok (idev ?ip') t" "inum_ok t ?ip'" "inum_ok t jp" using ws(4) i1 j s(4) sb by (simp_all add: inum_ok_def)
    then have "disk_inode u jp = disk_inode t jp" using disk_inode_other [of ?ip' t jp u ?ip'] j i1 ib(1) u(7) by simp
    also have "\<dots> = disk_inode s jp" using ws(9) [of ?dev "inode_block jp"] clear [OF j(1,3)] j(1) ot by (simp add: disk_inode_def)
    finally show ?thesis .
  qed
  moreover have "inodes u = (inodes s)[i := ?ip\<lparr>isize := ?z, iaddrs := iaddrs (inodes t ! i)\<rparr>]"
  proof -
    have "inodes u = (inodes t)[i := ?ip']" using bs(1) by simp
    also have "\<dots> = (inodes s)[i := ?ip']" by (subst ws(1)) simp
    also have "?ip' = ?ip\<lparr>isize := ?z, iaddrs := iaddrs (inodes t ! i)\<rparr>" by (subst wstep_inode(1) [OF st s(1)]) simp
    finally show ?thesis .
  qed
  moreover have "fquiet s u" using fquiet_trans [OF ws(3), of u] bs(2) by (simp add: fquiet_def upd_inode_def)
  ultimately show ?thesis using u(1,3,6) bs(3) ff(4) [OF fd(1)] fd(2) iu le(2) by (intro exI [of _ u]) (simp add: write_done_def Let_def)
qed

section \<open>Reading and writing files\<close>

lemma writei_data_ok:
  assumes s: "cache_ok {} s" "fs_ok (idev (inodes s ! i)) s" "i < length (inodes s)" "file_ok s (inodes s ! i)"
    and num: "inum_ok s (inodes s ! i)"
    and off: "off \<le> isize (inodes s ! i)" "off \<le> off + n" and w: "w = min (unat n) (MAXFILE * BSIZE - unat off)"
    and free: "blocks_for (unat off) w \<le> nfree (idev (inodes s ! i)) s"
  shows "\<exists>t. writei_data i m src off n s = Ok (int w) t \<and> write_done i (unat off) (bytes m src w) s t"
proof -
  let ?ip = "inodes s ! i"
  define n' where "n' = (if off + n > of_nat (MAXFILE * BSIZE) then of_nat (MAXFILE * BSIZE) - off else n)"
  have sz: "unat (isize ?ip) \<le> MAXFILE * BSIZE" using s(4) by (simp add: file_ok_def)
  have o: "unat off \<le> unat (isize ?ip)" using off(1) by (simp add: word_le_nat_alt)
  have add: "unat (off + n) = unat off + unat n" using off(2) by (simp add: unat_plus_simple)
  have mx: "unat (of_nat (MAXFILE * BSIZE) :: u32) = MAXFILE * BSIZE" by simp
  have "off \<le> of_nat (MAXFILE * BSIZE)" using o sz mx by (simp only: word_le_nat_alt)
  then have un: "unat n' = w" unfolding w using add mx by (auto simp: n'_def word_less_nat_alt unat_sub)
  have le: "unat off + w \<le> MAXFILE * BSIZE" using w o sz by simp
  have wl: "w < 2 ^ 31" using w by simp
  have "n' = of_nat w" by (simp flip: un)
  then have sn: "sint n' = int w" using sint_of_nat32 [OF wl] by simp
  have "writei_data i m src off n s = bindr (writei_loop i m src (unat off) (unat n') s) (\<lambda>off s.
      if n' > 0 \<and> of_nat off > isize (inodes s ! i) then bindr (iupdate i (upd_inode i (\<lambda>ip. ip\<lparr>isize := of_nat off\<rparr>) s)) (\<lambda>_ s. Ok (sint n') s)
      else Ok (sint n') s)"
    unfolding writei_data_def Let_def n'_def using off by (auto simp del: writei_loop.simps)
  note e = this [unfolded un sn]
  show ?thesis
  proof (cases "w = 0")
    case True
    then have "n' = 0" using un by (simp add: unat_eq_zero)
    then have "writei_data i m src off n s = Ok (int w) s" unfolding e True by (subst writei_loop.simps) simp
    moreover have "write_done i (unat off) (bytes m src w) s s"
      using s o True bits_of_file [of s "inodes s ! i" _ s] fs_geom(1) [OF s(2)] by (simp add: write_done_def others_same_def Let_def file_ok_def grown_def)
    ultimately show ?thesis by blast
  next
    case False
    then have w0: "0 < w" by simp
    have iok: "inode_ok s ?ip" using s(4) by (simp add: file_ok_def)
    from writei_loop_ok [OF s(1-3) refl iok le free w0, of m src] obtain t where
      t: "writei_loop i m src (unat off) w s = Ok (unat off + w) t" "wrote i (unat off) (bytes m src w) s t" by blast
    have "wstep i s t" using t(2) by (simp add: wrote_def)
    then have sz': "isize (inodes t ! i) = isize ?ip" using wstepD(12) s(3) by blast
    have np: "n' > 0" using un w0 by (simp add: word_less_nat_alt)
    have uo: "unat (of_nat (unat off + w) :: u32) = unat off + w" using le by (intro unat_of_nat32) simp
    show ?thesis
    proof (cases "unat (isize ?ip) < unat off + w")
      case True
      then obtain u where "iupdate i (upd_inode i (\<lambda>ip. ip\<lparr>isize := of_nat (unat off + w)\<rparr>) t) = Ok () u" "write_done i (unat off) (bytes m src w) s u"
        using wrote_grow [OF t(2) s(3,4,2) num o] le by auto
      moreover have "of_nat (unat off + w) > isize (inodes t ! i)" using True uo sz' by (simp only: word_less_nat_alt)
      ultimately show ?thesis unfolding e t(1) using np by simp
    next
      case False
      then have "write_done i (unat off) (bytes m src w) s t" using wrote_done [OF t(2) s(3,4,2) num o] by simp
      moreover have "\<not> of_nat (unat off + w) > isize (inodes t ! i)" using False uo sz' by (simp only: word_less_nat_alt) simp
      ultimately show ?thesis unfolding e t(1) by auto
    qed
  qed
qed

text \<open>
  A disk of 1024 blocks with 8 inodes, formatted, and an in-core inode for an empty file.
\<close>

definition img0 :: "bool \<Rightarrow> nat \<Rightarrow> u8 list" where
  "img0 d n = (if n = 1 then put32 0 1024 (put32 8 8 (replicate BSIZE 0)) else if n = 4 then (replicate BSIZE 0)[0 := 0x1f] else replicate BSIZE 0)"

definition file0 :: inode where
  "file0 = inode0\<lparr>inum := 1, iref := 1, itype := T_FILE, inlink := 1\<rparr>"

definition disk0 :: kfs where
  "disk0 = binit (kfs0\<lparr>ide := (ide kfs0)\<lparr>disk := img0\<rparr>, inodes := [file0]\<rparr>)"

lemma disk0_base: "cache_ok {} disk0" "contents disk0 (0, n) = img0 False (unat n)" "havedisk1 disk0" "inodes disk0 = [file0]"
proof -
  let ?s = "kfs0\<lparr>ide := (ide kfs0)\<lparr>disk := img0\<rparr>, inodes := [file0]\<rparr>"
  have "in_proc ?s" by (simp add: in_proc_def owns_None)
  moreover have "idequeue ?s = None" "\<not> ide_err (ide ?s)" "\<forall>b < NBUF. bflags (bufs ?s b) = 0" "havedisk1 ?s"
    by (simp_all add: kfs0_def kbuf.extend_def kbuf0_def kproc.extend_def)
  ultimately have b: "cache_ok {} (binit ?s)" "contents (binit ?s) = contents ?s" "bframe ?s (binit ?s)" "havedisk1 ?s"
    using binit_ok [of ?s] by simp_all
  then show "cache_ok {} disk0" "contents disk0 (0, n) = img0 False (unat n)" "havedisk1 disk0"
    by (simp_all add: disk0_def bframe_def) (simp add: contents_def on_disk_def)
  show "inodes disk0 = [file0]" using inodes_more [of "binit ?s" ?s] b(3) by (simp add: disk0_def bframe_def quiet_def)
qed

lemma disk0_super: "superblk 0 disk0 = \<lparr>sb_size = 1024, sb_nblocks = 0, sb_ninodes = 8\<rparr>"
proof -
  have "get32 8 (put32 0 1024 (put32 8 8 (replicate BSIZE 0))) = 8" "get32 4 (put32 0 1024 (put32 8 8 (replicate BSIZE 0))) = 0"
    by (subst get32_put_other(2), simp, simp add: get32_zeros)+
  then show ?thesis by (simp add: superblk_def disk0_base(2) img0_def)
qed

lemma disk0_in_use: "k < BPB \<Longrightarrow> in_use 0 disk0 k \<longleftrightarrow> k < 5"
proof -
  assume k: "k < BPB"
  have "bit (0x1f :: u8) j \<longleftrightarrow> j < 5" if "j < 8" for j using that by (auto simp: less_Suc_eq numeral_eq_Suc)
  moreover have "k div 8 = 0 \<longleftrightarrow> k < 8" by auto
  ultimately show ?thesis using k
    by (cases "k < 8") (auto simp: in_use_def bmap_block_def BBLOCK_def disk0_super disk0_base(2) img0_def bit_set_def nth_list_update)
qed

lemma disk0_ok: "fs_ok 0 disk0" "12 \<le> nfree 0 disk0" "file_ok disk0 file0"
proof -
  have nb: "nblk 0 disk0 = BPB" "last_meta 0 disk0 = 4" by (simp_all add: nblk_def last_meta_def BBLOCK_def disk0_super)
  have "contents disk0 (0, of_nat c) = replicate BSIZE 0" if "c < BPB" "\<not> c < 5" for c
    using that unat_of_nat32 [of c] by (simp add: disk0_base(2) img0_def)
  moreover have "geom_ok 0 disk0" by (auto simp: geom_ok_def disk0_super disk0_base(2) img0_def)
  ultimately show "fs_ok 0 disk0" by (simp add: fs_ok_def nb disk0_in_use)
  have "{5..<17} \<subseteq> {c. c < nblk 0 disk0 \<and> \<not> in_use 0 disk0 c}" by (auto simp: nb disk0_in_use)
  then show "12 \<le> nfree 0 disk0" using card_mono [of "{c. c < nblk 0 disk0 \<and> \<not> in_use 0 disk0 c}" "{5..<17}"] by (simp add: nfree_def)
  have "file_blk disk0 file0 k = 0" for k by (simp add: file_blk_def file0_def inode0_def)
  then show "file_ok disk0 file0" by (simp add: file_ok_def inode_ok_def) (simp add: file0_def inode0_def)
qed


text \<open>
  C10: \<^verbatim>\<open>readi\<close> on a file returns the slice of the contents of the file from \<open>off\<close> on, at most \<open>n\<close> bytes,
  and changes neither the disk nor an inode; an offset past the end or an overflow gives \<open>-1\<close>.
\<close>

theorem readi_correct:
  assumes "cache_ok {} s" and "fs_ok (idev (inodes s ! i)) s" and "file_ok s (inodes s ! i)" and "itype (inodes s ! i) \<noteq> T_DEV"
  shows "if isize (inodes s ! i) < off \<or> off + n < off then readi rd i off n s = Ok (-1, []) s
    else \<exists>t xs. readi rd i off n s = Ok (int (length xs), xs) t \<and> xs = take (unat n) (drop (unat off) (fdata s (inodes s ! i))) \<and>
      contents t = contents s \<and> inodes t = inodes s \<and> cache_ok {} t \<and> fquiet s t"
proof (cases "isize (inodes s ! i) < off \<or> off + n < off")
  case True
  then show ?thesis using assms(4) by (simp add: readi_def readi_data_def Let_def)
next
  case False
  then have "off \<le> isize (inodes s ! i)" "off \<le> off + n" by auto
  from readi_data_ok [OF assms(1-3) this] obtain t where
    "readi_data i off n s = Ok (int (length (take (unat n) (drop (unat off) (fdata s (inodes s ! i))))), take (unat n) (drop (unat off) (fdata s (inodes s ! i)))) t"
    "bstep {} s t" "contents t = contents s" by blast
  moreover note bstep_fs [OF calculation(2)]
  moreover have "readi rd i off n s = readi_data i off n s" using assms(4) by (simp add: readi_def Let_def)
  ultimately show ?thesis unfolding if_not_P [OF False]
    by (intro exI [of _ t] exI [of _ "take (unat n) (drop (unat off) (fdata s (inodes s ! i)))"]) simp
qed

text \<open>
  C1: \<^verbatim>\<open>writei\<close> on a file with enough free blocks replaces the slice of the contents at \<open>off\<close> by the bytes
  given, as many as fit under the size limit, and extends the file as needed.  The inode on disk is brought up
  to date when the file grows.  All other inodes on disk, all files that share no block with this one, and all blocks
  besides those of the file, of its inode and of the bitmap are as before, and the bitmap gains exactly
  the blocks of the file.
\<close>

theorem writei_correct:
  assumes "cache_ok {} s" and "fs_ok (idev (inodes s ! i)) s" and "i < length (inodes s)" and "file_ok s (inodes s ! i)"
    and "itype (inodes s ! i) \<noteq> T_DEV" and "inum_ok s (inodes s ! i)"
    and "w = min (unat n) (MAXFILE * BSIZE - unat off)" and "blocks_for (unat off) w \<le> nfree (idev (inodes s ! i)) s"
  shows "if isize (inodes s ! i) < off \<or> off + n < off then writei wr i m src off n s = Ok (-1) s
    else \<exists>t. writei wr i m src off n s = Ok (int w) t \<and> write_done i (unat off) (bytes m src w) s t"
proof (cases "isize (inodes s ! i) < off \<or> off + n < off")
  case True
  then show ?thesis using assms(5) by (auto simp: writei_def writei_data_def Let_def)
next
  case False
  then have "off \<le> isize (inodes s ! i)" "off \<le> off + n" by auto
  from writei_data_ok [OF assms(1-4,6) this assms(7,8)] assms(5) False show ?thesis by (simp add: writei_def Let_def)
qed

text \<open>
  C11: What has been written can be read back: \<^verbatim>\<open>readi\<close> of the range that \<^verbatim>\<open>writei\<close> has reported as written
  returns the bytes written.
\<close>

theorem writei_readi_roundtrip:
  assumes s: "cache_ok {} s" "fs_ok (idev (inodes s ! i)) s" "i < length (inodes s)" "file_ok s (inodes s ! i)"
    and "itype (inodes s ! i) \<noteq> T_DEV" and "inum_ok s (inodes s ! i)"
    and off: "off \<le> isize (inodes s ! i)" "off \<le> off + n" and w: "w = min (unat n) (MAXFILE * BSIZE - unat off)"
    and "blocks_for (unat off) w \<le> nfree (idev (inodes s ! i)) s"
  shows "\<exists>t u. writei wr i m src off n s = Ok (int w) t \<and> readi rd i off (of_nat w) t = Ok (int w, bytes m src w) u"
proof -
  let ?ip = "inodes s ! i"
  from writei_data_ok [OF s assms(6) off w assms(10)] obtain t where
    t: "writei_data i m src off n s = Ok (int w) t" "write_done i (unat off) (bytes m src w) s t" by blast
  let ?ip' = "inodes t ! i"
  have d: "fdata t ?ip' = take (unat off) (fdata s ?ip) @ bytes m src w @ drop (unat off + w) (fdata s ?ip)" "file_ok t ?ip'" "cache_ok {} t" "fs_ok (idev ?ip) t"
    and ino: "inodes t = (inodes s)[i := ?ip\<lparr>isize := isize ?ip', iaddrs := iaddrs ?ip'\<rparr>]"
    using t(2) by (simp_all add: write_done_def Let_def)
  have "?ip' = ?ip\<lparr>isize := isize ?ip', iaddrs := iaddrs ?ip'\<rparr>" using s(3) by (subst ino) simp
  then have ip: "idev ?ip' = idev ?ip" "itype ?ip' = itype ?ip" by (metis inode.select_convs inode.surjective inode.update_convs(9,10))+
  have o: "unat off \<le> unat (isize ?ip)" and l: "unat (isize ?ip) \<le> MAXFILE * BSIZE" using off(1) s(4) by (simp_all add: word_le_nat_alt file_ok_def)
  have w32: "unat (of_nat w :: u32) = w" using w by (intro unat_of_nat32) simp
  have f: "unat (isize ?ip') = length (fdata t ?ip')" by (simp add: fdata_def)
  have f': "unat off + w \<le> length (fdata t ?ip')" unfolding d(1) using o by (simp add: fdata_def)
  have "unat off + w < 2 ^ 32" using o l w by simp
  then have off': "off \<le> isize ?ip'" "off \<le> off + of_nat w"
    using f f' w32 by (simp add: word_le_nat_alt, simp add: no_olen_add_nat)
  have sl: "take w (drop (unat off) (fdata t ?ip')) = bytes m src w" using d(1) o by (simp add: fdata_def)
  from readi_data_ok [OF d(3) _ d(2) off'] d(4) obtain u where "readi_data i off (of_nat w) t = Ok (int w, bytes m src w) u" unfolding ip w32 sl by auto
  then show ?thesis using t(1) assms(5) ip(2) by (simp add: writei_def readi_def Let_def)
qed

theorem readi_correct_witness: "\<exists>t. readi (\<lambda>_. None) 0 0 5 disk0 = Ok (0, []) t \<and> contents t = contents disk0"
  using readi_correct [of disk0 0 0 5 "\<lambda>_. None"] disk0_ok disk0_base by (auto simp: fdata_def file0_def inode0_def)

theorem writei_correct_witness: "\<exists>t. writei (\<lambda>_. None) 0 (\<lambda>a. of_nat a) 7 0 3 disk0 = Ok 3 t \<and> fdata t (inodes t ! 0) = [7, 8, 9]"
proof -
  have i: "inodes disk0 ! 0 = file0" "idev file0 = 0" "itype file0 = T_FILE" "inum file0 = 1" "isize file0 = 0"
    using disk0_base(4) by (simp_all add: file0_def inode0_def)
  have b: "bytes (\<lambda>a. of_nat a :: u8) 7 3 = [7, 8, 9]" by (simp add: numeral_eq_Suc bytes_Suc)
  show ?thesis using writei_correct [of disk0 0 3 3 0 "\<lambda>_. None" "\<lambda>a. of_nat a" 7] disk0_ok disk0_base b
    by (auto simp: i disk0_super inum_ok_def blocks_for_def write_done_def Let_def) (simp add: fdata_def i)
qed

theorem writei_readi_roundtrip_witness:
  "\<exists>t u. writei (\<lambda>_. None) 0 (\<lambda>a. of_nat a) 7 0 3 disk0 = Ok 3 t \<and> readi (\<lambda>_. None) 0 0 3 t = Ok (3, [7, 8, 9]) u"
proof -
  have i: "inodes disk0 ! 0 = file0" "idev file0 = 0" "itype file0 = T_FILE" "inum file0 = 1" "isize file0 = 0"
    using disk0_base(4) by (simp_all add: file0_def inode0_def)
  have b: "bytes (\<lambda>a. of_nat a :: u8) 7 3 = [7, 8, 9]" by (simp add: numeral_eq_Suc bytes_Suc)
  show ?thesis using writei_readi_roundtrip [of disk0 0 0 3 3 "\<lambda>_. None" "\<lambda>a. of_nat a" 7 "\<lambda>_. None"] disk0_ok disk0_base b
    by (auto simp: i disk0_super inum_ok_def blocks_for_def)
qed

end
