(* ===== verification/Spec2Isabelle.thy ===== *)
theory Spec2Isabelle
  imports Sleepwake Trap Net Ne Grep Sh Filedata
begin

text \<open>
  A verification library for the xv6 kernel with NE2000 networking: a small Unix for x86 processors
  with a disk driver, a buffer cache, a file system, processes, pipes, system calls, a console and a network
  driver, together with the C library and some programs for its users.

  \<^bold>\<open>State and outcomes.\<close>  The kernel is one state, a record that grows by extension in the order in which the
  components build on one another: \<open>mach\<close> (locks and processors, theory \<open>Spinlock\<close>), \<open>kmem\<close> (free list and physical
  memory, \<open>Kalloc\<close>), \<open>kproc\<close> (process table, descriptors, contexts, \<open>Sched\<close>), \<open>kbuf\<close> (buffers, disk queue, disk
  controller, \<open>Bio\<close>), \<open>kfs\<close> (in-core inodes, \<open>Fs\<close>), \<open>kpipe\<close> (\<open>Pipe\<close>), \<open>kfile\<close> (open files, \<open>File\<close>), \<open>ksys\<close> (the clock,
  \<open>Syscall\<close>) and \<open>kcons\<close> (console, \<open>Console\<close>).  A C function is a function from the state to an outcome \<open>res\<close>: it
  returns (\<open>Ok\<close>), calls \<^verbatim>\<open>panic\<close> (\<open>Panic\<close>), gives up the processor in \<^verbatim>\<open>sleep\<close> (\<open>Sleep\<close>), or spins forever (\<open>Hang\<close>);
  \<open>bindr\<close> is the semicolon.  Definitions have the names of the C functions.  A function that can sleep in a loop has
  a second definition with suffix \<open>_resume\<close> that starts behind the call of \<^verbatim>\<open>sleep\<close>; a caller of a function that sleeps
  ends with the same \<open>Sleep\<close>, and its own continuation is not represented.  Only the disk is waited for
  within a run: \<open>disk_wait\<close> of \<open>Bio\<close> plays the switch to the scheduler, the disk interrupt and the switch back,
  for the case that these are the next events.  Words have the width they have in C (\<open>u8\<close>, \<open>u16\<close>, \<open>u32\<close>) wherever
  wrap-around or bits matter; \<^verbatim>\<open>int\<close> results are \<open>int\<close>, pointers into tables are indices.

  \<^bold>\<open>Theories.\<close>
  \<^item> \<open>Prelude\<close>: machine types, constants of \<^verbatim>\<open>src/param.h\<close>, sleep channels, outcomes, table scans.
  \<^item> \<open>Spinlock\<close> (\<^verbatim>\<open>src/spinlock.c\<close>): \<open>acquire\<close>, \<open>release\<close>, \<open>pushcli\<close>, \<open>popcli\<close> as one processor sees them, and \<open>lk_step\<close>, the
    single memory accesses of many processors on one lock.  Mutual exclusion for all interleavings; nesting of
    \<open>pushcli\<close>.  The locales \<open>mach_upd\<close> and \<open>mach_sel\<close> say that an update or a field of a later component is independent of
    the lock code, and are interpreted for each of them.
  \<^item> \<open>Kalloc\<close> (\<^verbatim>\<open>src/kalloc.c\<close>): the linked free list inside free memory with its pointer-to-pointer loops, refined to
    sorted lists of runs and these to sets of free addresses.  The locale \<open>page_allocator\<close> is the contract, with whole
    histories of a client proved in it; its interpretation is \<open>kmem\<close>.
  \<^item> \<open>Cstring\<close> (\<^verbatim>\<open>src/string.c\<close>, \<^verbatim>\<open>src/ulib.c\<close>), \<open>Fmt\<close> (\<^verbatim>\<open>src/printf.c\<close>, the formatting of \<^verbatim>\<open>src/console.c\<close>): memory and string
    routines on byte-addressed memory, printing and parsing of numbers.
  \<^item> \<open>Mmu\<close> (\<^verbatim>\<open>src/mmu.h\<close>), \<open>Sched\<close> and \<open>Process\<close> (\<^verbatim>\<open>src/proc.c\<close>): descriptors, process table, \<open>growproc\<close>, \<open>sleep\<close>, \<open>wakeup\<close>,
    scheduler; \<open>fork\<close>, \<open>exit\<close>, \<open>wait\<close>.  A call of \<^verbatim>\<open>swtch\<close> splits a function into a part that switches out and one that
    switches in.  Confinement of user segments, what \<open>allocproc\<close> and \<open>growproc\<close> do on all branches, fairness of the scheduler
    loop over the step relation \<open>sched_path\<close>.  \<open>Sleepwake\<close>: the locking protocol of \<open>sleep\<close> and \<open>wakeup\<close> on two processors
    as the step relation \<open>sw_step\<close>; no wakeup is lost.
  \<^item> \<open>Bio\<close> and \<open>Bcache\<close> (\<^verbatim>\<open>src/ide.c\<close>, \<^verbatim>\<open>src/bio.c\<close>): request queue, task file of the ATA controller (by its documented
    behaviour: LBA28, programmed I/O), the doubly linked list of buffers.  The locale \<open>block_store\<close> is the contract of
    the cache; its interpretation \<open>bc\<close> shows that the cache is transparent and never panics for a caller that keeps
    the protocol.
  \<^item> \<open>Fs\<close>, \<open>Files\<close> and \<open>Filedata\<close> (\<^verbatim>\<open>src/fs.c\<close>): all of the file system in \<open>Fs\<close>; \<open>Files\<close> proves block allocation and the
    block map, \<open>Filedata\<close> that \<open>readi\<close> and \<open>writei\<close> read and replace slices of the byte string \<open>fdata\<close> of a file.
    \<open>fs_ok\<close> (bitmap and disk agree, free blocks are zero), \<open>inode_ok\<close> and \<open>file_ok\<close> (addresses are data blocks in use, no
    block occurs twice, no holes) are the invariants.
  \<^item> \<open>Fifo\<close>, \<open>Pipe\<close> and \<open>File\<close> (\<^verbatim>\<open>src/pipe.c\<close>, \<^verbatim>\<open>src/file.c\<close>): the locale \<open>fifo\<close> is the contract of a bounded ring buffer,
    interpreted for the pipe (\<open>pq\<close>); \<open>pipewrite\<close> and \<open>piperead\<close> with their blocking; the file table.
  \<^item> \<open>Syscall\<close>, \<open>Exec\<close>, \<open>Sysfile\<close> (\<^verbatim>\<open>src/syscall.c\<close>, \<^verbatim>\<open>src/sysproc.c\<close>, \<^verbatim>\<open>src/exec.c\<close>, \<^verbatim>\<open>src/sysfile.c\<close>): fetching of
    arguments, every system call, program loading, and the dispatch.
  \<^item> \<open>Kbd\<close>, \<open>Console\<close>, \<open>Trap\<close> (\<^verbatim>\<open>src/kbd.c\<close>, \<^verbatim>\<open>src/console.c\<close>, \<^verbatim>\<open>src/uart.c\<close>, \<^verbatim>\<open>src/trap.c\<close>): scan codes, line editing, output,
    interrupt gates and the trap function.
  \<^item> \<open>Net\<close> (\<^verbatim>\<open>src/net\<close>) and \<open>Ne\<close> (\<^verbatim>\<open>src/eth\<close>): headers and checksums; the NE2000 driver over a card that is a parameter
    (a state with port functions).  The transmit queue is a state machine under packets and interrupts.
  \<^item> \<open>Grep\<close> (\<^verbatim>\<open>src/grep.c\<close>): the matcher decides the language of the pattern; the line loop.

  \<^bold>\<open>Parameters.\<close>  The device switch of \<^verbatim>\<open>src/file.c\<close>, the interrupt entry points, the first program, and the network card
  are arguments of the definitions that use them.  Nothing is assumed of the card except what a theorem states.

  \<^bold>\<open>Bounds and termination.\<close>  Loops over tables and counters are structural or have a termination proof.  Loops that follow
  pointers or run up to a NUL byte are partial functions to \<open>option\<close>, where no result stands for a loop that does not
  end; the theorems about them show that there is a result.  No fuel is used.  The theorems on files ask for
  \<open>blocks_for off n\<close> free blocks, two for each block touched: a data block and possibly the indirect block.

  \<^bold>\<open>Not modelled.\<close>
  \<^item> Hardware set-up: \<^verbatim>\<open>src/mp.c\<close>, \<^verbatim>\<open>src/lapic.c\<close> apart from \<^verbatim>\<open>cpu()\<close>, \<^verbatim>\<open>src/ioapic.c\<close>, \<^verbatim>\<open>src/picirq.c\<close>, \<^verbatim>\<open>src/timer.c\<close>, \<^verbatim>\<open>src/main.c\<close> and the
    boot loader: their effect is on devices that no other component reads.
  \<^item> Assembly (\<^verbatim>\<open>src/trapasm.S\<close>, \<^verbatim>\<open>src/swtch.S\<close>, \<^verbatim>\<open>src/vectors.pl\<close>, \<^verbatim>\<open>src/usys.S\<close>, \<^verbatim>\<open>src/initcode.S\<close>): what it does to trap frames and
    contexts is stated where they are used.
  \<^item> User programs other than \<^verbatim>\<open>grep\<close>, the allocator \<^verbatim>\<open>src/umalloc.c\<close>, the shell \<^verbatim>\<open>src/sh.c\<close>, the image builder \<^verbatim>\<open>src/mkfs.c\<close> and the
    test programs.
  \<^item> The continuation of a system call across a \<open>Sleep\<close> other than that of the disk, and preemption inside kernel
    code: the interleaving of processors is modelled for the lock, for \<open>sleep\<close> and \<open>wakeup\<close>, for the scheduler and for pipes.
\<close>

end
